(* ===== verification/Prelude.thy ===== *)
theory Prelude
  imports Main "HOL-Library.Word"
begin

unbundle bit_operations_syntax

text \<open>
  Shared vocabulary of the development: Go's bytes, byte slices and fixed width integers,
  the outcome of a Go call, big-endian byte strings (the encoding of \<^verbatim>\<open>math/big\<close>'s
  \<open>Bytes\<close>/\<open>SetBytes\<close> and of \<^verbatim>\<open>encoding/binary\<close>) and the list facts the components share.
\<close>

section \<open>Types and outcomes\<close>

type_synonym byte = "8 word"
type_synonym bytes = "byte list"
type_synonym u16 = "16 word"
type_synonym u64 = "64 word"

text \<open>
  A Go call either returns normally, returns an error value, panics, or (for a model that
  spends fuel on a loop or a recursion) has not returned when the fuel is spent.
\<close>

datatype ('e, 'a) res = Ok 'a | Err 'e | Panic | Diverge

fun res_bind :: "('e, 'a) res \<Rightarrow> ('a \<Rightarrow> ('e, 'b) res) \<Rightarrow> ('e, 'b) res" where
  "res_bind (Ok x) f = f x"
| "res_bind (Err e) f = Err e"
| "res_bind Panic f = Panic"
| "res_bind Diverge f = Diverge"

fun res_map :: "('a \<Rightarrow> 'b) \<Rightarrow> ('e, 'a) res \<Rightarrow> ('e, 'b) res" where
  "res_map f (Ok x) = Ok (f x)"
| "res_map f (Err e) = Err e"
| "res_map f Panic = Panic"
| "res_map f Diverge = Diverge"

fun is_ok :: "('e, 'a) res \<Rightarrow> bool" where
  "is_ok (Ok x) = True"
| "is_ok _ = False"

lemma res_bind_Ok_iff [simp]:
  "res_bind r f = Ok y \<longleftrightarrow> (\<exists>x. r = Ok x \<and> f x = Ok y)"
  by (cases r) auto

lemma res_map_Ok_iff [simp]: "res_map f r = Ok y \<longleftrightarrow> (\<exists>x. r = Ok x \<and> y = f x)"
  by (cases r) auto

lemma res_bind_cong [fundef_cong]:
  "r = s \<Longrightarrow> (\<And>x. s = Ok x \<Longrightarrow> f x = g x) \<Longrightarrow> res_bind r f = res_bind s g"
  by (cases s) auto

text \<open>Facts that unfold the Go primitives of the model.\<close>

named_theorems go_simps

section \<open>Big-endian byte strings\<close>

text \<open>
  \<open>be_nat\<close> is \<^verbatim>\<open>new(big.Int).SetBytes\<close>; \<open>big_bytes\<close> is \<^verbatim>\<open>big.Int.Bytes\<close>, the shortest
  big-endian representation (empty for zero); \<open>wbytes n i\<close> are the low \<open>n\<close> bytes of a word,
  most significant first.
\<close>

fun be_nat :: "bytes \<Rightarrow> nat" where
  "be_nat [] = 0"
| "be_nat (b # bs) = unat b * 256 ^ length bs + be_nat bs"

fun big_bytes :: "nat \<Rightarrow> bytes" where
  "big_bytes n = (if n = 0 then [] else big_bytes (n div 256) @ [of_nat (n mod 256)])"

declare big_bytes.simps [simp del]

primrec wbytes :: "nat \<Rightarrow> u64 \<Rightarrow> bytes" where
  "wbytes 0 i = []"
| "wbytes (Suc n) i = ucast (drop_bit (8 * n) i) # wbytes n i"

lemma unat_byte_less [simp]: "unat (b :: byte) < 256"
  using unsigned_less [of b, where ?'a = nat] by simp

lemma be_nat_append: "be_nat (xs @ ys) = be_nat xs * 256 ^ length ys + be_nat ys"
  by (induction xs) (auto simp: power_add algebra_simps)

lemma be_nat_less: "be_nat bs < 256 ^ length bs"
proof (induction bs)
  case Nil
  then show ?case by simp
next
  case (Cons b bs)
  have "be_nat (b # bs) < unat b * 256 ^ length bs + 256 ^ length bs"
    using Cons by simp
  also have "\<dots> = Suc (unat b) * 256 ^ length bs" by simp
  also have "\<dots> \<le> 256 * 256 ^ length bs"
    by (intro mult_le_mono1 Suc_leI unat_byte_less)
  finally show ?case by simp
qed

lemma be_nat_inj:
  "length xs = length ys \<Longrightarrow> be_nat xs = be_nat ys \<Longrightarrow> xs = ys"
proof (induction xs ys rule: list_induct2)
  case Nil
  then show ?case by simp
next
  case (Cons x xs y ys)
  let ?m = "256 ^ length ys :: nat"
  have lt: "be_nat xs < ?m" "be_nat ys < ?m"
    using be_nat_less [of xs] be_nat_less [of ys] Cons.hyps by simp_all
  have eq: "unat x * ?m + be_nat xs = unat y * ?m + be_nat ys"
    using Cons.prems Cons.hyps by simp
  then have "(unat x * ?m + be_nat xs) div ?m = (unat y * ?m + be_nat ys) div ?m"
    by simp
  with lt have "unat x = unat y" by simp
  with eq Cons.IH show ?case by (simp add: unsigned_word_eqI)
qed

lemma big_bytes_0 [simp]: "big_bytes 0 = []"
  by (simp add: big_bytes.simps)

lemma big_bytes_pos:
  "n \<noteq> 0 \<Longrightarrow> big_bytes n = big_bytes (n div 256) @ [of_nat (n mod 256)]"
  by (simp add: big_bytes.simps [of n])

lemma big_bytes_eq_Nil_iff [simp]: "big_bytes n = [] \<longleftrightarrow> n = 0"
  by (subst big_bytes.simps) simp

lemma unat_of_nat_byte [simp]: "unat (of_nat (n mod 256) :: byte) = n mod 256"
  by (simp add: unat_of_nat)

lemma be_nat_big_bytes [simp]: "be_nat (big_bytes n) = n"
proof (induction n rule: big_bytes.induct)
  case (1 n)
  then show ?case
    by (cases "n = 0") (simp_all add: big_bytes_pos [of n] be_nat_append)
qed

lemma hd_big_bytes: "n \<noteq> 0 \<Longrightarrow> hd (big_bytes n) \<noteq> 0"
proof (induction n rule: big_bytes.induct)
  case (1 n)
  show ?case
  proof (cases "n div 256 = 0")
    case True
    then have "n < 256" by (simp add: div_eq_0_iff)
    then have "unat (of_nat (n mod 256) :: byte) = n"
      using unat_of_nat_byte [of n] by (simp only: mod_less)
    with "1.prems" have "(of_nat (n mod 256) :: byte) \<noteq> 0"
      by (metis unat_0)
    with "1.prems" True show ?thesis by (simp add: big_bytes_pos [of n])
  next
    case False
    with "1" show ?thesis by (simp add: big_bytes_pos [of n] hd_append)
  qed
qed

text \<open>A byte string without a leading zero is the shortest representation of its value.\<close>

lemma be_nat_ge:
  assumes "bs \<noteq> []" and "hd bs \<noteq> 0"
  shows "256 ^ (length bs - 1) \<le> be_nat bs"
proof -
  obtain b cs where bs: "bs = b # cs" using assms(1) by (cases bs) auto
  with assms(2) have "1 \<le> unat b" by (simp add: Suc_le_eq unat_gt_0)
  then have "1 * 256 ^ length cs \<le> unat b * 256 ^ length cs"
    by (rule mult_le_mono1)
  then have "256 ^ length cs \<le> be_nat (b # cs)" by (simp only: be_nat.simps)
  with bs show ?thesis by simp
qed

lemma minimal_length:
  assumes "bs \<noteq> []" "hd bs \<noteq> 0" "cs \<noteq> []" "hd cs \<noteq> 0" "be_nat bs = be_nat cs"
  shows "length bs = length cs"
proof (rule ccontr)
  assume neq: "length bs \<noteq> length cs"
  have aux: False if "length xs < length ys" "be_nat xs = be_nat ys" "ys \<noteq> []" "hd ys \<noteq> 0"
    for xs ys
  proof -
    have "(256::nat) ^ length xs \<le> 256 ^ (length ys - 1)"
      using that(1) by (intro power_increasing) auto
    also have "\<dots> \<le> be_nat ys" using that(3,4) by (rule be_nat_ge)
    finally show False using be_nat_less [of xs] that(2) by simp
  qed
  from neq consider "length bs < length cs" | "length cs < length bs" by linarith
  then show False
    using aux [of bs cs] aux [of cs bs] assms by cases auto
qed

lemma big_bytes_be_nat:
  assumes "bs \<noteq> [] \<Longrightarrow> hd bs \<noteq> 0"
  shows "big_bytes (be_nat bs) = bs"
proof (cases "bs = []")
  case True
  then show ?thesis by simp
next
  case False
  with assms have h: "hd bs \<noteq> 0" by simp
  have "0 < be_nat bs"
    using be_nat_ge [OF False h] by (metis gr0I le_zero_eq power_not_zero zero_neq_numeral)
  then have nz: "big_bytes (be_nat bs) \<noteq> []" and hz: "hd (big_bytes (be_nat bs)) \<noteq> 0"
    by (simp_all add: hd_big_bytes)
  have "length (big_bytes (be_nat bs)) = length bs"
    by (rule minimal_length) (use False h nz hz in simp_all)
  then show ?thesis by (rule be_nat_inj) simp
qed

lemma length_big_bytes_le: "n < 256 ^ k \<Longrightarrow> length (big_bytes n) \<le> k"
proof (cases "n = 0")
  case False
  assume lt: "n < 256 ^ k"
  from False have "(256::nat) ^ (length (big_bytes n) - 1) \<le> n"
    using be_nat_ge [of "big_bytes n"] hd_big_bytes [of n] by simp
  then have "(256::nat) ^ (length (big_bytes n) - 1) < 256 ^ k"
    using lt by (rule order.strict_trans1)
  then have "length (big_bytes n) - 1 < k" by simp
  then show ?thesis by simp
qed simp

subsection \<open>Bytes of a 64-bit word\<close>

lemma length_wbytes [simp]: "length (wbytes n i) = n"
  by (induction n) auto

lemma unat_byte_drop_bit:
  "unat (ucast (drop_bit (8 * n) (i :: u64)) :: byte) = unat i div 256 ^ n mod 256"
proof -
  have "unat (ucast (drop_bit (8 * n) i) :: byte) = unat (drop_bit (8 * n) i) mod 2 ^ 8"
    by (simp add: unsigned_ucast_eq take_bit_eq_mod)
  also have "unat (drop_bit (8 * n) i) = unat i div 2 ^ (8 * n)"
    by (simp only: unat_drop_bit_eq) (simp add: drop_bit_eq_div)
  finally show ?thesis by (simp add: power_mult)
qed

lemma be_nat_wbytes: "be_nat (wbytes n i) = unat i mod 256 ^ n"
proof (induction n)
  case 0
  then show ?case by simp
next
  case (Suc n)
  have "unat i mod 256 ^ Suc n = unat i mod (256 ^ n * 256)"
    by (simp add: mult.commute)
  also have "\<dots> = 256 ^ n * (unat i div 256 ^ n mod 256) + unat i mod 256 ^ n"
    by (rule mod_mult2_eq)
  finally show ?case using Suc by (simp add: unat_byte_drop_bit)
qed

section \<open>Nibbles\<close>

definition nibble :: "byte \<Rightarrow> bool" where
  "nibble b \<longleftrightarrow> b < 16"

lemma not_nibble_16 [simp]: "\<not> nibble 16"
  by (simp add: nibble_def)

lemma unat_nibble: "nibble a \<longleftrightarrow> unat a < 16"
  by (simp add: nibble_def word_less_nat_alt)

lemma nibble_div_mod [simp]: "nibble (b div 16)" "nibble (b mod 16)" for b :: byte
  using unat_byte_less [of b]
  by (simp_all add: unat_nibble unat_div unat_mod del: unat_byte_less)

lemma nibble_take_bit: "nibble b \<Longrightarrow> take_bit 4 b = b"
  by (simp add: take_bit_eq_mod word_unat_eq_iff unat_mod unat_nibble)

lemma pack_add:
  assumes "nibble b"
  shows "push_bit 4 a OR b = push_bit 4 a + b"
proof -
  have "push_bit 4 a AND take_bit 4 b = 0"
    by (rule bit_eqI) (auto simp: bit_and_iff bit_push_bit_iff bit_take_bit_iff)
  then show ?thesis using assms by (simp add: nibble_take_bit disjunctive_add_eq_or)
qed

lemma unat_pack:
  assumes "nibble a" "nibble b"
  shows "unat (push_bit 4 a OR b) = 16 * unat a + unat b"
proof -
  have ab: "unat a < 16" "unat b < 16" using assms by (simp_all add: unat_nibble)
  then show ?thesis
    unfolding pack_add [OF assms(2)] by (simp add: push_bit_eq_mult unat_word_ariths)
qed

lemma pack_nibbles:
  assumes "nibble a" "nibble b"
  shows "(push_bit 4 a OR b) div 16 = a" and "(push_bit 4 a OR b) mod 16 = b"
  using assms unat_pack [OF assms]
  by (simp_all add: word_unat_eq_iff unat_div unat_mod unat_nibble)

lemma pack_div_mod: "push_bit 4 (b div 16) OR b mod 16 = b" for b :: byte
  using unat_pack [of "b div 16" "b mod 16"]
  by (simp add: word_unat_eq_iff unat_div unat_mod)

end
