(* ===== verification/Rlp.thy ===== *)
theory Rlp
  imports Prelude
begin

text \<open>
  The RLP encoder of \<^verbatim>\<open>src/common/rlp/encode.go\<close>: the two-pass buffer \<open>encbuf\<close>, which keeps list
  heads apart from the string data, and the writers that \<open>makeWriter\<close> selects.
  The reference encoding \<open>rlp_enc\<close> is the recursive definition of RLP.
\<close>

section \<open>Data\<close>

datatype Kind = KByte | KString | KList

datatype rlp_error =
    ErrUnexpectedEOF | ErrEOF | EOL
  | ErrExpectedString | ErrExpectedList
  | ErrCanonInt | ErrCanonSize
  | ErrElemTooLarge | ErrValueTooLarge | ErrMoreThanOneValue
  | ErrNotInList | ErrNotAtEOL | ErrUintOverflow
  | ErrNegativeBigInt | ErrInvalidBool u64
  | ErrTooFewElements | ErrInputTooLong | ErrInputTooShort

record listhead =
  lh_offset :: int
  lh_size :: int

record encbuf =
  eb_str :: bytes
  eb_lheads :: "listhead list"
  eb_lhsize :: int

text \<open>
  The values \<open>makeWriter\<close> distinguishes by their Go type. An interface or a pointer that is
  not nil is written as the value it holds, so it has no constructor of its own.
\<close>

datatype rval =
    RawV bytes            \<comment> \<open>\<^verbatim>\<open>RawValue\<close>\<close>
  | UintV u64             \<comment> \<open>an unsigned integer kind\<close>
  | BoolV bool
  | BigV "int option"     \<comment> \<open>\<^verbatim>\<open>*big.Int\<close>, possibly nil\<close>
  | BytesV bytes          \<comment> \<open>\<^verbatim>\<open>[]byte\<close> or a byte array\<close>
  | StringV bytes         \<comment> \<open>a Go string\<close>
  | NilInterfaceV         \<comment> \<open>a nil interface\<close>
  | NilByteArrayPtrV      \<comment> \<open>a nil pointer to a byte array\<close>
  | NilStructPtrV         \<comment> \<open>a nil pointer to a struct or another array\<close>
  | ListV "rval list"     \<comment> \<open>a slice, an array or a struct\<close>
  | TailV "rval list"     \<comment> \<open>a slice field with the tag \<^verbatim>\<open>rlp:"tail"\<close>\<close>

section \<open>Integers and headers\<close>

definition putint :: "u64 \<Rightarrow> bytes" where
  "putint i =
     (if i < 2 ^ 8 then [ucast i]
      else if i < 2 ^ 16 then [ucast (drop_bit 8 i), ucast i]
      else if i < 2 ^ 24 then [ucast (drop_bit 16 i), ucast (drop_bit 8 i), ucast i]
      else if i < 2 ^ 32 then
        [ucast (drop_bit 24 i), ucast (drop_bit 16 i), ucast (drop_bit 8 i), ucast i]
      else if i < 2 ^ 40 then
        [ucast (drop_bit 32 i), ucast (drop_bit 24 i), ucast (drop_bit 16 i),
         ucast (drop_bit 8 i), ucast i]
      else if i < 2 ^ 48 then
        [ucast (drop_bit 40 i), ucast (drop_bit 32 i), ucast (drop_bit 24 i),
         ucast (drop_bit 16 i), ucast (drop_bit 8 i), ucast i]
      else if i < 2 ^ 56 then
        [ucast (drop_bit 48 i), ucast (drop_bit 40 i), ucast (drop_bit 32 i),
         ucast (drop_bit 24 i), ucast (drop_bit 16 i), ucast (drop_bit 8 i), ucast i]
      else
        [ucast (drop_bit 56 i), ucast (drop_bit 48 i), ucast (drop_bit 40 i),
         ucast (drop_bit 32 i), ucast (drop_bit 24 i), ucast (drop_bit 16 i),
         ucast (drop_bit 8 i), ucast i])"

lemma unat_drop_byte: "unat (drop_bit 8 (i :: u64)) = unat i div 256"
  by (simp only: unat_drop_bit_eq) (simp add: drop_bit_eq_div)

function intsize_loop :: "nat \<Rightarrow> u64 \<Rightarrow> nat" where
  "intsize_loop sz i =
     (let i' = drop_bit 8 i in if i' = 0 then sz else intsize_loop (Suc sz) i')"
  by pat_completeness auto
termination
proof (relation "measure (\<lambda>(sz, i). unat i)")
  fix sz :: nat and i i' :: u64
  assume i': "i' = drop_bit 8 i" and nz: "i' \<noteq> 0"
  then have "unat i' = unat i div 256" by (simp add: unat_drop_byte)
  moreover from nz have "0 < unat i'" by (simp add: unat_gt_0)
  ultimately show "((Suc sz, i'), (sz, i)) \<in> measure (\<lambda>(sz, i). unat i)"
    by simp
qed simp

declare intsize_loop.simps [simp del]

definition intsize :: "u64 \<Rightarrow> nat" where
  "intsize i = intsize_loop 1 i"

definition headsize :: "u64 \<Rightarrow> nat" where
  "headsize sz = (if sz < 56 then 1 else 1 + intsize sz)"

definition ListSize :: "u64 \<Rightarrow> u64" where
  "ListSize contentSize = of_nat (headsize contentSize) + contentSize"

definition puthead :: "byte \<Rightarrow> byte \<Rightarrow> u64 \<Rightarrow> bytes" where
  "puthead smalltag largetag sz =
     (if sz < 56 then [smalltag + ucast sz]
      else let b = putint sz in (largetag + of_nat (length b)) # b)"

definition listhead_encode :: "listhead \<Rightarrow> bytes" where
  "listhead_encode h = puthead 0xC0 0xF7 (word_of_int (lh_size h))"

section \<open>The encoder buffer\<close>

definition encbuf_reset :: encbuf where
  "encbuf_reset = \<lparr>eb_str = [], eb_lheads = [], eb_lhsize = 0\<rparr>"

definition encbuf_Write :: "bytes \<Rightarrow> encbuf \<Rightarrow> encbuf" where
  "encbuf_Write b w = w\<lparr>eb_str := eb_str w @ b\<rparr>"

definition encodeStringHeader :: "nat \<Rightarrow> encbuf \<Rightarrow> encbuf" where
  "encodeStringHeader sz w =
     (if sz < 56 then w\<lparr>eb_str := eb_str w @ [0x80 + of_nat sz]\<rparr>
      else let b = putint (of_nat sz)
           in w\<lparr>eb_str := eb_str w @ (0xB7 + of_nat (length b)) # b\<rparr>)"

definition encodeString :: "bytes \<Rightarrow> encbuf \<Rightarrow> encbuf" where
  "encodeString b w =
     (if length b = 1 \<and> b ! 0 \<le> 0x7F then w\<lparr>eb_str := eb_str w @ [b ! 0]\<rparr>
      else let w' = encodeStringHeader (length b) w in w'\<lparr>eb_str := eb_str w' @ b\<rparr>)"

text \<open>\<open>list\<close> returns a pointer to the new head; the model returns its index in \<open>eb_lheads\<close>.\<close>

definition encbuf_list :: "encbuf \<Rightarrow> nat \<times> encbuf" where
  "encbuf_list w =
     (length (eb_lheads w),
      w\<lparr>eb_lheads := eb_lheads w @
          [\<lparr>lh_offset = int (length (eb_str w)), lh_size = eb_lhsize w\<rparr>]\<rparr>)"

definition encbuf_size :: "encbuf \<Rightarrow> int" where
  "encbuf_size w = int (length (eb_str w)) + eb_lhsize w"

definition encbuf_listEnd :: "nat \<Rightarrow> encbuf \<Rightarrow> encbuf" where
  "encbuf_listEnd lh w =
     (let h = eb_lheads w ! lh;
          sz = encbuf_size w - lh_offset h - lh_size h;
          w' = w\<lparr>eb_lheads := (eb_lheads w)[lh := h\<lparr>lh_size := sz\<rparr>]\<rparr>
      in if sz < 56 then w'\<lparr>eb_lhsize := eb_lhsize w' + 1\<rparr>
         else w'\<lparr>eb_lhsize := eb_lhsize w' + 1 + int (intsize (word_of_int sz))\<rparr>)"

text \<open>
  \<open>toBytes\<close> interleaves the string data with the encoded list heads. Its loop keeps the
  position \<open>strpos\<close> in the string data and the output written so far.
\<close>

fun toBytes_loop :: "listhead list \<Rightarrow> bytes \<Rightarrow> nat \<Rightarrow> bytes \<Rightarrow> nat \<times> bytes" where
  "toBytes_loop [] str strpos out = (strpos, out)"
| "toBytes_loop (head # heads) str strpos out =
     (let piece = take (nat (lh_offset head) - strpos) (drop strpos str);
          out' = out @ piece;
          strpos' = strpos + length piece
      in toBytes_loop heads str strpos' (out' @ listhead_encode head))"

definition encbuf_toBytes :: "encbuf \<Rightarrow> bytes" where
  "encbuf_toBytes w =
     (let (strpos, out) = toBytes_loop (eb_lheads w) (eb_str w) 0 []
      in out @ drop strpos (eb_str w))"

text \<open>\<open>toWriter\<close>: the sequence of \<^verbatim>\<open>Write\<close> calls on a writer that accepts every write.\<close>

fun toWriter_loop :: "listhead list \<Rightarrow> bytes \<Rightarrow> nat \<Rightarrow> bytes list \<Rightarrow> nat \<times> bytes list" where
  "toWriter_loop [] str strpos ws = (strpos, ws)"
| "toWriter_loop (head # heads) str strpos ws =
     (let (strpos', ws') =
        (if lh_offset head - int strpos > 0
         then (let piece = take (nat (lh_offset head) - strpos) (drop strpos str)
               in (strpos + length piece, ws @ [piece]))
         else (strpos, ws))
      in toWriter_loop heads str strpos' (ws' @ [listhead_encode head]))"

definition encbuf_toWriter :: "encbuf \<Rightarrow> bytes list" where
  "encbuf_toWriter w =
     (let (strpos, ws) = toWriter_loop (eb_lheads w) (eb_str w) 0 []
      in if strpos < length (eb_str w) then ws @ [drop strpos (eb_str w)] else ws)"

section \<open>Writers\<close>

definition writeUint :: "u64 \<Rightarrow> encbuf \<Rightarrow> encbuf" where
  "writeUint i w =
     (if i = 0 then encbuf_Write [0x80] w
      else if i < 128 then encbuf_Write [ucast i] w
      else let b = putint i in encbuf_Write ((0x80 + of_nat (length b)) # b) w)"

definition writeBool :: "bool \<Rightarrow> encbuf \<Rightarrow> encbuf" where
  "writeBool b w = (if b then encbuf_Write [0x01] w else encbuf_Write [0x80] w)"

definition writeBigInt :: "int \<Rightarrow> encbuf \<Rightarrow> (rlp_error, encbuf) res" where
  "writeBigInt i w =
     (if i < 0 then Err ErrNegativeBigInt
      else if i = 0 then Ok (encbuf_Write [0x80] w)
      else Ok (encodeString (big_bytes (nat i)) w))"

definition writeBigIntPtr :: "int option \<Rightarrow> encbuf \<Rightarrow> (rlp_error, encbuf) res" where
  "writeBigIntPtr p w =
     (case p of None \<Rightarrow> Ok (encbuf_Write [0x80] w) | Some i \<Rightarrow> writeBigInt i w)"

definition writeString :: "bytes \<Rightarrow> encbuf \<Rightarrow> encbuf" where
  "writeString s w =
     (if length s = 1 \<and> s ! 0 \<le> 0x7f then encbuf_Write [s ! 0] w
      else encbuf_Write s (encodeStringHeader (length s) w))"

fun write_val :: "rval \<Rightarrow> encbuf \<Rightarrow> (rlp_error, encbuf) res"
  and write_vals :: "rval list \<Rightarrow> encbuf \<Rightarrow> (rlp_error, encbuf) res"
where
  "write_val (RawV b) w = Ok (encbuf_Write b w)"
| "write_val (UintV i) w = Ok (writeUint i w)"
| "write_val (BoolV b) w = Ok (writeBool b w)"
| "write_val (BigV p) w = writeBigIntPtr p w"
| "write_val (BytesV b) w = Ok (encodeString b w)"
| "write_val (StringV s) w = Ok (writeString s w)"
| "write_val NilInterfaceV w = Ok (encbuf_Write [0xC0] w)"
| "write_val NilByteArrayPtrV w = Ok (encbuf_Write [0x80] w)"
| "write_val NilStructPtrV w = (let (lh, w') = encbuf_list w in Ok (encbuf_listEnd lh w'))"
| "write_val (ListV vs) w =
     (let (lh, w') = encbuf_list w
      in res_bind (write_vals vs w') (\<lambda>w''. Ok (encbuf_listEnd lh w'')))"
| "write_val (TailV vs) w = write_vals vs w"
| "write_vals [] w = Ok w"
| "write_vals (v # vs) w = res_bind (write_val v w) (write_vals vs)"

definition EncodeToBytes :: "rval \<Rightarrow> (rlp_error, bytes) res" where
  "EncodeToBytes v = res_bind (write_val v encbuf_reset) (\<lambda>w. Ok (encbuf_toBytes w))"

definition rlp_Encode :: "rval \<Rightarrow> (rlp_error, bytes list) res" where
  "rlp_Encode v = res_bind (write_val v encbuf_reset) (\<lambda>w. Ok (encbuf_toWriter w))"

section \<open>Integers: the byte cascades are big-endian numbers\<close>

lemma wbytes_big_bytes:
  assumes "256 ^ n \<le> unat i" and "unat i < 256 ^ Suc n"
  shows "wbytes (Suc n) i = big_bytes (unat i)"
proof -
  have "be_nat (wbytes (Suc n) i) = unat i"
    using assms(2) by (simp only: be_nat_wbytes mod_less)
  moreover have "hd (wbytes (Suc n) i) \<noteq> 0"
  proof
    assume "hd (wbytes (Suc n) i) = 0"
    then have "unat i div 256 ^ n mod 256 = 0"
      using unat_byte_drop_bit [of n i] by (simp del: unat_byte_less)
    moreover have "unat i div 256 ^ n < 256"
      using assms(2) by (simp add: less_mult_imp_div_less mult.commute)
    moreover have "0 < unat i div 256 ^ n"
      using assms(1) by (simp add: div_greater_zero_iff)
    ultimately show False by simp
  qed
  ultimately show ?thesis
    using big_bytes_be_nat [of "wbytes (Suc n) i"] by simp
qed

lemma wbytes_numeral [simp]:
  "wbytes (numeral k) i = ucast (drop_bit (8 * pred_numeral k) i) # wbytes (pred_numeral k) i"
  by (simp add: numeral_eq_Suc)

lemma putint_wbytes:
  assumes "n < 8" "n \<noteq> 0 \<Longrightarrow> 256 ^ n \<le> unat i" "unat i < 256 ^ Suc n"
  shows "putint i = wbytes (Suc n) i"
proof -
  from \<open>n < 8\<close> consider "n = 0" | "n = 1" | "n = 2" | "n = 3" | "n = 4" | "n = 5" | "n = 6" | "n = 7"
    by linarith
  then show ?thesis
    using assms(2,3)
    by cases (simp_all add: putint_def word_less_nat_alt)
qed

lemma putint_eq: "putint i = (if i = 0 then [0] else big_bytes (unat i))"
proof (cases "i = 0")
  case True
  then show ?thesis by (simp add: putint_def)
next
  case False
  define n where "n = length (big_bytes (unat i)) - 1"
  have nz: "unat i \<noteq> 0" using False by (simp add: unat_eq_0)
  then have len: "length (big_bytes (unat i)) = Suc n"
    by (simp add: n_def)
  have lo: "256 ^ n \<le> unat i"
    using be_nat_ge [of "big_bytes (unat i)"] hd_big_bytes [OF nz] nz len by simp
  have hi: "unat i < 256 ^ Suc n"
    using be_nat_less [of "big_bytes (unat i)"] len by simp
  have "length (big_bytes (unat i)) \<le> 8"
    by (rule length_big_bytes_le) (use unsigned_less [of i, where ?'a = nat] in simp)
  with len have "n < 8" by simp
  then have "putint i = wbytes (Suc n) i"
    using lo hi by (intro putint_wbytes)
  with wbytes_big_bytes [OF lo hi] False show ?thesis by simp
qed

lemma length_putint: "1 \<le> length (putint i)" "length (putint i) \<le> 8"
proof -
  show "1 \<le> length (putint i)"
    by (simp add: putint_eq Suc_le_eq unat_eq_0)
  show "length (putint i) \<le> 8"
    using length_big_bytes_le [of "unat i" 8] unsigned_less [of i, where ?'a = nat]
    by (simp add: putint_eq)
qed

lemma intsize_loop_eq:
  "intsize_loop n i = n + (length (putint i) - 1)"
proof (induction n i rule: intsize_loop.induct)
  case (1 n i)
  show ?case
  proof (cases "drop_bit 8 i = 0")
    case True
    then have "unat i < 256"
      using unat_drop_byte [of i] by (simp add: div_eq_0_iff)
    then have "length (putint i) = 1"
      by (simp add: putint_def word_less_nat_alt)
    with True show ?thesis by (simp add: intsize_loop.simps)
  next
    case False
    then have "unat i div 256 \<noteq> 0"
      using unat_drop_byte [of i] by (metis unat_eq_0)
    then have "unat i \<noteq> 0" by (metis div_0)
    then have "length (putint i) = Suc (length (putint (drop_bit 8 i)))"
      using False by (auto simp: putint_eq unat_drop_byte big_bytes_pos [of "unat i"])
    with False 1 length_putint(1) [of "drop_bit 8 i"] show ?thesis
      by (simp add: intsize_loop.simps [of n i])
  qed
qed

lemma intsize_eq: "intsize i = length (putint i)"
  using length_putint(1) [of i] by (simp add: intsize_def intsize_loop_eq)

lemma length_puthead: "length (puthead a b n) = headsize n"
  by (simp add: puthead_def headsize_def intsize_eq Let_def)

section \<open>The reference encoding\<close>

datatype item = Str bytes | Lst "item list"

definition rlp_head :: "nat \<Rightarrow> nat \<Rightarrow> nat \<Rightarrow> bytes" where
  "rlp_head small large n =
     (if n < 56 then [of_nat (small + n)]
      else of_nat (large + length (big_bytes n)) # big_bytes n)"

definition rlp_str :: "bytes \<Rightarrow> bytes" where
  "rlp_str b = (if length b = 1 \<and> be_nat b < 128 then b else rlp_head 0x80 0xB7 (length b) @ b)"

definition rlp_list :: "bytes \<Rightarrow> bytes" where
  "rlp_list c = rlp_head 0xC0 0xF7 (length c) @ c"

fun rlp_enc :: "item \<Rightarrow> bytes" where
  "rlp_enc (Str b) = rlp_str b"
| "rlp_enc (Lst xs) = rlp_list (concat (map rlp_enc xs))"

fun enc_rval :: "rval \<Rightarrow> bytes" where
  "enc_rval (RawV b) = b"
| "enc_rval (UintV i) = rlp_str (big_bytes (unat i))"
| "enc_rval (BoolV b) = rlp_str (big_bytes (of_bool b))"
| "enc_rval (BigV None) = rlp_str []"
| "enc_rval (BigV (Some i)) = rlp_str (big_bytes (nat i))"
| "enc_rval (BytesV b) = rlp_str b"
| "enc_rval (StringV b) = rlp_str b"
| "enc_rval NilInterfaceV = rlp_list []"
| "enc_rval NilByteArrayPtrV = rlp_str []"
| "enc_rval NilStructPtrV = rlp_list []"
| "enc_rval (ListV vs) = rlp_list (concat (map enc_rval vs))"
| "enc_rval (TailV vs) = concat (map enc_rval vs)"

fun rval_nonneg :: "rval \<Rightarrow> bool" where
  "rval_nonneg (BigV (Some i)) = (0 \<le> i)"
| "rval_nonneg (ListV vs) = list_all rval_nonneg vs"
| "rval_nonneg (TailV vs) = list_all rval_nonneg vs"
| "rval_nonneg _ = True"

lemma puthead_rlp_head:
  assumes "n < 2 ^ 64"
  shows "puthead (of_nat small) (of_nat large) (of_nat n) = rlp_head small large n"
proof -
  have u: "unat (of_nat n :: u64) = n" using assms by (simp add: unat_of_nat)
  have "(of_nat n :: u64) < 56 \<longleftrightarrow> n < 56"
    using u by (simp add: word_less_nat_alt)
  moreover have "ucast (of_nat n :: u64) = (of_nat n :: byte)"
    by (metis u of_nat_unat)
  moreover have "(of_nat n :: u64) \<noteq> 0" if "\<not> n < 56" using u that by (metis unat_0 zero_less_numeral)
  ultimately show ?thesis
    using u by (auto simp: puthead_def rlp_head_def putint_eq Let_def)
qed

section \<open>The buffer encodes by the reference\<close>

fun asm :: "nat \<Rightarrow> listhead list \<Rightarrow> bytes \<Rightarrow> bytes" where
  "asm p [] s = s"
| "asm p (h # hs) s =
     take (nat (lh_offset h) - p) s @ listhead_encode h
       @ asm (nat (lh_offset h)) hs (drop (nat (lh_offset h) - p) s)"

fun heads_in :: "nat \<Rightarrow> nat \<Rightarrow> listhead list \<Rightarrow> bool" where
  "heads_in p q [] \<longleftrightarrow> p \<le> q"
| "heads_in p q (h # hs) \<longleftrightarrow> int p \<le> lh_offset h \<and> heads_in (nat (lh_offset h)) q hs"

definition heads_size :: "listhead list \<Rightarrow> nat" where
  "heads_size hs = sum_list (map (length \<circ> listhead_encode) hs)"

lemma heads_in_le: "heads_in p q hs \<Longrightarrow> p \<le> q"
  by (induction hs arbitrary: p) force+

lemma heads_in_append:
  "heads_in p q hs \<Longrightarrow> heads_in q r hs' \<Longrightarrow> heads_in p r (hs @ hs')"
proof (induction hs arbitrary: p)
  case Nil
  then show ?case by (cases hs') auto
qed simp

lemma asm_skip:
  "heads_in (p + length s) q hs \<Longrightarrow> asm p hs (s @ t) = s @ asm (p + length s) hs t"
proof (cases hs)
  case (Cons h hs')
  assume "heads_in (p + length s) q hs"
  with Cons have "p + length s \<le> nat (lh_offset h)" by auto
  with Cons show ?thesis by simp
qed simp

lemma asm_append:
  "heads_in p (p + length s) hs \<Longrightarrow> heads_in (p + length s) q hs' \<Longrightarrow>
   asm p (hs @ hs') (s @ t) = asm p hs s @ asm (p + length s) hs' t"
proof (induction hs arbitrary: p s)
  case Nil
  then show ?case using asm_skip by simp
next
  case (Cons h hs)
  let ?o = "nat (lh_offset h)"
  from Cons.prems(1) have le: "p \<le> ?o" and hin: "heads_in ?o (p + length s) hs" by auto
  from heads_in_le [OF hin] have o: "?o \<le> p + length s" .
  with le have eq: "?o + length (drop (?o - p) s) = p + length s" by simp
  have "asm ?o (hs @ hs') (drop (?o - p) s @ t) =
        asm ?o hs (drop (?o - p) s) @ asm (p + length s) hs' t"
    using Cons.IH [of ?o "drop (?o - p) s", unfolded eq] hin Cons.prems(2) by blast
  with o le show ?case by simp
qed

lemma length_asm:
  "heads_in p (p + length s) hs \<Longrightarrow> length (asm p hs s) = length s + heads_size hs"
proof (induction hs arbitrary: p s)
  case Nil
  then show ?case by (simp add: heads_size_def)
next
  case (Cons h hs)
  let ?o = "nat (lh_offset h)"
  from Cons.prems have le: "p \<le> ?o" and hin: "heads_in ?o (p + length s) hs" by auto
  from heads_in_le [OF hin] have o: "?o \<le> p + length s" .
  with le have eq: "?o + length (drop (?o - p) s) = p + length s" by simp
  from Cons.IH [of ?o "drop (?o - p) s", unfolded eq] hin
  have "length (asm ?o hs (drop (?o - p) s)) = length (drop (?o - p) s) + heads_size hs"
    by blast
  with o le show ?case by (simp add: heads_size_def)
qed

definition wrote :: "encbuf \<Rightarrow> encbuf \<Rightarrow> bytes \<Rightarrow> bool" where
  "wrote w w' out \<longleftrightarrow>
     (\<exists>s hs. eb_str w' = eb_str w @ s \<and> eb_lheads w' = eb_lheads w @ hs \<and>
        eb_lhsize w' = eb_lhsize w + int (heads_size hs) \<and>
        heads_in (length (eb_str w)) (length (eb_str w')) hs \<and>
        asm (length (eb_str w)) hs s = out)"

lemma wrote_refl: "wrote w w []"
  by (auto simp: wrote_def heads_size_def intro!: exI [of _ "[]"])

lemma wrote_trans:
  assumes "wrote w w1 a" "wrote w1 w2 b"
  shows "wrote w w2 (a @ b)"
proof -
  from assms(1) obtain s hs where
    1: "eb_str w1 = eb_str w @ s" "eb_lheads w1 = eb_lheads w @ hs"
      "eb_lhsize w1 = eb_lhsize w + int (heads_size hs)"
      "heads_in (length (eb_str w)) (length (eb_str w1)) hs"
      "asm (length (eb_str w)) hs s = a"
    by (auto simp: wrote_def)
  from assms(2) obtain t ks where
    2: "eb_str w2 = eb_str w1 @ t" "eb_lheads w2 = eb_lheads w1 @ ks"
      "eb_lhsize w2 = eb_lhsize w1 + int (heads_size ks)"
      "heads_in (length (eb_str w1)) (length (eb_str w2)) ks"
      "asm (length (eb_str w1)) ks t = b"
    by (auto simp: wrote_def)
  have "asm (length (eb_str w)) (hs @ ks) (s @ t) = a @ b"
    using asm_append [of "length (eb_str w)" s hs _ ks t] 1 2 by simp
  moreover have "heads_in (length (eb_str w)) (length (eb_str w2)) (hs @ ks)"
    using 1(4) 2(4) by (rule heads_in_append)
  moreover have "heads_size (hs @ ks) = heads_size hs + heads_size ks"
    by (simp add: heads_size_def)
  ultimately show ?thesis
    unfolding wrote_def using 1(1-3) 2(1-3) by (intro exI [of _ "s @ t"] exI [of _ "hs @ ks"]) simp
qed

lemma wrote_str: "eb_str w' = eb_str w @ b \<Longrightarrow> eb_lheads w' = eb_lheads w \<Longrightarrow>
    eb_lhsize w' = eb_lhsize w \<Longrightarrow> wrote w w' b"
  by (auto simp: wrote_def heads_size_def intro!: exI [of _ b] exI [of _ "[]"])

lemma wrote_Write: "wrote w (encbuf_Write b w) b"
  by (rule wrote_str) (simp_all add: encbuf_Write_def)

lemma wrote_listEnd:
  assumes l: "encbuf_list w = (lh, w1)" and c: "wrote w1 w2 c" and len: "length c < 2 ^ 64"
  shows "wrote w (encbuf_listEnd lh w2) (rlp_list c)"
proof -
  let ?p = "length (eb_str w)"
  let ?h0 = "\<lparr>lh_offset = int ?p, lh_size = eb_lhsize w\<rparr>"
  from l have lh: "lh = length (eb_lheads w)" and w1: "eb_str w1 = eb_str w"
    "eb_lheads w1 = eb_lheads w @ [?h0]" "eb_lhsize w1 = eb_lhsize w"
    by (auto simp: encbuf_list_def)
  from c obtain s hs where
    2: "eb_str w2 = eb_str w @ s" "eb_lheads w2 = eb_lheads w @ ?h0 # hs"
      "eb_lhsize w2 = eb_lhsize w + int (heads_size hs)"
      "heads_in ?p (length (eb_str w2)) hs" "asm ?p hs s = c"
    by (auto simp: wrote_def w1)
  let ?size = "encbuf_size w2 - int ?p - eb_lhsize w"
  let ?h = "\<lparr>lh_offset = int ?p, lh_size = ?size\<rparr>"
  have "length c = length s + heads_size hs"
    using length_asm [of ?p s hs] 2 by simp
  then have sz: "?size = int (length c)"
    using 2 by (simp add: encbuf_size_def)
  have enc: "listhead_encode ?h = rlp_head 0xC0 0xF7 (length c)"
    using puthead_rlp_head [OF len, of "0xC0" "0xF7"] sz
    by (simp add: listhead_encode_def)
  have hs: "length (listhead_encode ?h) = (if length c < 56 then 1 else 1 + intsize (of_nat (length c)))"
    using len by (simp add: listhead_encode_def length_puthead headsize_def sz word_less_nat_alt unat_of_nat)
  have "eb_lheads (encbuf_listEnd lh w2) = eb_lheads w @ ?h # hs"
    using lh 2(2) by (simp add: encbuf_listEnd_def Let_def)
  moreover have "eb_str (encbuf_listEnd lh w2) = eb_str w @ s"
    using 2(1) by (simp add: encbuf_listEnd_def Let_def)
  moreover have "eb_lhsize (encbuf_listEnd lh w2) = eb_lhsize w + int (heads_size (?h # hs))"
    using lh 2(2,3) sz hs by (auto simp: encbuf_listEnd_def Let_def heads_size_def)
  moreover have "asm ?p (?h # hs) s = rlp_list c"
    using enc 2(5) by (simp add: rlp_list_def)
  ultimately show ?thesis
    unfolding wrote_def using 2(1,4) by (intro exI [of _ s] exI [of _ "?h # hs"]) simp
qed


lemma rlp_list_Nil: "rlp_list [] = [0xC0]" by (simp add: rlp_list_def rlp_head_def)
lemma rlp_str_Nil: "rlp_str [] = [0x80]" by (simp add: rlp_str_def rlp_head_def)

lemma byte_le_7f: "b ! 0 \<le> (0x7f :: byte) \<longleftrightarrow> be_nat b < 128" if "length b = 1"
  using that by (cases b) (auto simp: word_le_nat_alt)

lemma wrote_encodeString:
  assumes "length b < 2 ^ 64"
  shows "wrote w (encodeString b w) (rlp_str b)"
proof (cases "length b = 1 \<and> be_nat b < 128")
  case True
  moreover from True have "[b ! 0] = b" by (cases b) auto
  ultimately show ?thesis
    by (auto simp: encodeString_def rlp_str_def byte_le_7f intro!: wrote_str)
next
  case False
  have hd: "eb_str (encodeStringHeader (length b) w) = eb_str w @ rlp_head 0x80 0xB7 (length b)"
  proof -
    have u: "unat (of_nat (length b) :: u64) = length b" using assms by (simp add: unat_of_nat)
    show ?thesis
    proof (cases "length b < 56")
      case True
      then show ?thesis by (simp add: encodeStringHeader_def rlp_head_def)
    next
      case False
      then have "(of_nat (length b) :: u64) \<noteq> 0" using u by (metis unat_0 zero_less_numeral)
      with False u show ?thesis
        by (simp add: encodeStringHeader_def rlp_head_def Let_def putint_eq)
    qed
  qed
  with False show ?thesis
    by (auto simp: encodeString_def rlp_str_def byte_le_7f encbuf_Write_def encodeStringHeader_def
        Let_def intro!: wrote_str)
qed

lemma length_rlp_str: "length (rlp_str b) < 2 ^ 64 \<Longrightarrow> length b < 2 ^ 64"
  by (simp add: rlp_str_def split: if_splits)

lemma rlp_str_uint:
  assumes "i \<noteq> 0"
  shows "rlp_str (big_bytes (unat i)) =
    (if i < 128 then [ucast i] else (0x80 + of_nat (length (putint i))) # putint i)"
proof -
  have pos: "0 < unat i" using assms by (simp add: unat_gt_0)
  have lt: "i < 128 \<longleftrightarrow> unat i < 128" by (simp add: word_less_nat_alt)
  show ?thesis
  proof (cases "unat i < 128")
    case True
    then have "big_bytes (unat i) = [ucast i]"
      using pos big_bytes_pos [of "unat i"] by (simp add: big_bytes_0)
    with True lt show ?thesis by (simp add: rlp_str_def unsigned_ucast_eq take_bit_eq_mod)
  next
    case False
    with lt assms length_putint [of i] show ?thesis
      by (simp add: rlp_str_def rlp_head_def putint_eq)
  qed
qed

lemma wrote_writeUint: "wrote w (writeUint i w) (rlp_str (big_bytes (unat i)))"
  using rlp_str_uint [of i]
  by (cases "i = 0") (auto simp: writeUint_def rlp_str_Nil big_bytes_0 Let_def wrote_Write)

lemma writeString_encodeString: "writeString s w = encodeString s w"
  by (simp add: writeString_def encodeString_def encbuf_Write_def Let_def)

lemma write_val_wrote:
  "rval_nonneg v \<Longrightarrow> length (enc_rval v) < 2 ^ 64 \<Longrightarrow>
     \<exists>w'. write_val v w = Ok w' \<and> wrote w w' (enc_rval v)"
  "list_all rval_nonneg vs \<Longrightarrow> length (concat (map enc_rval vs)) < 2 ^ 64 \<Longrightarrow>
     \<exists>w'. write_vals vs w = Ok w' \<and> wrote w w' (concat (map enc_rval vs))"
proof (induction v w and vs w rule: write_val_write_vals.induct)
  case (4 p w)
  show ?case
  proof (cases p)
    case None
    then show ?thesis using wrote_Write by (simp add: writeBigIntPtr_def rlp_str_Nil)
  next
    case (Some i)
    with 4 wrote_encodeString [OF length_rlp_str, of "big_bytes (nat i)" w] wrote_Write
    show ?thesis by (simp add: writeBigIntPtr_def writeBigInt_def rlp_str_Nil big_bytes_0)
  qed
next
  case (9 w)
  show ?case using wrote_listEnd [OF _ wrote_refl] by (simp split: prod.split)
next
  case (10 vs w)
  obtain lh w1 where l: "encbuf_list w = (lh, w1)" by force
  let ?c = "concat (map enc_rval vs)"
  from "10.prems"(2) have len: "length ?c < 2 ^ 64" by (auto simp: rlp_list_def)
  with "10.IH" [OF l [symmetric] refl] "10.prems"(1) l obtain w2
    where "write_vals vs w1 = Ok w2" "wrote w1 w2 ?c" by auto
  with l wrote_listEnd [OF l _ len] show ?case by auto
next
  case (13 v vs w)
  then obtain w1 where "write_val v w = Ok w1" "wrote w w1 (enc_rval v)" by force
  moreover from 13 this obtain w2
    where "write_vals vs w1 = Ok w2" "wrote w1 w2 (concat (map enc_rval vs))" by force
  ultimately show ?case by (auto intro: wrote_trans)
next
  case (3 b w)
  have "rlp_str (big_bytes 1) = [1]" using rlp_str_uint [of 1] by simp
  then show ?case using wrote_Write by (simp add: writeBool_def rlp_str_Nil big_bytes_0)
next
  case (5 b w)
  then show ?case using wrote_encodeString [OF length_rlp_str] by simp
next
  case (6 b w)
  then show ?case using wrote_encodeString [OF length_rlp_str] by (simp add: writeString_encodeString)
next
  case (7 w)
  show ?case using wrote_Write [of w "[0xC0]"] by (simp add: rlp_list_Nil)
next
  case (8 w)
  show ?case using wrote_Write [of w "[0x80]"] by (simp add: rlp_str_Nil)
qed (simp_all add: wrote_Write wrote_writeUint wrote_refl)


lemma toBytes_loop_asm:
  "heads_in p (length str) hs \<Longrightarrow> toBytes_loop hs str p out = (q, out') \<Longrightarrow>
   out' @ drop q str = out @ asm p hs (drop p str)"
proof (induction hs arbitrary: p out)
  case (Cons h hs)
  let ?o = "nat (lh_offset h)"
  from Cons.prems(1) have le: "p \<le> ?o" and hin: "heads_in ?o (length str) hs" by auto
  from heads_in_le [OF hin] le have eq: "p + length (take (?o - p) (drop p str)) = ?o" by simp
  from Cons.IH [OF hin] Cons.prems(2) eq le show ?case by (auto simp: Let_def)
qed simp

lemma toWriter_loop_asm:
  "heads_in p (length str) hs \<Longrightarrow> toWriter_loop hs str p ws = (q, ws') \<Longrightarrow>
   concat ws' @ drop q str = concat ws @ asm p hs (drop p str)"
proof (induction hs arbitrary: p ws)
  case (Cons h hs)
  let ?o = "nat (lh_offset h)"
  from Cons.prems(1) have le: "p \<le> ?o" and hin: "heads_in ?o (length str) hs" by auto
  from heads_in_le [OF hin] le have eq: "p + length (take (?o - p) (drop p str)) = ?o" by simp
  show ?case
  proof (cases "lh_offset h - int p > 0")
    case True
    with Cons.IH [OF hin] Cons.prems(2) eq le show ?thesis by (auto simp: Let_def)
  next
    case False
    with Cons.prems(1) have "?o = p" by auto
    with False Cons.IH [OF hin] Cons.prems(2) show ?thesis by simp
  qed
qed simp

lemma wrote_reset:
  assumes "wrote encbuf_reset w out"
  shows "encbuf_toBytes w = out" and "concat (encbuf_toWriter w) = out"
    and "encbuf_size w = int (length out)"
proof -
  from assms have w: "heads_in 0 (length (eb_str w)) (eb_lheads w)"
    "asm 0 (eb_lheads w) (eb_str w) = out" "eb_lhsize w = int (heads_size (eb_lheads w))"
    by (auto simp: wrote_def encbuf_reset_def)
  show "encbuf_toBytes w = out"
    using toBytes_loop_asm [OF w(1)] w(2)
    by (auto simp: encbuf_toBytes_def split: prod.split)
  show "concat (encbuf_toWriter w) = out"
    using toWriter_loop_asm [OF w(1)] w(2)
    by (fastforce simp: encbuf_toWriter_def split: prod.split)
  show "encbuf_size w = int (length out)"
    using length_asm [of 0 "eb_str w" "eb_lheads w"] w by (simp add: encbuf_size_def)
qed

lemma write_val_total:
  "rval_nonneg v \<Longrightarrow> \<exists>w'. write_val v w = Ok w'"
  "list_all rval_nonneg vs \<Longrightarrow> \<exists>w'. write_vals vs w = Ok w'"
proof (induction v w and vs w rule: write_val_write_vals.induct)
  case (4 p w)
  then show ?case by (cases p) (auto simp: writeBigIntPtr_def writeBigInt_def)
next
  case (10 vs w)
  then show ?case by (cases "encbuf_list w") auto
next
  case (13 v vs w)
  then show ?case by force
qed (auto split: prod.split)

lemma write_val_negative:
  "\<not> rval_nonneg v \<Longrightarrow> write_val v w = Err ErrNegativeBigInt"
  "\<not> list_all rval_nonneg vs \<Longrightarrow> write_vals vs w = Err ErrNegativeBigInt"
proof (induction v w and vs w rule: write_val_write_vals.induct)
  case (4 p w)
  then show ?case by (cases p) (auto simp: writeBigIntPtr_def writeBigInt_def)
next
  case (10 vs w)
  then show ?case by (cases "encbuf_list w") simp
next
  case (13 v vs w)
  show ?case
  proof (cases "rval_nonneg v")
    case True
    then obtain w1 where "write_val v w = Ok w1" using write_val_total(1) by blast
    with True 13 show ?thesis by simp
  qed (use 13 in simp)
qed auto

section \<open>Properties of the encoder\<close>



text \<open>
  \<^verbatim>\<open>Encode\<close> and \<^verbatim>\<open>EncodeToBytes\<close> agree: the pieces written to the stream, in order, are the bytes
  \<^verbatim>\<open>EncodeToBytes\<close> returns, and both fail with the negative-integer error exactly on values that
  contain a negative big integer, at any depth.
\<close>

theorem Encode_agrees:
  assumes "length (enc_rval v) < 2 ^ 64"
  shows "res_map concat (rlp_Encode v) = EncodeToBytes v
    \<and> (EncodeToBytes v = Err ErrNegativeBigInt) = (\<not> rval_nonneg v)"
proof
  show "res_map concat (rlp_Encode v) = EncodeToBytes v"
  proof (cases "rval_nonneg v")
    case True
    from write_val_wrote(1) [OF this assms] obtain w
      where "write_val v encbuf_reset = Ok w" "wrote encbuf_reset w (enc_rval v)" by blast
    then show ?thesis by (simp add: EncodeToBytes_def rlp_Encode_def wrote_reset)
  next
    case False
    then show ?thesis
      by (simp add: EncodeToBytes_def rlp_Encode_def write_val_negative)
  qed
  show "(EncodeToBytes v = Err ErrNegativeBigInt) = (\<not> rval_nonneg v)"
    using write_val_negative(1) [of v encbuf_reset] write_val_total(1) [of v encbuf_reset]
    by (auto simp: EncodeToBytes_def)
qed

theorem Encode_agrees_witness:
  "res_map concat (rlp_Encode (ListV [BigV (Some (- 1))])) = EncodeToBytes (ListV [BigV (Some (- 1))])
   \<and> EncodeToBytes (ListV [BigV (Some (- 1))]) = Err ErrNegativeBigInt"
  using Encode_agrees [of "ListV [BigV (Some (- 1))]"]
  by (simp add: rlp_list_def rlp_str_def rlp_head_def big_bytes_0)

end
