(* ===== verification/Rlp_Raw.thy ===== *)
theory Rlp_Raw
  imports Rlp
begin

text \<open>
  The slice reader of \<^verbatim>\<open>src/common/rlp/raw.go\<close>: \<open>readSize\<close>, \<open>readKind\<close>, \<open>Split\<close> and its two typed
  variants, and \<open>CountValues\<close>.  The word-level reader is first shown equal to a reader over
  natural numbers (\<open>rk\<close>); on that reader, reading is shown to accept exactly the canonical
  encodings of the reference \<open>frame\<close>.
\<close>

section \<open>Reading values from a slice\<close>

definition readSize :: "bytes \<Rightarrow> byte \<Rightarrow> (rlp_error, u64) res" where
  "readSize b slen =
     (if unat slen > length b then Err ErrUnexpectedEOF
      else
        let at = (\<lambda>i. ucast (b ! i) :: u64);
            s = (if slen = 1 then at 0
              else if slen = 2 then push_bit 8 (at 0) OR at 1
              else if slen = 3 then push_bit 16 (at 0) OR push_bit 8 (at 1) OR at 2
              else if slen = 4 then
                push_bit 24 (at 0) OR push_bit 16 (at 1) OR push_bit 8 (at 2) OR at 3
              else if slen = 5 then
                push_bit 32 (at 0) OR push_bit 24 (at 1) OR push_bit 16 (at 2)
                  OR push_bit 8 (at 3) OR at 4
              else if slen = 6 then
                push_bit 40 (at 0) OR push_bit 32 (at 1) OR push_bit 24 (at 2)
                  OR push_bit 16 (at 3) OR push_bit 8 (at 4) OR at 5
              else if slen = 7 then
                push_bit 48 (at 0) OR push_bit 40 (at 1) OR push_bit 32 (at 2)
                  OR push_bit 24 (at 3) OR push_bit 16 (at 4) OR push_bit 8 (at 5) OR at 6
              else if slen = 8 then
                push_bit 56 (at 0) OR push_bit 48 (at 1) OR push_bit 40 (at 2)
                  OR push_bit 32 (at 3) OR push_bit 24 (at 4) OR push_bit 16 (at 5)
                  OR push_bit 8 (at 6) OR at 7
              else 0)
        in if s < 56 \<or> b ! 0 = 0 then Err ErrCanonSize else Ok s)"

text \<open>
  \<open>readKind\<close> reads \<^verbatim>\<open>buf[1]\<close> without a bounds check when the tag announces a one-byte string;
  on a one-byte slice that index panics.
\<close>

definition rlp_readKind :: "bytes \<Rightarrow> (rlp_error, Kind \<times> u64 \<times> u64) res" where
  "rlp_readKind buf =
     (if length buf = 0 then Err ErrUnexpectedEOF
      else
        let b = buf ! 0;
            r = (if b < 0x80 then Ok (KByte, 0, 1)
              else if b < 0xB8 then
                (let contentsize = ucast (b - 0x80) :: u64
                 in if contentsize = 1 then
                      (if length buf < 2 then Panic
                       else if buf ! 1 < 128 then Err ErrCanonSize
                       else Ok (KString, 1, contentsize))
                    else Ok (KString, 1, contentsize))
              else if b < 0xC0 then
                res_map (\<lambda>s. (KString, ucast (b - 0xB7) + 1, s)) (readSize (drop 1 buf) (b - 0xB7))
              else if b < 0xF8 then Ok (KList, 1, ucast (b - 0xC0))
              else
                res_map (\<lambda>s. (KList, ucast (b - 0xF7) + 1, s)) (readSize (drop 1 buf) (b - 0xF7)))
        in res_bind r (\<lambda>(k, tagsize, contentsize).
             if contentsize > of_nat (length buf) - tagsize then Err ErrValueTooLarge
             else Ok (k, tagsize, contentsize)))"

definition Split :: "bytes \<Rightarrow> (rlp_error, Kind \<times> bytes \<times> bytes) res" where
  "Split b =
     res_map (\<lambda>(k, ts, cs). (k, take (unat cs) (drop (unat ts) b), drop (unat ts + unat cs) b))
       (rlp_readKind b)"

definition SplitString :: "bytes \<Rightarrow> (rlp_error, bytes \<times> bytes) res" where
  "SplitString b =
     res_bind (Split b) (\<lambda>(k, content, rest).
       if k = KList then Err ErrExpectedString else Ok (content, rest))"

definition SplitList :: "bytes \<Rightarrow> (rlp_error, bytes \<times> bytes) res" where
  "SplitList b =
     res_bind (Split b) (\<lambda>(k, content, rest).
       if k \<noteq> KList then Err ErrExpectedList else Ok (content, rest))"

lemma ucast_succ_neq_0: "(ucast (c :: byte) :: u64) + 1 \<noteq> 0"
proof -
  have "unat ((ucast c :: u64) + 1) = unat c + 1"
    using unat_byte_less [of c]
    by (simp add: unat_word_ariths unsigned_ucast_eq take_bit_eq_mod del: unat_byte_less)
  then show ?thesis by (metis add_is_0 one_neq_zero unat_0)
qed

lemma rlp_readKind_progress:
  "rlp_readKind buf = Ok (k, ts, cs) \<Longrightarrow> 0 < unat ts + unat cs"
proof -
  assume "rlp_readKind buf = Ok (k, ts, cs)"
  then show ?thesis
    using ucast_succ_neq_0
    by (auto simp: rlp_readKind_def Let_def unat_gt_0 split: if_splits)
qed

function CountValues_loop :: "nat \<Rightarrow> bytes \<Rightarrow> (rlp_error, nat) res" where
  "CountValues_loop i b =
     (if length b > 0 then
        (case rlp_readKind b of
           Ok (k, tagsize, sz) \<Rightarrow>
             CountValues_loop (Suc i) (drop (unat tagsize + unat sz) b)
         | Err e \<Rightarrow> Err e | Panic \<Rightarrow> Panic | Diverge \<Rightarrow> Diverge)
      else Ok i)"
  by pat_completeness auto
termination
  by (relation "measure (\<lambda>(i, b). length b)") (auto dest!: rlp_readKind_progress)

declare CountValues_loop.simps [simp del]

definition CountValues :: "bytes \<Rightarrow> (rlp_error, nat) res" where
  "CountValues b = CountValues_loop 0 b"

section \<open>Word-level sizes are big-endian numbers\<close>

lemma push_or_byte: "push_bit 8 w OR ucast (b :: byte) = w * 256 + (ucast b :: u64)"
proof -
  have "push_bit 8 w AND (ucast b :: u64) = 0"
    by (rule bit_eqI) (auto simp: bit_simps dest: bit_imp_le_length)
  then have "push_bit 8 w + (ucast b :: u64) = push_bit 8 w OR ucast b"
    by (rule disjunctive_add_eq_or)
  then show ?thesis by (simp add: push_bit_eq_mult)
qed

lemma of_nat_unat_byte: "of_nat (unat (b :: byte)) = (ucast b :: u64)"
  by simp

lemma horner_bytes:
  "foldl (\<lambda>a b. push_bit 8 a OR ucast b) 0 bs = (of_nat (be_nat bs) :: u64)"
proof (induction bs rule: rev_induct)
  case Nil
  then show ?case by simp
next
  case (snoc b bs)
  then show ?case by (simp add: push_or_byte be_nat_append)
qed

lemma upt_small:
  "[0..<2] = [0, 1]" "[0..<3] = [0, 1, 2]" "[0..<4] = [0, 1, 2, 3]"
  "[0..<5] = [0, 1, 2, 3, 4]" "[0..<6] = [0, 1, 2, 3, 4, 5]"
  "[0..<7] = [0, 1, 2, 3, 4, 5, 6]" "[0..<8] = [0, 1, 2, 3, 4, 5, 6, 7]"
  by (simp_all add: upt_rec)

lemma take_nth: "n \<le> length b \<Longrightarrow> take n b = map ((!) b) [0..<n]"
  by (simp add: list_eq_iff_nth_eq)

lemma readSize_eq:
  assumes "1 \<le> n" "n \<le> 8"
  shows "readSize b (of_nat n) =
    (if n > length b then Err ErrUnexpectedEOF
     else let s = of_nat (be_nat (take n b)) in
       if s < 56 \<or> b ! 0 = 0 then Err ErrCanonSize else Ok s)"
proof (cases "n \<le> length b")
  case True
  with assms have "b \<noteq> []" by auto
  have eq: "readSize b (of_nat n) =
     (let s = foldl (\<lambda>a b. push_bit 8 a OR ucast b) 0 (map ((!) b) [0..<n]) in
       if s < 56 \<or> b ! 0 = 0 then Err ErrCanonSize else Ok s)"
  proof -
    from assms consider "n = 1" | "n = 2" | "n = 3" | "n = 4" | "n = 5" | "n = 6" | "n = 7" | "n = 8"
      by linarith
    then show ?thesis
      using True \<open>b \<noteq> []\<close>
      by cases (simp_all add: readSize_def Let_def push_bit_or or.assoc upt_small)
  qed
  then show ?thesis
    using True by (simp add: horner_bytes flip: take_nth)
next
  case False
  have "unat (of_nat n :: byte) = n" using assms by (simp add: unat_of_nat)
  with False show ?thesis by (simp add: readSize_def)
qed

section \<open>Reading: \<open>Split\<close> accepts exactly the canonical encodings\<close>

definition rk_long :: "Kind \<Rightarrow> bytes \<Rightarrow> nat \<Rightarrow> (rlp_error, Kind \<times> nat \<times> nat) res" where
  "rk_long k bs m =
     (if m > length bs then Err ErrUnexpectedEOF
      else let s = be_nat (take m bs)
           in if s < 56 \<or> bs ! 0 = 0 then Err ErrCanonSize
              else if s > length bs - m then Err ErrValueTooLarge
              else Ok (k, m + 1, s))"

definition rk_short :: "Kind \<Rightarrow> bytes \<Rightarrow> nat \<Rightarrow> (rlp_error, Kind \<times> nat \<times> nat) res" where
  "rk_short k bs n = (if n > length bs then Err ErrValueTooLarge else Ok (k, 1, n))"

fun rk :: "bytes \<Rightarrow> (rlp_error, Kind \<times> nat \<times> nat) res" where
  "rk [] = Err ErrUnexpectedEOF"
| "rk (b # bs) =
     (if unat b < 0x80 then Ok (KByte, 0, 1)
      else if unat b < 0xB8 then
        (if unat b = 0x81 then
           (if bs = [] then Panic else if unat (bs ! 0) < 128 then Err ErrCanonSize
            else Ok (KString, 1, 1))
         else rk_short KString bs (unat b - 0x80))
      else if unat b < 0xC0 then rk_long KString bs (unat b - 0xB7)
      else if unat b < 0xF8 then rk_short KList bs (unat b - 0xC0)
      else rk_long KList bs (unat b - 0xF7))"

definition rk_words :: "Kind \<times> nat \<times> nat \<Rightarrow> Kind \<times> u64 \<times> u64" where
  "rk_words = (\<lambda>(k, t, c). (k, of_nat t, of_nat c))"

lemma ucast_of_nat_byte: "n < 256 \<Longrightarrow> (ucast (of_nat n :: byte) :: u64) = of_nat n"
  by (simp add: unsigned_of_nat take_bit_eq_mod)

lemma u64_less_of_nat:
  "m < 2 ^ 64 \<Longrightarrow> n < 2 ^ 64 \<Longrightarrow> (of_nat m :: u64) < of_nat n \<longleftrightarrow> m < n"
  by (simp add: word_less_nat_alt unat_of_nat)

lemma readSize_rk_long:
  assumes len: "length (b # bs) < 2 ^ 64" and m: "1 \<le> m" "m \<le> 8"
  shows "res_bind (res_map (\<lambda>s. (k, ucast (of_nat m :: byte) + 1, s)) (readSize bs (of_nat m)))
      (\<lambda>(k, t, c). if c > of_nat (length (b # bs)) - t then Err ErrValueTooLarge else Ok (k, t, c))
    = res_map rk_words (rk_long k bs m)"
proof (cases "m > length bs")
  case True
  then show ?thesis using readSize_eq [of m bs] m by (simp add: rk_long_def)
next
  case False
  let ?s = "be_nat (take m bs)"
  have "?s < 256 ^ m" using be_nat_less [of "take m bs"] False by simp
  also have "(256 :: nat) ^ m \<le> 256 ^ 8" using m by (intro power_increasing) auto
  finally have s: "?s < 2 ^ 64" by simp
  have t: "(ucast (of_nat m :: byte) :: u64) = of_nat m" using m by (simp add: ucast_of_nat_byte)
  have d: "(of_nat (length bs) :: u64) - of_nat m = of_nat (length bs - m)"
    using False by (simp add: of_nat_diff)
  have lt: "(of_nat (length bs) :: u64) - of_nat m < of_nat ?s \<longleftrightarrow> length bs - m < ?s"
    unfolding d using len s by (intro u64_less_of_nat) auto
  have lt56: "(of_nat ?s :: u64) < 56 \<longleftrightarrow> ?s < 56"
    using u64_less_of_nat [OF s, of 56] by simp
  show ?thesis
    using readSize_eq [of m bs] m False
    by (simp add: rk_long_def rk_words_def t lt lt56 Let_def)
qed


lemma readKind_rk:
  assumes len: "length buf < 2 ^ 64"
  shows "rlp_readKind buf = res_map rk_words (rk buf)"
proof (cases buf)
  case Nil
  then show ?thesis by (simp add: rlp_readKind_def)
next
  case (Cons b bs)
  define n where "n = unat b"
  have b: "b = of_nat n" and n: "n < 256" by (simp_all add: n_def)
  have lt: "b < of_nat m \<longleftrightarrow> n < m" if "m < 256" for m
    using that by (simp add: word_less_nat_alt n_def unat_of_nat)
  have sub: "b - of_nat m = of_nat (n - m)" if "m \<le> n" for m
    using that by (simp add: b of_nat_diff)
  have c: "(ucast (of_nat (n - m) :: byte) :: u64) = of_nat (n - m)" for m
    using n by (intro ucast_of_nat_byte) simp
  have d: "(of_nat (length (b # bs)) :: u64) - 1 = of_nat (length bs)" by simp
  have gt: "(of_nat (length bs) :: u64) < of_nat (n - m) \<longleftrightarrow> length bs < n - m" for m
    using len n Cons by (intro u64_less_of_nat) auto
  have one: "(of_nat (n - 0x80) :: u64) = 1 \<longleftrightarrow> n = 0x81" if "0x80 \<le> n"
  proof -
    have "unat (of_nat (n - 0x80) :: u64) = n - 0x80" using n by (simp add: unat_of_nat)
    with that show ?thesis by (metis unat_1 of_nat_1 diff_add_inverse2 le_add_diff_inverse2 numeral_plus_one semiring_norm(5) add.commute)
  qed
  note facts = lt [of "0x80"] lt [of "0xB8"] lt [of "0xC0"] lt [of "0xF8"]
  consider "n < 0x80" | "0x80 \<le> n" "n < 0xB8" | "0xB8 \<le> n" "n < 0xC0"
    | "0xC0 \<le> n" "n < 0xF8" | "0xF8 \<le> n" by linarith
  then show ?thesis
  proof cases
    case 1
    have "\<not> (of_nat (length (b # bs)) :: u64) < 1"
      using len Cons u64_less_of_nat [of "length (b # bs)" 1] by (simp del: length_Cons)
    with 1 facts Cons show ?thesis
      by (simp add: rlp_readKind_def Let_def rk_words_def n_def del: length_Cons)
  next
    case 2
    with facts Cons sub [of "0x80"] c [of "0x80"] one gt [of "0x80"] d show ?thesis
      by (simp add: rlp_readKind_def Let_def rk_words_def rk_short_def n_def word_less_nat_alt)
  next
    case 3
    with facts Cons sub [of "0xB7"] readSize_rk_long [of b bs "n - 0xB7" KString] len show ?thesis
      by (simp add: rlp_readKind_def Let_def n_def)
  next
    case 4
    with facts Cons sub [of "0xC0"] c [of "0xC0"] gt [of "0xC0"] d show ?thesis
      by (simp add: rlp_readKind_def Let_def rk_words_def rk_short_def n_def)
  next
    case 5
    then have "1 \<le> n - 0xF7" "n - 0xF7 \<le> 8" using n by simp_all
    from readSize_rk_long [OF _ this, of b bs KList] 5 facts Cons sub [of "0xF7"] len show ?thesis
      by (simp add: rlp_readKind_def Let_def n_def)
  qed
qed

definition is_byte :: "bytes \<Rightarrow> bool" where
  "is_byte c \<longleftrightarrow> length c = 1 \<and> be_nat c < 128"

definition frame :: "Kind \<Rightarrow> bytes \<Rightarrow> bytes" where
  "frame k c = (if k = KList then rlp_list c else rlp_str c)"

definition kind_ok :: "Kind \<Rightarrow> bytes \<Rightarrow> bool" where
  "kind_ok k c \<longleftrightarrow> (case k of KByte \<Rightarrow> is_byte c | KString \<Rightarrow> \<not> is_byte c | KList \<Rightarrow> True)"

lemma frame_cases:
  assumes "kind_ok k c"
  obtains "k = KByte" "frame k c = c" "is_byte c"
  | "k = KString" "frame k c = rlp_head 0x80 0xB7 (length c) @ c" "\<not> is_byte c"
  | "k = KList" "frame k c = rlp_head 0xC0 0xF7 (length c) @ c"
  using assms by (cases k) (auto simp: kind_ok_def frame_def rlp_str_def rlp_list_def is_byte_def)

lemma rk_short_sound:
  assumes "rk_short k bs n = Ok (k', t, c)" "n < 56" "b = of_nat (small + n)"
  shows "k' = k \<and> t = 1 \<and> c = n \<and> n \<le> length bs
    \<and> b # bs = rlp_head small large c @ take c (drop t (b # bs)) @ drop (t + c) (b # bs)"
  using assms by (auto simp: rk_short_def rlp_head_def split: if_splits)

lemma rk_long_sound:
  assumes "rk_long k bs m = Ok (k', t, c)" "1 \<le> m" "b = of_nat (large + m)"
  shows "k' = k \<and> t = m + 1 \<and> m + c \<le> length bs \<and> 56 \<le> c
    \<and> b # bs = rlp_head small large c @ take c (drop t (b # bs)) @ drop (t + c) (b # bs)"
proof -
  from assms have 1: "k' = k" "t = m + 1" "c = be_nat (take m bs)" "m + c \<le> length bs"
    "\<not> c < 56" "bs ! 0 \<noteq> 0"
    by (auto simp: rk_long_def Let_def split: if_splits)
  from assms(2) 1(4,6) have "take m bs \<noteq> [] \<longrightarrow> hd (take m bs) \<noteq> 0"
    by (cases bs; cases m) auto
  then have "big_bytes c = take m bs" using 1(3) big_bytes_be_nat [of "take m bs"] by blast
  with 1 assms(3) have "b # bs = rlp_head small large c @ drop m bs" by (simp add: rlp_head_def)
  also have "drop m bs = take c (drop t (b # bs)) @ drop (t + c) (b # bs)"
    using 1(2) append_take_drop_id [of c "drop m bs"] by (simp add: add.commute)
  finally have "b # bs = rlp_head small large c @ take c (drop t (b # bs)) @ drop (t + c) (b # bs)" .
  moreover have "56 \<le> c" using 1(5) by simp
  ultimately show ?thesis using 1(1,2,4) by blast
qed

lemma head_frame:
  assumes "small = 0x80 \<and> large = 0xB7 \<and> k = KString \<and> \<not> is_byte c
      \<or> small = 0xC0 \<and> large = 0xF7 \<and> k = KList"
  shows "frame k c = rlp_head small large (length c) @ c" and "kind_ok k c"
  using assms by (auto simp: frame_def kind_ok_def rlp_list_def rlp_str_def is_byte_def)

lemma rk_sound:
  assumes "rk buf = Ok (k, t, c)"
  shows "t + c \<le> length buf" (is ?A)
    and "buf = frame k (take c (drop t buf)) @ drop (t + c) buf" (is ?B)
    and "kind_ok k (take c (drop t buf))" (is ?C)
proof -
  from assms obtain b bs where buf: "buf = b # bs" by (cases buf) auto
  define n where "n = unat b"
  have b: "b = of_nat n" and n: "n < 256" by (simp_all add: n_def)
  consider "n < 0x80" | "n = 0x81" | "0x80 \<le> n" "n < 0xB8" "n \<noteq> 0x81" | "0xB8 \<le> n" "n < 0xC0"
    | "0xC0 \<le> n" "n < 0xF8" | "0xF8 \<le> n" by linarith
  then have "?A \<and> ?B \<and> ?C"
  proof cases
    case 1
    with assms buf show ?thesis
      by (auto simp: n_def kind_ok_def frame_def rlp_str_def is_byte_def)
  next
    case 2
    then have "b = 0x81" using b by simp
    with 2 assms buf show ?thesis
      by (cases bs) (auto simp: n_def kind_ok_def frame_def rlp_str_def is_byte_def rlp_head_def
        split: if_splits)
  next
    case 3
    with assms buf have rs: "rk_short KString bs (n - 0x80) = Ok (k, t, c)" by (simp add: n_def)
    from 3 b have "n - 0x80 < 56" "b = of_nat (0x80 + (n - 0x80))" by simp_all
    from rk_short_sound [OF rs this, of "0xB7"]
    have *: "k = KString" "t = 1" "c = n - 0x80" "c \<le> length bs"
      "buf = rlp_head 0x80 0xB7 c @ take c (drop t buf) @ drop (t + c) buf"
      unfolding buf by (blast | simp)+
    have "length (take c (drop t buf)) = c" using *(2,4) by (simp add: buf)
    moreover have "c \<noteq> 1" using 3 *(3) by simp
    ultimately have "length (take c (drop t buf)) = c" and "\<not> is_byte (take c (drop t buf))"
      by (simp_all only: is_byte_def) simp
    with head_frame [of "0x80" "0xB7" k "take c (drop t buf)"] * show ?thesis by (simp add: buf)
  next
    case 4
    with assms buf have rl: "rk_long KString bs (n - 0xB7) = Ok (k, t, c)" by (simp add: n_def)
    from 4 b have "1 \<le> n - 0xB7" "b = of_nat (0xB7 + (n - 0xB7))" by simp_all
    from rk_long_sound [OF rl this, of "0x80"]
    have *: "k = KString" "t = n - 0xB7 + 1" "t + c \<le> length buf" "56 \<le> c"
      "buf = rlp_head 0x80 0xB7 c @ take c (drop t buf) @ drop (t + c) buf"
      unfolding buf by (blast | simp)+
    then have "length (take c (drop t buf)) = c" and "\<not> is_byte (take c (drop t buf))"
      by (simp_all add: is_byte_def)
    with head_frame [of "0x80" "0xB7" k "take c (drop t buf)"] * show ?thesis by simp
  next
    case 5
    with assms buf have rs: "rk_short KList bs (n - 0xC0) = Ok (k, t, c)" by (simp add: n_def)
    from 5 b have "n - 0xC0 < 56" "b = of_nat (0xC0 + (n - 0xC0))" by simp_all
    from rk_short_sound [OF rs this, of "0xF7"]
    have *: "k = KList" "t + c \<le> length buf"
      "buf = rlp_head 0xC0 0xF7 c @ take c (drop t buf) @ drop (t + c) buf"
      unfolding buf by (blast | simp)+
    then have "length (take c (drop t buf)) = c" by simp
    with head_frame [of "0xC0" "0xF7" k "take c (drop t buf)"] * show ?thesis by simp
  next
    case 6
    with assms buf have rl: "rk_long KList bs (n - 0xF7) = Ok (k, t, c)" by (simp add: n_def)
    from 6 b have "1 \<le> n - 0xF7" "b = of_nat (0xF7 + (n - 0xF7))" by simp_all
    from rk_long_sound [OF rl this, of "0xC0"]
    have *: "k = KList" "t + c \<le> length buf"
      "buf = rlp_head 0xC0 0xF7 c @ take c (drop t buf) @ drop (t + c) buf"
      unfolding buf by (blast | simp)+
    then have "length (take c (drop t buf)) = c" by simp
    with head_frame [of "0xC0" "0xF7" k "take c (drop t buf)"] * show ?thesis by simp
  qed
  then show ?A ?B ?C by simp_all
qed

lemma rk_head:
  assumes "small = 0x80 \<and> large = 0xB7 \<and> k = KString \<and> \<not> is_byte c
      \<or> small = 0xC0 \<and> large = 0xF7 \<and> k = KList"
    and len: "length c < 2 ^ 64"
  shows "rk (rlp_head small large (length c) @ c @ rest) =
    Ok (k, length (rlp_head small large (length c)), length c)"
proof (cases "length c < 56")
  case True
  then have u: "unat (of_nat (small + length c) :: byte) = small + length c"
    using assms(1) by (auto simp: unat_of_nat simp del: of_nat_add)
  have "unat (c ! 0) \<ge> 128" if "length c = 1" "\<not> is_byte c"
    using that by (cases c) (auto simp: is_byte_def)
  with True assms(1) u show ?thesis
    by (cases c) (auto simp: rlp_head_def rk_short_def nth_append simp del: of_nat_add)
next
  case False
  let ?n = "length c"
  have le: "length (big_bytes ?n) \<le> 8" "1 \<le> length (big_bytes ?n)"
    using length_big_bytes_le [of ?n 8] len False
    by (auto simp: Suc_le_eq big_bytes_eq_Nil_iff)
  then have u: "unat (of_nat (large + length (big_bytes ?n)) :: byte) = large + length (big_bytes ?n)"
    using assms(1) by (auto simp: unat_of_nat simp del: of_nat_add)
  have "big_bytes ?n ! 0 \<noteq> 0"
  proof -
    have "?n \<noteq> 0" "big_bytes ?n \<noteq> []" using False le(2) by force+
    with hd_big_bytes [of ?n] hd_conv_nth [of "big_bytes ?n"] show ?thesis by metis
  qed
  moreover have "(big_bytes ?n @ c @ rest) ! 0 = big_bytes ?n ! 0"
    using le(2) by (intro nth_append_left) linarith
  ultimately have "rk_long k (big_bytes ?n @ c @ rest) (length (big_bytes ?n)) =
      Ok (k, length (big_bytes ?n) + 1, ?n)"
    using False by (simp only: rk_long_def Let_def be_nat_big_bytes append_eq_conv_conj) simp
  moreover have "c \<noteq> []" using False by auto
  ultimately show ?thesis using u le False assms(1)
    by (elim disjE) (simp_all add: rlp_head_def del: of_nat_add)
qed

lemma rk_complete:
  assumes "kind_ok k c" "length c < 2 ^ 64"
  shows "rk (frame k c @ rest) = Ok (k, length (frame k c) - length c, length c)"
  using assms(1)
proof (cases rule: frame_cases)
  case 1
  then show ?thesis by (cases c) (auto simp: is_byte_def)
next
  case 2
  then show ?thesis using rk_head [of "0x80" "0xB7" k c rest] assms(2) by simp
next
  case 3
  then show ?thesis using rk_head [of "0xC0" "0xF7" k c rest] assms(2) by simp
qed


lemma length_rk:
  assumes "rk buf = Ok (k, t, c)" "length buf < 2 ^ 64"
  shows "unat (of_nat t :: u64) = t" "unat (of_nat c :: u64) = c"
  using rk_sound(1) [OF assms(1)] assms(2) by (simp_all add: unat_of_nat)

lemma Split_rk:
  assumes "length buf < 2 ^ 64"
  shows "Split buf = res_map (\<lambda>(k, t, c). (k, take c (drop t buf), drop (t + c) buf)) (rk buf)"
  using readKind_rk [OF assms] length_rk [OF _ assms]
  by (cases "rk buf") (auto simp: Split_def rk_words_def)

lemma Split_Ok_iff:
  assumes "length buf < 2 ^ 64"
  shows "Split buf = Ok (k, c, rest) \<longleftrightarrow> buf = frame k c @ rest \<and> kind_ok k c"
proof
  assume "Split buf = Ok (k, c, rest)"
  then obtain t n where "rk buf = Ok (k, t, n)" "c = take n (drop t buf)" "rest = drop (t + n) buf"
    using assms by (auto simp: Split_rk)
  with rk_sound [OF this(1)] show "buf = frame k c @ rest \<and> kind_ok k c" by simp
next
  assume *: "buf = frame k c @ rest \<and> kind_ok k c"
  then have k: "kind_ok k c" by simp
  from k have "\<exists>h. frame k c = h @ c" by (cases rule: frame_cases) auto
  then obtain h where h: "frame k c = h @ c" ..
  with * assms have "length c < 2 ^ 64" by simp
  from rk_complete [OF k this, of rest] h * assms show "Split buf = Ok (k, c, rest)"
    by (simp add: Split_rk)
qed

lemma rk_Panic_iff: "rk buf = Panic \<longleftrightarrow> buf = [0x81]"
proof (cases buf)
  case (Cons b bs)
  have "unat b = 0x81 \<longleftrightarrow> b = 0x81" by (simp add: word_unat_eq_iff)
  with Cons show ?thesis by (auto simp: rk_short_def rk_long_def Let_def)
qed simp

lemma Split_rlp_enc:
  assumes "length (rlp_enc x @ rest) < 2 ^ 64"
  shows "\<exists>k c. Split (rlp_enc x @ rest) = Ok (k, c, rest)"
proof (cases x)
  case (Str b)
  with assms show ?thesis
    by (intro exI [of _ "if is_byte b then KByte else KString"] exI [of _ b])
      (simp add: Split_Ok_iff frame_def kind_ok_def)
next
  case (Lst xs)
  with assms show ?thesis
    by (intro exI [of _ KList] exI) (simp add: Split_Ok_iff frame_def kind_ok_def)
qed

lemma CountValues_loop_items:
  "length (concat (map rlp_enc xs)) < 2 ^ 64 \<Longrightarrow>
   CountValues_loop i (concat (map rlp_enc xs)) = Ok (i + length xs)"
proof (induction xs arbitrary: i)
  case Nil
  then show ?case by (simp add: CountValues_loop.simps)
next
  case (Cons x xs)
  let ?r = "concat (map rlp_enc xs)"
  from Split_rlp_enc [of x ?r] Cons.prems obtain k c
    where s: "Split (rlp_enc x @ ?r) = Ok (k, c, ?r)" by auto
  then obtain ts cs where rk: "rlp_readKind (rlp_enc x @ ?r) = Ok (k, ts, cs)"
    and d: "drop (unat ts + unat cs) (rlp_enc x @ ?r) = ?r"
    by (auto simp: Split_def)
  have ne: "rlp_enc x @ ?r \<noteq> []"
  proof
    assume "rlp_enc x @ ?r = []"
    with rk show False by (simp only: rlp_readKind_def) simp
  qed
  from Cons.IH Cons.prems have "CountValues_loop (Suc i) ?r = Ok (Suc i + length xs)" by simp
  with rk d ne show ?case by (subst CountValues_loop.simps) simp
qed

section \<open>Properties of the reader\<close>

text \<open>
  C25: \<^verbatim>\<open>Split\<close> accepts exactly the canonical encodings.  It returns kind, content and rest precisely when
  the input is the canonical frame of that content under that kind followed by the rest; a
  non-minimal length, a leading zero in a length or a single byte below 128 in a string frame is
  never accepted, and every canonical frame is.
\<close>

theorem Split_canonical:
  assumes "length buf < 2 ^ 64"
  shows "Split buf = Ok (k, c, rest) \<longleftrightarrow> buf = frame k c @ rest \<and> kind_ok k c"
  by (rule Split_Ok_iff [OF assms])

theorem Split_canonical_witness:
  "Split [0xC2, 0x01, 0x02, 0x05] = Ok (KList, [0x01, 0x02], [0x05])
   \<and> Split [0x81, 0x05] \<noteq> Ok (KString, [0x05], [])"
  using Split_canonical [of "[0xC2, 0x01, 0x02, 0x05]" KList "[0x01, 0x02]" "[0x05]"]
    Split_canonical [of "[0x81, 0x05]" KString "[0x05]" "[]"]
  by (simp add: frame_def kind_ok_def rlp_list_def rlp_head_def is_byte_def)

text \<open>
  \<^verbatim>\<open>CountValues\<close> counts the items of a list body: on the concatenated encodings of any list of items it
  returns their number.
\<close>

theorem CountValues_items:
  assumes "length (concat (map rlp_enc xs)) < 2 ^ 64"
  shows "CountValues (concat (map rlp_enc xs)) = Ok (length xs)"
  using CountValues_loop_items [OF assms, of 0] by (simp add: CountValues_def)

theorem CountValues_items_witness:
  "CountValues [0x05, 0xC1, 0x80, 0x82, 0x01, 0x02] = Ok 3"
  using CountValues_items [of "[Str [5], Lst [Str []], Str [1, 2]]"]
  by (simp add: rlp_list_def rlp_str_def rlp_head_def)

text \<open>
  C33: \<^verbatim>\<open>Split\<close> can panic, on exactly one input: the one-byte slice \<open>[0x81]\<close>, whose announced content byte
  \<^verbatim>\<open>readKind\<close> reads without a bounds check.
\<close>

theorem Split_panics_iff:
  assumes "length buf < 2 ^ 64"
  shows "Split buf = Panic \<longleftrightarrow> buf = [0x81]"
  unfolding Split_rk [OF assms] rk_Panic_iff [symmetric] by (cases "rk buf") auto

theorem Split_panics_iff_witness: "Split [0x81] = Panic \<and> Split [0x82] \<noteq> Panic"
  using Split_panics_iff [of "[0x81]"] Split_panics_iff [of "[0x82]"] by simp

end
