(* ===== verification/Rlp_Stream.thy ===== *)
theory Rlp_Stream
  imports Rlp_Raw
begin

text \<open>
  The streaming RLP decoder of \<^verbatim>\<open>src/common/rlp/decode.go\<close>.  A \<open>Stream\<close> reads from an in-memory reader
  (\<^verbatim>\<open>bytes.Reader\<close>), whose state is the bytes not yet read.  An operation maps a stream to its result and the stream
  it leaves, also on an error.
\<close>

section \<open>The stream\<close>

record listpos =
  lp_pos :: u64
  lp_size :: u64

text \<open>\<open>st_kind\<close> is \<open>None\<close> for the code's \<open>-1\<close>; the top of \<open>st_stack\<close> is its first element.\<close>

record Stream =
  st_in :: bytes
  st_remaining :: u64
  st_limited :: bool
  st_kind :: "Kind option"
  st_size :: u64
  st_byteval :: byte
  st_kinderr :: "rlp_error option"
  st_stack :: "listpos list"

type_synonym 'a dec = "Stream \<Rightarrow> (rlp_error, 'a) res \<times> Stream"

fun dec_bind :: "'a dec \<Rightarrow> ('a \<Rightarrow> 'b dec) \<Rightarrow> 'b dec" where
  "dec_bind m f s =
     (case m s of
        (Ok x, s') \<Rightarrow> f x s'
      | (Err e, s') \<Rightarrow> (Err e, s')
      | (Panic, s') \<Rightarrow> (Panic, s')
      | (Diverge, s') \<Rightarrow> (Diverge, s'))"

definition dec_ret :: "'a \<Rightarrow> 'a dec" where
  "dec_ret x s = (Ok x, s)"

definition dec_err :: "rlp_error \<Rightarrow> 'a dec" where
  "dec_err e s = (Err e, s)"

text \<open>\<open>mem\<close>: the reader is a \<^verbatim>\<open>bytes.Reader\<close> or a \<^verbatim>\<open>strings.Reader\<close>, whose length the stream discovers.\<close>

definition Stream_Reset :: "bytes \<Rightarrow> bool \<Rightarrow> u64 \<Rightarrow> Stream \<Rightarrow> Stream" where
  "Stream_Reset r mem inputLimit s =
     (let s = (if inputLimit > 0 then s\<lparr>st_remaining := inputLimit, st_limited := True\<rparr>
               else if mem then s\<lparr>st_remaining := of_nat (length r), st_limited := True\<rparr>
               else s\<lparr>st_limited := False\<rparr>)
      in s\<lparr>st_in := r, st_stack := [], st_size := 0, st_kind := None, st_kinderr := None\<rparr>)"

definition zero_Stream :: Stream where
  "zero_Stream = \<lparr>st_in = [], st_remaining = 0, st_limited = False, st_kind = Some KByte, st_size = 0, st_byteval = 0,
     st_kinderr = None, st_stack = []\<rparr>"

definition NewStream :: "bytes \<Rightarrow> bool \<Rightarrow> u64 \<Rightarrow> Stream" where
  "NewStream r mem inputLimit = Stream_Reset r mem inputLimit zero_Stream"

definition NewListStream :: "bytes \<Rightarrow> bool \<Rightarrow> u64 \<Rightarrow> Stream" where
  "NewListStream r mem len = (Stream_Reset r mem len zero_Stream)\<lparr>st_kind := Some KList, st_size := len\<rparr>"

section \<open>Reading from the input\<close>

definition willRead :: "u64 \<Rightarrow> unit dec" where
  "willRead n s =
     (let s = s\<lparr>st_kind := None\<rparr>;
          limit = (\<lambda>s. if st_limited s then if n > st_remaining s then (Err ErrValueTooLarge, s)
                         else (Ok (), s\<lparr>st_remaining := st_remaining s - n\<rparr>)
                       else (Ok (), s))
      in case st_stack s of
           [] \<Rightarrow> limit s
         | tos # rest \<Rightarrow>
             if n > lp_size tos - lp_pos tos then (Err ErrElemTooLarge, s)
             else limit (s\<lparr>st_stack := tos\<lparr>lp_pos := lp_pos tos + n\<rparr> # rest\<rparr>))"

text \<open>\<open>readFull\<close> fills a buffer of \<open>n\<close> bytes; an input that ends early is consumed up to its end.\<close>

definition readFull :: "u64 \<Rightarrow> bytes dec" where
  "readFull n =
     dec_bind (willRead n) (\<lambda>_ s.
       if unat n \<le> length (st_in s) then (Ok (take (unat n) (st_in s)), s\<lparr>st_in := drop (unat n) (st_in s)\<rparr>)
       else (Err ErrUnexpectedEOF, s\<lparr>st_in := []\<rparr>))"

definition readByte :: "byte dec" where
  "readByte =
     dec_bind (willRead 1) (\<lambda>_ s.
       case st_in s of [] \<Rightarrow> (Err ErrUnexpectedEOF, s) | b # bs \<Rightarrow> (Ok b, s\<lparr>st_in := bs\<rparr>))"

text \<open>The buffer for integers has eight bytes: a larger size would index out of it.\<close>

definition readUint :: "byte \<Rightarrow> u64 dec" where
  "readUint sz =
     (if sz = 0 then (\<lambda>s. (Ok 0, s\<lparr>st_kind := None\<rparr>))
      else if sz = 1 then dec_bind readByte (\<lambda>b. dec_ret (ucast b))
      else if sz > 8 then (\<lambda>s. (Panic, s))
      else dec_bind (readFull (ucast sz)) (\<lambda>b. if b ! 0 = 0 then dec_err ErrCanonSize else dec_ret (of_nat (be_nat b))))"

definition Stream_readSize :: "Kind \<Rightarrow> byte \<Rightarrow> (Kind \<times> u64 \<times> rlp_error option) dec" where
  "Stream_readSize k sz s =
     (case readUint sz s of
        (Ok n, s') \<Rightarrow> (Ok (k, n, if n < 56 then Some ErrCanonSize else None), s')
      | (Err e, s') \<Rightarrow> (Ok (k, 0, Some e), s')
      | (Panic, s') \<Rightarrow> (Panic, s')
      | (Diverge, s') \<Rightarrow> (Diverge, s'))"

definition Stream_readKind :: "(Kind \<times> u64 \<times> rlp_error option) dec" where
  "Stream_readKind s =
     (case readByte s of
        (Ok b, s') \<Rightarrow>
          (let s' = s'\<lparr>st_byteval := 0\<rparr>
           in if b < 0x80 then (Ok (KByte, 0, None), s'\<lparr>st_byteval := b\<rparr>)
              else if b < 0xB8 then (Ok (KString, ucast (b - 0x80), None), s')
              else if b < 0xC0 then Stream_readSize KString (b - 0xB7) s'
              else if b < 0xF8 then (Ok (KList, ucast (b - 0xC0), None), s')
              else Stream_readSize KList (b - 0xF7) s')
      | (Err e, s') \<Rightarrow>
          (Ok (KByte, 0, Some (if st_stack s' = [] \<and> (e = ErrUnexpectedEOF \<or> e = ErrValueTooLarge) then ErrEOF else e)), s')
      | (Panic, s') \<Rightarrow> (Panic, s')
      | (Diverge, s') \<Rightarrow> (Diverge, s'))"

text \<open>The result is the kind and size ahead, or the error that \<open>Kind\<close> returns with them.\<close>

definition Stream_Kind :: "(Kind \<times> u64) dec" where
  "Stream_Kind s =
     (let cached = (\<lambda>s. (case st_kinderr s of Some e \<Rightarrow> Err e | None \<Rightarrow> Ok (the (st_kind s), st_size s), s))
      in if st_kind s \<noteq> None then cached s
         else let s = s\<lparr>st_kinderr := None\<rparr>
              in if st_stack s \<noteq> [] \<and> lp_pos (hd (st_stack s)) = lp_size (hd (st_stack s)) then (Err EOL, s)
                 else case Stream_readKind s of
                        (Ok (k, sz, e), s') \<Rightarrow>
                          cached (s'\<lparr>st_kind := Some k, st_size := sz, st_kinderr :=
                            (case e of
                               Some e' \<Rightarrow> Some e'
                             | None \<Rightarrow>
                                 (case st_stack s' of
                                    [] \<Rightarrow> if st_limited s' \<and> sz > st_remaining s' then Some ErrValueTooLarge else None
                                  | tos # _ \<Rightarrow> if sz > lp_size tos - lp_pos tos then Some ErrElemTooLarge else None))\<rparr>)
                      | (Err e, s') \<Rightarrow> (Err e, s')
                      | (Panic, s') \<Rightarrow> (Panic, s')
                      | (Diverge, s') \<Rightarrow> (Diverge, s'))"

section \<open>Operations\<close>

definition rearm :: "Stream \<Rightarrow> Stream" where
  "rearm s = s\<lparr>st_kind := None\<rparr>"

text \<open>Allocating a slice panics when its length does not fit an \<^verbatim>\<open>int\<close>.\<close>

definition makeslice :: "nat \<Rightarrow> unit dec" where
  "makeslice n s = (if 2 ^ 63 \<le> n then (Panic, s) else (Ok (), s))"

definition Stream_Bytes :: "bytes dec" where
  "Stream_Bytes =
     dec_bind Stream_Kind (\<lambda>(kind, sz).
       case kind of
         KByte \<Rightarrow> (\<lambda>s. (Ok [st_byteval s], rearm s))
       | KString \<Rightarrow>
           dec_bind (makeslice (unat sz)) (\<lambda>_.
           dec_bind (readFull sz) (\<lambda>b.
             if sz = 1 \<and> b ! 0 < 128 then dec_err ErrCanonSize else dec_ret b))
       | KList \<Rightarrow> dec_err ErrExpectedString)"

definition Stream_Raw :: "bytes dec" where
  "Stream_Raw =
     dec_bind Stream_Kind (\<lambda>(kind, sz).
       case kind of
         KByte \<Rightarrow> (\<lambda>s. (Ok [st_byteval s], rearm s))
       | _ \<Rightarrow>
           dec_bind (makeslice (headsize sz + unat sz)) (\<lambda>_.
           dec_bind (readFull sz) (\<lambda>b.
             dec_ret ((if kind = KString then puthead 0x80 0xB7 sz else puthead 0xC0 0xF7 sz) @ b))))"

definition Stream_uint :: "nat \<Rightarrow> u64 dec" where
  "Stream_uint maxbits =
     dec_bind Stream_Kind (\<lambda>(kind, sz).
       case kind of
         KByte \<Rightarrow> (\<lambda>s. if st_byteval s = 0 then (Err ErrCanonInt, s) else (Ok (ucast (st_byteval s)), rearm s))
       | KString \<Rightarrow>
           if sz > of_nat (maxbits div 8) then dec_err ErrUintOverflow
           else (\<lambda>s. case readUint (ucast sz) s of
                       (Ok v, s') \<Rightarrow> if sz > 0 \<and> v < 128 then (Err ErrCanonSize, s') else (Ok v, s')
                     | (Err e, s') \<Rightarrow> (Err (if e = ErrCanonSize then ErrCanonInt else e), s')
                     | (Panic, s') \<Rightarrow> (Panic, s')
                     | (Diverge, s') \<Rightarrow> (Diverge, s'))
       | KList \<Rightarrow> dec_err ErrExpectedString)"

definition Stream_Uint :: "u64 dec" where
  "Stream_Uint = Stream_uint 64"

definition Stream_Bool :: "bool dec" where
  "Stream_Bool =
     dec_bind (Stream_uint 8) (\<lambda>num.
       if num = 0 then dec_ret False else if num = 1 then dec_ret True else dec_err (ErrInvalidBool num))"

definition Stream_List :: "u64 dec" where
  "Stream_List =
     dec_bind Stream_Kind (\<lambda>(kind, sz) s.
       if kind \<noteq> KList then (Err ErrExpectedList, s)
       else (Ok sz, s\<lparr>st_stack := \<lparr>lp_pos = 0, lp_size = sz\<rparr> # st_stack s, st_kind := None, st_size := 0\<rparr>))"

definition Stream_ListEnd :: "unit dec" where
  "Stream_ListEnd s =
     (case st_stack s of
        [] \<Rightarrow> (Err ErrNotInList, s)
      | tos # rest \<Rightarrow>
          if lp_pos tos \<noteq> lp_size tos then (Err ErrNotAtEOL, s)
          else (Ok (), s\<lparr>st_stack :=
                  (case rest of [] \<Rightarrow> [] | t # ts \<Rightarrow> t\<lparr>lp_pos := lp_pos t + lp_size tos\<rparr> # ts),
                  st_kind := None, st_size := 0\<rparr>))"

section \<open>Well-formed streams\<close>

text \<open>
  The streams \<open>DecodeBytes\<close> works on: the limit is what the reader still holds, and no list position is past its
  list.  \<open>room\<close> is what the innermost list leaves to read, \<open>eat n\<close> the stream after reading \<open>n\<close> bytes.
\<close>

definition wf_stream :: "Stream \<Rightarrow> bool" where
  "wf_stream s \<longleftrightarrow> st_limited s \<and> unat (st_remaining s) = length (st_in s) \<and> length (st_in s) < 2 ^ 63
     \<and> (\<forall>t\<in>set (st_stack s). lp_pos t \<le> lp_size t \<and> unat (lp_size t) < 2 ^ 63)"

definition ready :: "Stream \<Rightarrow> bool" where
  "ready s \<longleftrightarrow> wf_stream s \<and> st_kind s = None"

definition room :: "Stream \<Rightarrow> nat" where
  "room s = (case st_stack s of [] \<Rightarrow> length (st_in s) | t # _ \<Rightarrow> unat (lp_size t) - unat (lp_pos t))"

definition bump :: "nat \<Rightarrow> listpos list \<Rightarrow> listpos list" where
  "bump n st = (case st of [] \<Rightarrow> [] | t # r \<Rightarrow> t\<lparr>lp_pos := lp_pos t + of_nat n\<rparr> # r)"

definition eat :: "nat \<Rightarrow> Stream \<Rightarrow> Stream" where
  "eat n s = s\<lparr>st_in := drop n (st_in s), st_remaining := st_remaining s - of_nat n, st_kind := None,
     st_stack := bump n (st_stack s)\<rparr>"

definition avail :: "nat \<Rightarrow> Stream \<Rightarrow> bool" where
  "avail n s \<longleftrightarrow> n \<le> room s \<and> n \<le> length (st_in s)"

lemma bump_simps [simp]: "bump n [] = []" "bump n (t # r) = t\<lparr>lp_pos := lp_pos t + of_nat n\<rparr> # r"
  by (simp_all add: bump_def)

lemma bump_bump [simp]: "bump a (bump b st) = bump (b + a) st"
  by (cases st) (simp_all add: add.assoc)

lemma bump_Nil_iff [simp]: "bump n st = [] \<longleftrightarrow> st = []"
  by (cases st) simp_all

lemma eat_simps [simp]:
  "st_in (eat n s) = drop n (st_in s)" "st_kind (eat n s) = None" "st_stack (eat n s) = bump n (st_stack s)"
  "st_limited (eat n s) = st_limited s" "st_remaining (eat n s) = st_remaining s - of_nat n"
  by (simp_all add: eat_def)

lemma eat_eat [simp]: "eat a (eat b s) = eat (b + a) s"
  by (simp add: eat_def algebra_simps)

lemma eat_byteval [simp]: "eat n (s\<lparr>st_byteval := b\<rparr>) = (eat n s)\<lparr>st_byteval := b\<rparr>"
  "eat n (s\<lparr>st_kinderr := e\<rparr>) = (eat n s)\<lparr>st_kinderr := e\<rparr>"
  by (simp_all add: eat_def)

lemma wf_upd [simp]:
  "wf_stream (s\<lparr>st_byteval := b\<rparr>) = wf_stream s" "wf_stream (s\<lparr>st_kinderr := e\<rparr>) = wf_stream s"
  "wf_stream (s\<lparr>st_kind := k\<rparr>) = wf_stream s" "wf_stream (s\<lparr>st_size := z\<rparr>) = wf_stream s"
  "room (s\<lparr>st_byteval := b\<rparr>) = room s" "room (s\<lparr>st_kinderr := e\<rparr>) = room s"
  "room (s\<lparr>st_kind := k\<rparr>) = room s" "room (s\<lparr>st_size := z\<rparr>) = room s"
  "avail n (s\<lparr>st_byteval := b\<rparr>) = avail n s" "avail n (s\<lparr>st_kinderr := e\<rparr>) = avail n s"
  "avail n (s\<lparr>st_kind := k\<rparr>) = avail n s" "avail n (s\<lparr>st_size := z\<rparr>) = avail n s"
  by (simp_all add: wf_stream_def room_def avail_def split: list.split)

lemma unat_of_nat_u64: "n < 2 ^ 64 \<Longrightarrow> unat (of_nat n :: u64) = n"
  by (simp add: unat_of_nat)

lemma unat_add_of_nat:
  assumes "unat (p :: u64) + n < 2 ^ 64"
  shows "unat (p + of_nat n) = unat p + n"
  using assms by (simp add: unat_word_ariths unat_of_nat)

lemma unat_minus_of_nat:
  assumes "n \<le> unat (p :: u64)"
  shows "unat (p - of_nat n) = unat p - n"
proof -
  have "n < 2 ^ 64" using assms unsigned_less [of p, where ?'a = nat] by simp
  then have "unat (of_nat n :: u64) = n" by (rule unat_of_nat_u64)
  with assms show ?thesis using unat_sub [of "of_nat n" p] by (simp add: word_le_nat_alt)
qed

lemma wf_eat:
  assumes "wf_stream s" "avail n s"
  shows "wf_stream (eat n s)" "room (eat n s) = room s - n"
proof -
  have n: "n \<le> length (st_in s)" "n \<le> room s" using assms(2) by (simp_all add: avail_def)
  have r: "unat (st_remaining s - of_nat n) = length (drop n (st_in s))"
    using assms(1) n(1) by (simp add: unat_minus_of_nat wf_stream_def)
  have "wf_stream (eat n s) \<and> room (eat n s) = room s - n"
  proof (cases "st_stack s")
    case Nil
    with assms(1) r show ?thesis by (auto simp: wf_stream_def room_def)
  next
    case (Cons t st)
    have t: "unat (lp_pos t) \<le> unat (lp_size t)" "unat (lp_size t) < 2 ^ 63"
      using assms(1) Cons by (simp_all add: wf_stream_def word_le_nat_alt)
    have "unat (lp_pos t + of_nat n) = unat (lp_pos t) + n"
      using t n(2) Cons by (intro unat_add_of_nat) (simp add: room_def)
    with assms(1) r Cons t n(2) show ?thesis
      by (auto simp: wf_stream_def room_def word_le_nat_alt)
  qed
  then show "wf_stream (eat n s)" "room (eat n s) = room s - n" by simp_all
qed

text \<open>Reading a byte or more: the errors are never the end-of-list mark.\<close>

lemma willRead_cases:
  assumes "wf_stream s"
  shows "if avail (unat n) s
    then willRead n s = (Ok (), s\<lparr>st_kind := None, st_stack := bump (unat n) (st_stack s), st_remaining := st_remaining s - n\<rparr>)
    else \<exists>e s'. willRead n s = (Err e, s') \<and> e \<noteq> EOL"
proof -
  have l: "st_limited s" "unat (st_remaining s) = length (st_in s)" using assms by (simp_all add: wf_stream_def)
  show ?thesis
  proof (cases "st_stack s")
    case Nil
    with l show ?thesis
      by (auto simp: willRead_def avail_def room_def Let_def word_less_nat_alt word_le_nat_alt)
  next
    case (Cons t st)
    have "unat (lp_pos t) \<le> unat (lp_size t)" using assms Cons by (simp add: wf_stream_def word_le_nat_alt)
    then have "unat (lp_size t - lp_pos t) = unat (lp_size t) - unat (lp_pos t)"
      by (simp add: unat_sub word_le_nat_alt)
    with l Cons show ?thesis
      by (auto simp: willRead_def avail_def room_def Let_def word_less_nat_alt word_le_nat_alt)
  qed
qed

lemma readFull_cases:
  assumes "wf_stream s"
  shows "if avail (unat n) s then readFull n s = (Ok (take (unat n) (st_in s)), eat (unat n) s)
    else \<exists>e s'. readFull n s = (Err e, s') \<and> e \<noteq> EOL"
  using willRead_cases [OF assms, of n]
  by (cases "avail (unat n) s") (auto simp: readFull_def avail_def eat_def)

lemma readByte_cases:
  assumes "wf_stream s"
  shows "if avail 1 s then readByte s = (Ok (hd (st_in s)), eat 1 s)
    else \<exists>e s'. readByte s = (Err e, s') \<and> e \<noteq> EOL"
  using willRead_cases [OF assms, of 1]
  by (cases "avail 1 s"; cases "st_in s") (auto simp: readByte_def avail_def eat_def)

lemma readUint_cases:
  assumes "wf_stream s" "1 \<le> unat sz" "unat sz \<le> 8"
  shows "if avail (unat sz) s \<and> (unat sz = 1 \<or> st_in s ! 0 \<noteq> 0)
    then readUint sz s = (Ok (of_nat (be_nat (take (unat sz) (st_in s)))), eat (unat sz) s)
    else \<exists>e s'. readUint sz s = (Err e, s') \<and> e \<noteq> EOL"
proof (cases "sz = 1")
  case True
  show ?thesis
  proof (cases "avail 1 s")
    case True
    then obtain b bs where "st_in s = b # bs" by (cases "st_in s") (auto simp: avail_def)
    with True \<open>sz = 1\<close> readByte_cases [OF assms(1)] show ?thesis by (simp add: readUint_def dec_ret_def of_nat_unat_byte)
  next
    case False
    with \<open>sz = 1\<close> readByte_cases [OF assms(1)] show ?thesis by (auto simp: readUint_def)
  qed
next
  case False
  then have z: "sz \<noteq> 0" "unat sz \<noteq> 1" "\<not> sz > 8" "unat (ucast sz :: u64) = unat sz"
    using assms(2,3) by (auto simp: word_unat_eq_iff word_less_nat_alt unsigned_ucast_eq take_bit_nat_eq_self_iff less_le_trans)
  have hd: "take (unat sz) (st_in s) ! 0 = st_in s ! 0" using assms(2) by simp
  show ?thesis
  proof (cases "avail (unat sz) s")
    case True
    with False z hd readFull_cases [OF assms(1), of "ucast sz"] show ?thesis
      by (auto simp: readUint_def dec_ret_def dec_err_def)
  next
    case f: False
    with False z readFull_cases [OF assms(1), of "ucast sz"] show ?thesis
      by (auto simp: readUint_def)
  qed
qed

section \<open>Heads\<close>

definition is_head :: "Kind \<Rightarrow> u64 \<Rightarrow> byte \<Rightarrow> bytes \<Rightarrow> bool" where
  "is_head k sz bv h \<longleftrightarrow>
     (case k of
        KByte \<Rightarrow> sz = 0 \<and> h = [bv] \<and> bv < 128
      | KString \<Rightarrow> bv = 0 \<and> h = rlp_head 0x80 0xB7 (unat sz)
      | KList \<Rightarrow> bv = 0 \<and> h = rlp_head 0xC0 0xF7 (unat sz))"

definition arm :: "Kind \<Rightarrow> u64 \<Rightarrow> byte \<Rightarrow> Stream \<Rightarrow> Stream" where
  "arm k sz bv s = s\<lparr>st_kind := Some k, st_size := sz, st_kinderr := None, st_byteval := bv\<rparr>"

lemma arm_simps [simp]:
  "st_kind (arm k sz bv s) = Some k" "st_size (arm k sz bv s) = sz" "st_kinderr (arm k sz bv s) = None"
  "st_byteval (arm k sz bv s) = bv" "st_in (arm k sz bv s) = st_in s" "st_stack (arm k sz bv s) = st_stack s"
  "wf_stream (arm k sz bv s) = wf_stream s" "room (arm k sz bv s) = room s" "avail n (arm k sz bv s) = avail n s"
  by (simp_all add: arm_def)

lemma arm_eat [simp]: "arm k sz bv (s\<lparr>st_byteval := b\<rparr>) = arm k sz bv s" "arm k sz bv (s\<lparr>st_kinderr := e\<rparr>) = arm k sz bv s"
  by (simp_all add: arm_def)

lemma rlp_head_not_Nil [simp]: "rlp_head a b n \<noteq> []"
  by (simp add: rlp_head_def)

lemma is_head_not_Nil: "is_head k sz bv h \<Longrightarrow> h \<noteq> []"
  by (auto simp: is_head_def split: Kind.splits)

text \<open>The size ahead fits the innermost list, or at top level the input.\<close>

lemma fits:
  assumes "wf_stream s"
  shows "(case st_stack s of [] \<Rightarrow> if st_limited s \<and> sz > st_remaining s then Some ErrValueTooLarge else None
      | tos # _ \<Rightarrow> if sz > lp_size tos - lp_pos tos then Some ErrElemTooLarge else None)
    = (if unat sz \<le> room s then None else Some (if st_stack s = [] then ErrValueTooLarge else ErrElemTooLarge))"
proof (cases "st_stack s")
  case (Cons t st)
  have "unat (lp_pos t) \<le> unat (lp_size t)" using assms Cons by (simp add: wf_stream_def word_le_nat_alt)
  then have "unat (lp_size t - lp_pos t) = unat (lp_size t) - unat (lp_pos t)"
    by (simp add: unat_sub word_le_nat_alt)
  with Cons show ?thesis by (simp add: room_def word_less_nat_alt)
qed (use assms in \<open>auto simp: wf_stream_def room_def word_less_nat_alt\<close>)

text \<open>A long head: the size of the size, then the size.\<close>

lemma readSize_head:
  assumes "wf_stream s" "avail 1 s" and b: "unat (hd (st_in s)) = large + m" "1 \<le> m" "m \<le> 8"
    and "sz = of_nat m"
  shows "(\<exists>n. avail (length (rlp_head small large (unat n))) s
      \<and> take (length (rlp_head small large (unat n))) (st_in s) = rlp_head small large (unat n)
      \<and> Stream_readSize k sz (eat 1 s) = (Ok (k, n, None), eat (length (rlp_head small large (unat n))) s))
    \<or> (\<exists>n e s'. Stream_readSize k sz (eat 1 s) = (Ok (k, n, Some e), s') \<and> e \<noteq> EOL)"
proof -
  let ?s = "eat 1 s"
  have u: "unat sz = m" using assms(5,6) by (simp add: unat_of_nat)
  have wf: "wf_stream ?s" by (rule wf_eat) (use assms in simp_all)
  obtain b bs where bs: "st_in s = b # bs" using assms(2) by (cases "st_in s") (auto simp: avail_def)
  show ?thesis
  proof (cases "avail m ?s \<and> (m = 1 \<or> st_in ?s ! 0 \<noteq> 0)")
    case True
    define n where "n = (of_nat (be_nat (take m bs)) :: u64)"
    have r: "readUint sz ?s = (Ok n, eat (1 + m) s)"
      using readUint_cases [OF wf, of sz] u b(2,3) True bs by (simp add: n_def)
    have m: "length (take m bs) = m" using True bs by (simp add: avail_def)
    from be_nat_less [of "take m bs"] have "be_nat (take m bs) < 256 ^ m" by (simp only: m)
    also have "(256::nat) ^ m \<le> 256 ^ 8" using b(3) by (intro power_increasing) simp_all
    finally have n: "unat n = be_nat (take m bs)" by (simp add: n_def unat_of_nat)
    show ?thesis
    proof (cases "n < 56")
      case False
      have "take m bs \<noteq> [] \<Longrightarrow> hd (take m bs) \<noteq> 0"
      proof (cases "m = 1")
        case True
        assume "take m bs \<noteq> []"
        with True obtain c where "take m bs = [c]" using m by (cases bs) auto
        with False n show ?thesis by (auto simp: word_less_nat_alt)
      next
        case False
        assume "take m bs \<noteq> []"
        with False True bs show ?thesis by (cases bs) (auto simp: hd_conv_nth)
      qed
      then have bb: "big_bytes (unat n) = take m bs" using n big_bytes_be_nat [of "take m bs"] by simp
      have "b = of_nat (large + m)" using b(1) bs by (metis list.sel(1) of_nat_unat ucast_id)
      then have h: "rlp_head small large (unat n) = b # take m bs"
        using False m bb by (simp add: rlp_head_def word_less_nat_alt)
      have "avail (1 + m) s" using True assms(1,2) wf_eat(2) [OF assms(1,2)] bs by (auto simp: avail_def)
      with r False h bs m show ?thesis
        by (intro disjI1 exI [of _ n]) (simp add: Stream_readSize_def)
    qed (use r in \<open>auto simp: Stream_readSize_def\<close>)
  next
    case False
    with readUint_cases [OF wf, of sz] u b(2,3) show ?thesis by (auto simp: Stream_readSize_def)
  qed
qed

lemma readKind_cases:
  assumes "wf_stream s"
  shows "(\<exists>k sz bv h. is_head k sz bv h \<and> avail (length h) s \<and> take (length h) (st_in s) = h
      \<and> Stream_readKind s = (Ok (k, sz, None), (eat (length h) s)\<lparr>st_byteval := bv\<rparr>))
    \<or> (\<exists>k sz e s'. Stream_readKind s = (Ok (k, sz, Some e), s') \<and> e \<noteq> EOL)"
proof (cases "avail 1 s")
  case False
  with readByte_cases [OF assms] show ?thesis by (auto simp: Stream_readKind_def)
next
  case True
  then obtain b bs where bs: "st_in s = b # bs" by (cases "st_in s") (auto simp: avail_def)
  have r: "readByte s = (Ok b, eat 1 s)" using readByte_cases [OF assms] True bs by simp
  let ?s = "s\<lparr>st_byteval := 0\<rparr>"
  have long: ?thesis if "unat b = large + m" "1 \<le> m" "m \<le> 8" "sz = of_nat m"
    "Stream_readKind s = Stream_readSize k sz (eat 1 ?s)" "\<And>n. is_head k n 0 (rlp_head small large (unat n))"
    for large small m k sz
    using readSize_head [of ?s large m sz small k] that assms True bs by (auto, blast)
  have short: ?thesis if "Stream_readKind s = (Ok (k, sz, None), (eat 1 s)\<lparr>st_byteval := bv\<rparr>)" "is_head k sz bv [b]" for k sz bv
    using that True bs by (intro disjI1 exI [of _ k] exI [of _ sz] exI [of _ bv] exI [of _ "[b]"]) simp
  consider "b < 0x80" | "\<not> b < 0x80" "b < 0xB8" | "\<not> b < 0xB8" "b < 0xC0" | "\<not> b < 0xC0" "b < 0xF8" | "\<not> b < 0xF8"
    by blast
  then show ?thesis
  proof cases
    case 1
    then show ?thesis by (intro short) (auto simp: Stream_readKind_def r is_head_def)
  next
    case 2
    then have "unat (ucast (b - 0x80) :: u64) = unat b - 0x80" "unat b - 0x80 < 56" "unat b \<ge> 0x80"
      by (auto simp: unsigned_ucast_eq take_bit_nat_eq_self unat_sub word_le_nat_alt word_less_nat_alt not_less)
    with 2 show ?thesis by (intro short) (auto simp: Stream_readKind_def r is_head_def rlp_head_def Let_def)
  next
    case 3
    show ?thesis
      by (rule long [of "0xB7" "unat b - 0xB7" "b - 0xB7" KString "0x80"])
        (use 3 in \<open>auto simp: Stream_readKind_def r is_head_def word_less_nat_alt not_less Let_def\<close>)
  next
    case 4
    then have "unat (ucast (b - 0xC0) :: u64) = unat b - 0xC0" "unat b - 0xC0 < 56" "unat b \<ge> 0xC0"
      by (auto simp: unsigned_ucast_eq take_bit_nat_eq_self unat_sub word_le_nat_alt word_less_nat_alt not_less)
    with 4 show ?thesis by (intro short) (auto simp: Stream_readKind_def r is_head_def rlp_head_def Let_def word_less_nat_alt)
  next
    case 5
    have b8: "unat b - 0xF7 \<le> 8" using unat_byte_less [of b] by linarith
    show ?thesis
      by (rule long [of "0xF7" "unat b - 0xF7" "b - 0xF7" KList "0xC0"])
        (use 5 b8 in \<open>auto simp: Stream_readKind_def r is_head_def word_less_nat_alt not_less Let_def\<close>)
  qed
qed

lemma readSize_complete:
  assumes "wf_stream s" and n: "56 \<le> unat n"
    and h: "h = rlp_head small large (unat n)" "avail (length h) s" "take (length h) (st_in s) = h"
    and m: "m = of_nat (length (big_bytes (unat n)))"
  shows "Stream_readSize k m (eat 1 s) = (Ok (k, n, None), eat (length h) s)"
proof -
  have l: "length (big_bytes (unat n)) \<le> 8" "1 \<le> length (big_bytes (unat n))"
    using length_big_bytes_le [of "unat n" 8] unsigned_less [of n, where ?'a = nat] n
    by (auto simp: Suc_le_eq simp del: unsigned_less)
  let ?l = "length (big_bytes (unat n))" and ?s = "eat 1 s"
  have u: "unat m = ?l" using l m by (simp add: unat_of_nat)
  have hl: "h = of_nat (large + ?l) # big_bytes (unat n)" using n h(1) by (simp add: rlp_head_def)
  obtain b bs where bs: "st_in s = b # bs" using h(2) hl by (cases "st_in s") (auto simp: avail_def)
  have a1: "avail 1 s" using h(2) hl by (auto simp: avail_def)
  have wf: "wf_stream ?s" by (rule wf_eat) fact+
  have t: "take ?l bs = big_bytes (unat n)" using h(3) hl bs by simp
  have "avail ?l ?s" using h(2) hl wf_eat(2) [OF assms(1) a1] by (auto simp: avail_def)
  moreover have "bs ! 0 \<noteq> 0"
  proof -
    have "hd (big_bytes (unat n)) = bs ! 0" using t l(2) by (metis hd_conv_nth length_0_conv not_one_le_zero nth_take zero_less_one order_less_le_trans)
    with hd_big_bytes [of "unat n"] n show ?thesis by auto
  qed
  ultimately have "readUint m ?s = (Ok n, eat (1 + ?l) s)"
    using readUint_cases [OF wf, of m] u l bs t by simp
  moreover have "\<not> n < 56" using n by (simp add: word_less_nat_alt)
  ultimately show ?thesis using hl by (simp add: Stream_readSize_def)
qed

lemma readKind_complete:
  assumes "wf_stream s" "is_head k sz bv h" "avail (length h) s" "take (length h) (st_in s) = h"
  shows "Stream_readKind s = (Ok (k, sz, None), (eat (length h) s)\<lparr>st_byteval := bv\<rparr>)"
proof -
  obtain b bs where bs: "st_in s = b # bs" using assms(3) is_head_not_Nil [OF assms(2)]
    by (cases "st_in s") (auto simp: avail_def)
  have a1: "avail 1 s" using assms(3) is_head_not_Nil [OF assms(2)] by (cases h) (auto simp: avail_def)
  have r: "readByte s = (Ok b, eat 1 s)" using readByte_cases [OF assms(1)] a1 bs by simp
  have b: "b = hd h" using assms(4) is_head_not_Nil [OF assms(2)] bs by (cases h) auto
  have l: "length (big_bytes (unat sz)) \<le> 8" "unat sz \<noteq> 0 \<Longrightarrow> 1 \<le> length (big_bytes (unat sz))"
    using length_big_bytes_le [of "unat sz" 8] unsigned_less [of sz, where ?'a = nat]
    by (auto simp: Suc_le_eq simp del: unsigned_less)
  have short: "unat (of_nat (small + n) :: byte) = small + n" "(of_nat (small + n) :: byte) - of_nat small = of_nat n"
    if "small + n < 256" for small n using that by (simp_all add: unat_of_nat del: of_nat_add) simp
  have us: "ucast (of_nat (unat sz) :: byte) = sz" if "unat sz < 56"
    using that by (simp add: word_unat_eq_iff unsigned_ucast_eq unat_of_nat take_bit_nat_eq_self unsigned_take_bit_eq)
  show ?thesis
  proof (cases k)
    case KByte
    with assms(2) b show ?thesis by (auto simp: is_head_def Stream_readKind_def r Let_def)
  next
    case KString
    with assms(2) have h: "bv = 0" "h = rlp_head 0x80 0xB7 (unat sz)" by (simp_all add: is_head_def)
    show ?thesis
    proof (cases "unat sz < 56")
      case True
      then have bb: "b = of_nat (0x80 + unat sz)" "h = [b]" using h(2) b by (simp_all add: rlp_head_def)
      have "unat b = 0x80 + unat sz" "b - 0x80 = of_nat (unat sz)"
        using short [of "0x80" "unat sz"] True bb(1) by simp_all
      with us [OF True] KString h(1) bb(2) True show ?thesis
        by (simp add: Stream_readKind_def r Let_def word_less_nat_alt)
    next
      case False
      then have bb: "b = of_nat (0xB7 + length (big_bytes (unat sz)))" using h(2) b by (simp add: rlp_head_def)
      have "unat b = 0xB7 + length (big_bytes (unat sz))" "b - 0xB7 = of_nat (length (big_bytes (unat sz)))"
        using short [of "0xB7" "length (big_bytes (unat sz))"] l bb by simp_all
      with readSize_complete [of "s\<lparr>st_byteval := 0\<rparr>" sz h "0x80" "0xB7" _ k] False assms h l KString show ?thesis
        by (simp add: Stream_readKind_def r Let_def word_less_nat_alt)
    qed
  next
    case KList
    with assms(2) have h: "bv = 0" "h = rlp_head 0xC0 0xF7 (unat sz)" by (simp_all add: is_head_def)
    show ?thesis
    proof (cases "unat sz < 56")
      case True
      then have bb: "b = of_nat (0xC0 + unat sz)" "h = [b]" using h(2) b by (simp_all add: rlp_head_def)
      have "unat b = 0xC0 + unat sz" "b - 0xC0 = of_nat (unat sz)"
        using short [of "0xC0" "unat sz"] True bb(1) by simp_all
      with us [OF True] KList h(1) bb(2) True show ?thesis
        by (simp add: Stream_readKind_def r Let_def word_less_nat_alt)
    next
      case False
      then have bb: "b = of_nat (0xF7 + length (big_bytes (unat sz)))" using h(2) b by (simp add: rlp_head_def)
      have "unat b = 0xF7 + length (big_bytes (unat sz))" "b - 0xF7 = of_nat (length (big_bytes (unat sz)))"
        using short [of "0xF7" "length (big_bytes (unat sz))"] l bb by simp_all
      with readSize_complete [of "s\<lparr>st_byteval := 0\<rparr>" sz h "0xC0" "0xF7" _ k] False assms h l KList show ?thesis
        by (simp add: Stream_readKind_def r Let_def word_less_nat_alt)
    qed
  qed
qed

text \<open>What \<open>Kind\<close> does on a stream that is ready for the next value.\<close>

lemma Kind_after:
  assumes "wf_stream s" "st_kind s = None" "\<not> (st_stack s \<noteq> [] \<and> room s = 0)"
    and "Stream_readKind (s\<lparr>st_kinderr := None\<rparr>) = (Ok (k, sz, e), s')" "e = None \<Longrightarrow> wf_stream s'"
  shows "Stream_Kind s =
    (case e of
       Some e' \<Rightarrow> (Err e', s'\<lparr>st_kind := Some k, st_size := sz, st_kinderr := Some e'\<rparr>)
     | None \<Rightarrow>
         if unat sz \<le> room s' then (Ok (k, sz), s'\<lparr>st_kind := Some k, st_size := sz, st_kinderr := None\<rparr>)
         else (let e' = (if st_stack s' = [] then ErrValueTooLarge else ErrElemTooLarge)
               in (Err e', s'\<lparr>st_kind := Some k, st_size := sz, st_kinderr := Some e'\<rparr>)))"
proof -
  have "lp_pos t \<noteq> lp_size t" if "st_stack s = t # st" for t st
    using assms(1,3) that by (auto simp: room_def)
  then have "\<not> (st_stack s \<noteq> [] \<and> lp_pos (hd (st_stack s)) = lp_size (hd (st_stack s)))"
    by (cases "st_stack s") auto
  with assms(2,4) fits [OF assms(5), of sz] show ?thesis
    by (cases e) (auto simp: Stream_Kind_def Let_def)
qed

lemma Kind_EOL:
  assumes "wf_stream s" "st_kind s = None" "st_stack s \<noteq> []" "room s = 0"
  shows "Stream_Kind s = (Err EOL, s\<lparr>st_kinderr := None\<rparr>)"
proof -
  obtain t st where t: "st_stack s = t # st" using assms(3) by (cases "st_stack s") auto
  with assms(1,4) have "lp_pos t = lp_size t"
    by (simp add: wf_stream_def room_def word_le_nat_alt word_unat_eq_iff)
  with assms(2) t show ?thesis by (simp add: Stream_Kind_def Let_def)
qed

lemma Kind_cases:
  assumes "ready s"
  obtains (ok) k sz bv h where "is_head k sz bv h" "avail (length h) s" "take (length h) (st_in s) = h"
      "unat sz \<le> room (eat (length h) s)" "Stream_Kind s = (Ok (k, sz), arm k sz bv (eat (length h) s))"
  | (eol) "st_stack s \<noteq> []" "room s = 0" "Stream_Kind s = (Err EOL, s\<lparr>st_kinderr := None\<rparr>)"
  | (err) e s' where "Stream_Kind s = (Err e, s')" "e \<noteq> EOL"
proof (cases "st_stack s \<noteq> [] \<and> room s = 0")
  case True
  with assms that(2) Kind_EOL [of s] show ?thesis by (simp add: ready_def)
next
  case False
  have wf: "wf_stream s" "st_kind s = None" using assms by (simp_all add: ready_def)
  from readKind_cases [of "s\<lparr>st_kinderr := None\<rparr>"] wf
  consider k sz bv h where "is_head k sz bv h" "avail (length h) s" "take (length h) (st_in s) = h"
      "Stream_readKind (s\<lparr>st_kinderr := None\<rparr>) = (Ok (k, sz, None), (eat (length h) s)\<lparr>st_kinderr := None, st_byteval := bv\<rparr>)"
    | k sz e s' where "Stream_readKind (s\<lparr>st_kinderr := None\<rparr>) = (Ok (k, sz, Some e), s')" "e \<noteq> EOL"
    by auto
  then show ?thesis
  proof cases
    case 1
    have w: "wf_stream (eat (length h) s)" by (rule wf_eat) (use wf 1 in simp_all)
    show ?thesis
    proof (cases "unat sz \<le> room (eat (length h) s)")
      case True
      with Kind_after [OF wf False 1(4)] w 1(1-3) show ?thesis
        by (intro that(1) [of k sz bv h]) (simp_all add: arm_def)
    next
      case f: False
      with Kind_after [OF wf False 1(4)] w that(3) show ?thesis
        by (cases "st_stack s = []") (simp_all add: Let_def)
    qed
  next
    case 2
    with Kind_after [OF wf False 2(1)] show ?thesis by (intro that(3)) simp_all
  qed
qed

lemma Kind_complete:
  assumes "ready s" "is_head k sz bv h" "avail (length h) s" "take (length h) (st_in s) = h"
    "unat sz \<le> room (eat (length h) s)"
  shows "Stream_Kind s = (Ok (k, sz), arm k sz bv (eat (length h) s))"
proof -
  have wf: "wf_stream s" "st_kind s = None" using assms(1) by (simp_all add: ready_def)
  have w: "wf_stream (eat (length h) s)" by (rule wf_eat) (use wf assms in simp_all)
  have "room s \<noteq> 0" using assms(3) is_head_not_Nil [OF assms(2)] by (cases h) (auto simp: avail_def)
  with Kind_after [OF wf, of k sz None] readKind_complete [of "s\<lparr>st_kinderr := None\<rparr>" k sz bv h] wf assms w show ?thesis
    by (simp add: arm_def)
qed

lemma Kind_armed [simp]: "Stream_Kind (arm k sz bv s) = (Ok (k, sz), arm k sz bv s)"
  by (simp add: Stream_Kind_def Let_def)

section \<open>Outcomes\<close>

text \<open>
  \<open>consumed s bs s'\<close>: from \<open>s\<close> to \<open>s'\<close> exactly the bytes \<open>bs\<close> were read, and the stream is ready for the next
  value.  The outcome of a decoder is a value with its encoding consumed, or an error; the end-of-list mark is
  returned at the end of a list only, and nothing is read then.
\<close>

definition consumed :: "Stream \<Rightarrow> bytes \<Rightarrow> Stream \<Rightarrow> bool" where
  "consumed s bs s' \<longleftrightarrow> avail (length bs) s \<and> take (length bs) (st_in s) = bs \<and> ready s'
     \<and> st_in s' = drop (length bs) (st_in s) \<and> st_stack s' = bump (length bs) (st_stack s)"

definition at_end :: "Stream \<Rightarrow> bool" where
  "at_end s \<longleftrightarrow> st_stack s \<noteq> [] \<and> room s = 0"

definition outcome :: "Stream \<Rightarrow> ('a \<Rightarrow> bytes) \<Rightarrow> ('a \<Rightarrow> bool) \<Rightarrow> (rlp_error, 'a) res \<times> Stream \<Rightarrow> bool" where
  "outcome s enc P r \<longleftrightarrow>
     (case r of
        (Ok v, s') \<Rightarrow> P v \<and> consumed s (enc v) s'
      | (Err e, s') \<Rightarrow> e = EOL \<longrightarrow> at_end s \<and> s' = s\<lparr>st_kinderr := None\<rparr>
      | _ \<Rightarrow> False)"

lemma consumed_ready: "consumed s bs s' \<Longrightarrow> ready s'"
  by (simp add: consumed_def)

lemma consumed_room: "consumed s bs s' \<Longrightarrow> wf_stream s \<Longrightarrow> room s' = room s - length bs"
  using wf_eat(2) [of s "length bs"] by (auto simp: consumed_def room_def split: list.splits)

lemma consumed_trans:
  assumes "consumed s bs s1" "consumed s1 cs s2" "wf_stream s"
  shows "consumed s (bs @ cs) s2"
  using assms consumed_room [OF assms(1,3)]
  by (auto simp: consumed_def avail_def take_add) (simp add: add.commute)

lemma consumed_refl: "ready s \<Longrightarrow> consumed s [] s"
  by (cases "st_stack s") (auto simp: consumed_def avail_def)

lemma consumed_eat:
  assumes "wf_stream s" "avail (length bs) s" "take (length bs) (st_in s) = bs"
    "st_in s' = st_in (eat (length bs) s)" "st_stack s' = st_stack (eat (length bs) s)"
    "st_kind s' = None" "st_limited s' = st_limited s" "st_remaining s' = st_remaining (eat (length bs) s)"
  shows "consumed s bs s'"
  using assms wf_eat(1) [OF assms(1,2)] by (simp add: consumed_def ready_def wf_stream_def)

lemma outcome_bind:
  assumes "outcome s enc P (m s)"
    and "\<And>v s'. P v \<Longrightarrow> consumed s (enc v) s' \<Longrightarrow> m s = (Ok v, s') \<Longrightarrow> outcome s enc' P' (f v s')"
  shows "outcome s enc' P' (dec_bind m f s)"
  using assms by (auto simp: outcome_def split: res.splits prod.splits)

lemma outcome_ret: "P x \<Longrightarrow> consumed s (enc x) s' \<Longrightarrow> outcome s enc P (dec_ret x s')"
  by (simp add: outcome_def dec_ret_def)

lemma outcome_err: "e \<noteq> EOL \<Longrightarrow> outcome s enc P (dec_err e s')"
  by (simp add: outcome_def dec_err_def)

text \<open>The content of a string or a list, after its head.\<close>

lemma content_cases:
  assumes "wf_stream s" "avail (length h) s" "take (length h) (st_in s) = h"
  shows "(\<exists>c. length c = unat sz \<and> readFull sz (arm k sz bv (eat (length h) s)) = (Ok c, (eat (length (h @ c)) s)\<lparr>st_size := sz, st_kinderr := None, st_byteval := bv\<rparr>)
      \<and> consumed s (h @ c) ((eat (length (h @ c)) s)\<lparr>st_size := sz, st_kinderr := None, st_byteval := bv\<rparr>))
    \<or> (\<exists>e s'. readFull sz (arm k sz bv (eat (length h) s)) = (Err e, s') \<and> e \<noteq> EOL)"
proof -
  let ?s = "eat (length h) s"
  have wf: "wf_stream ?s" by (rule wf_eat) fact+
  show ?thesis
  proof (cases "avail (unat sz) ?s")
    case True
    define c where "c = take (unat sz) (st_in ?s)"
    have l: "length c = unat sz" using True by (simp add: c_def avail_def)
    have a: "avail (length (h @ c)) s"
      using True l wf_eat(2) [OF assms(1,2)] assms(2) by (auto simp: avail_def)
    have t: "take (length (h @ c)) (st_in s) = h @ c"
      using assms(3) l by (simp add: c_def take_add)
    have "readFull sz (arm k sz bv ?s) = (Ok c, eat (unat sz) (arm k sz bv ?s))"
      using readFull_cases [of "arm k sz bv ?s" sz] wf True by (simp add: c_def)
    moreover have "eat (unat sz) (arm k sz bv ?s) = (eat (length (h @ c)) s)\<lparr>st_size := sz, st_kinderr := None, st_byteval := bv\<rparr>"
      using l by (simp add: arm_def eat_def algebra_simps)
    ultimately show ?thesis
      using l by (intro disjI1 exI [of _ c]) (auto intro!: consumed_eat [OF assms(1) a t])
  next
    case False
    with readFull_cases [of "arm k sz bv ?s" sz] wf show ?thesis by auto
  qed
qed

lemma content_complete:
  assumes "wf_stream s" "avail (length (h @ c)) s" "take (length (h @ c)) (st_in s) = h @ c" "length c = unat sz"
  shows "\<exists>s'. readFull sz (arm k sz bv (eat (length h) s)) = (Ok c, s') \<and> consumed s (h @ c) s'"
proof -
  have a: "avail (length h) s" "take (length h) (st_in s) = h" using assms(2,3)
    by (auto simp: avail_def take_add)
  have "avail (unat sz) (eat (length h) s)"
    using assms(2,4) wf_eat(2) [OF assms(1) a(1)] by (auto simp: avail_def)
  then have "\<not> (\<exists>e s'. readFull sz (arm k sz bv (eat (length h) s)) = (Err e, s') \<and> e \<noteq> EOL)"
    using readFull_cases [of "arm k sz bv (eat (length h) s)" sz] wf_eat(1) [OF assms(1) a(1)] by simp
  with content_cases [OF assms(1) a, of sz k bv] obtain c' s' where
    c: "length c' = unat sz" "readFull sz (arm k sz bv (eat (length h) s)) = (Ok c', s')" "consumed s (h @ c') s'" by blast
  then have "c' = c" using assms(3,4) by (simp add: consumed_def)
  with c show ?thesis by blast
qed

section \<open>The operations\<close>

lemma rlp_str_head:
  assumes "\<not> (length c = 1 \<and> c ! 0 < 128)"
  shows "rlp_str c = rlp_head 0x80 0xB7 (length c) @ c"
proof -
  have "\<not> (length c = 1 \<and> be_nat c < 128)"
    using assms by (cases c) (auto simp: word_less_nat_alt)
  then show ?thesis by (auto simp: rlp_str_def)
qed

lemma rlp_str_byte: "b < 128 \<Longrightarrow> rlp_str [b] = [b]"
  by (simp add: rlp_str_def word_less_nat_alt)

lemma outcome_Kind:
  assumes "ready s"
    and "\<And>k sz bv h. is_head k sz bv h \<Longrightarrow> avail (length h) s \<Longrightarrow> take (length h) (st_in s) = h
      \<Longrightarrow> unat sz \<le> room (eat (length h) s) \<Longrightarrow> unat sz < 2 ^ 63 \<Longrightarrow> outcome s enc P (f (k, sz) (arm k sz bv (eat (length h) s)))"
  shows "outcome s enc P (dec_bind Stream_Kind f s)"
proof -
  have wf: "wf_stream s" using assms(1) by (simp add: ready_def)
  from assms(1) show ?thesis
  proof (cases rule: Kind_cases)
    case (ok k sz bv h)
    have "wf_stream (eat (length h) s)" by (rule wf_eat) (use wf ok in simp_all)
    then have "room (eat (length h) s) < 2 ^ 63"
      unfolding wf_stream_def room_def by (cases "st_stack (eat (length h) s)") auto
    with ok have "unat sz < 2 ^ 63" by linarith
    with ok assms(2) show ?thesis by simp
  qed (auto simp: outcome_def at_end_def)
qed

lemma rearm_byte:
  assumes "wf_stream s" "avail (length [b]) s" "take (length [b]) (st_in s) = [b]"
  shows "consumed s [b] (rearm (arm k sz bv (eat (length [b]) s)))"
  by (rule consumed_eat) (use assms in \<open>simp_all add: rearm_def arm_def\<close>)

lemma Bytes_outcome:
  assumes "ready s"
  shows "outcome s rlp_str (\<lambda>_. True) (Stream_Bytes s)"
  unfolding Stream_Bytes_def
proof (rule outcome_Kind [OF assms])
  fix k sz bv h
  assume h: "is_head k sz bv h" "avail (length h) s" "take (length h) (st_in s) = h" and sz: "unat sz < 2 ^ 63"
  have wf: "wf_stream s" using assms by (simp add: ready_def)
  let ?s = "arm k sz bv (eat (length h) s)"
  show "outcome s rlp_str (\<lambda>_. True) ((case (k, sz) of (kind, sz) \<Rightarrow> case kind of KByte \<Rightarrow> \<lambda>s. (Ok [st_byteval s], rearm s)
      | KString \<Rightarrow> dec_bind (makeslice (unat sz)) (\<lambda>_. dec_bind (readFull sz) (\<lambda>b. if sz = 1 \<and> b ! 0 < 128 then dec_err ErrCanonSize else dec_ret b))
      | KList \<Rightarrow> dec_err ErrExpectedString) ?s)"
  proof (cases k)
    case KByte
    with h rearm_byte [OF wf, of bv k sz bv] show ?thesis by (auto simp: is_head_def outcome_def rlp_str_byte)
  next
    case KString
    from content_cases [OF wf h(2,3), of sz k bv] show ?thesis
    proof (elim disjE exE conjE)
      fix c s'
      assume c: "length c = unat sz" "readFull sz ?s = (Ok c, s')" "consumed s (h @ c) s'"
      have e: "h = rlp_head 0x80 0xB7 (length c)" using h(1) KString c(1) by (simp add: is_head_def)
      show ?thesis
      proof (cases "sz = 1 \<and> c ! 0 < 128")
        case False
        then have "rlp_str c = h @ c" using rlp_str_head [of c] c(1) e by (auto simp: word_unat_eq_iff)
        with False KString c sz show ?thesis by (auto simp: makeslice_def outcome_def dec_ret_def)
      qed (use KString c sz in \<open>simp add: makeslice_def outcome_def dec_err_def\<close>)
    qed (use KString sz in \<open>simp add: makeslice_def outcome_def\<close>)
  next
    case KList
    then show ?thesis by (simp add: outcome_err)
  qed
qed

definition raw_ok :: "bytes \<Rightarrow> bool" where
  "raw_ok b \<longleftrightarrow> (\<exists>x<128. b = [x]) \<or> (\<exists>c. b = rlp_head 0x80 0xB7 (length c) @ c \<or> b = rlp_head 0xC0 0xF7 (length c) @ c)"

lemma puthead_head:
  "puthead 0x80 0xB7 sz = rlp_head 0x80 0xB7 (unat sz)" "puthead 0xC0 0xF7 sz = rlp_head 0xC0 0xF7 (unat sz)"
  using puthead_rlp_head [of "unat sz" "0x80" "0xB7"] puthead_rlp_head [of "unat sz" "0xC0" "0xF7"]
    unsigned_less [of sz, where ?'a = nat] by (simp_all del: unsigned_less)

lemma room_less: "wf_stream s \<Longrightarrow> room s < 2 ^ 63"
  unfolding wf_stream_def room_def by (cases "st_stack s") auto

lemma Raw_outcome:
  assumes "ready s"
  shows "outcome s id raw_ok (Stream_Raw s)"
  unfolding Stream_Raw_def
proof (rule outcome_Kind [OF assms])
  fix k sz bv h
  assume h: "is_head k sz bv h" "avail (length h) s" "take (length h) (st_in s) = h" "unat sz \<le> room (eat (length h) s)"
  have wf: "wf_stream s" using assms by (simp add: ready_def)
  let ?s = "arm k sz bv (eat (length h) s)"
  show "outcome s id raw_ok ((case (k, sz) of (kind, sz) \<Rightarrow> case kind of KByte \<Rightarrow> \<lambda>s. (Ok [st_byteval s], rearm s)
      | _ \<Rightarrow> dec_bind (makeslice (headsize sz + unat sz)) (\<lambda>_. dec_bind (readFull sz) (\<lambda>b.
             dec_ret ((if kind = KString then puthead 0x80 0xB7 sz else puthead 0xC0 0xF7 sz) @ b)))) ?s)"
  proof (cases "k = KByte")
    case True
    with h rearm_byte [OF wf, of bv k sz bv] show ?thesis by (auto simp: is_head_def outcome_def raw_ok_def)
  next
    case False
    then have e: "h = (if k = KString then puthead 0x80 0xB7 sz else puthead 0xC0 0xF7 sz)"
      using h(1) by (cases k) (simp_all add: is_head_def puthead_head)
    then have "length h = headsize sz" by (simp add: length_puthead)
    then have m: "headsize sz + unat sz < 2 ^ 63"
      using h(2,4) wf_eat(2) [OF wf h(2)] room_less [OF wf] unfolding avail_def by linarith
    from content_cases [OF wf h(2,3), of sz k bv] show ?thesis
    proof (elim disjE exE conjE)
      fix c s'
      assume c: "length c = unat sz" "readFull sz ?s = (Ok c, s')" "consumed s (h @ c) s'"
      have "raw_ok (h @ c)"
        unfolding raw_ok_def by (rule disjI2, rule exI [of _ c]) (use c(1) e in \<open>auto simp: puthead_head\<close>)
      then show ?thesis using c False m e by (cases k) (auto simp: makeslice_def outcome_def dec_ret_def)
    qed (use False m in \<open>cases k, auto simp: makeslice_def outcome_def\<close>)
  qed
qed

definition wf_bits :: "nat \<Rightarrow> bool" where
  "wf_bits bits \<longleftrightarrow> bits \<in> {8, 16, 32, 64}"

lemma ucast_byte_small: "unat (sz :: u64) \<le> 8 \<Longrightarrow> unat (ucast sz :: byte) = unat sz"
  by (simp add: unsigned_ucast_eq take_bit_nat_eq_self)

lemma be_nat_short:
  assumes "length c \<le> 8"
  shows "unat (of_nat (be_nat c) :: u64) = be_nat c"
proof -
  have "be_nat c < 256 ^ length c" by (rule be_nat_less)
  also have "(256::nat) ^ length c \<le> 256 ^ 8" using assms by (intro power_increasing) simp_all
  finally show ?thesis by (simp add: unat_of_nat)
qed

text \<open>An integer of at least two bytes, or of one byte that is not its own encoding, without a leading zero.\<close>

lemma uint_content:
  assumes "length c \<le> 8" "c \<noteq> []" "length c = 1 \<or> c ! 0 \<noteq> 0" "\<not> be_nat c < 128"
  shows "rlp_str (big_bytes (unat (of_nat (be_nat c) :: u64))) = rlp_head 0x80 0xB7 (length c) @ c"
proof -
  have "hd c \<noteq> 0"
  proof (cases "length c = 1")
    case True
    with assms(4) show ?thesis by (cases c) auto
  qed (use assms in \<open>auto simp: hd_conv_nth\<close>)
  then have "big_bytes (unat (of_nat (be_nat c) :: u64)) = c"
    using big_bytes_be_nat [of c] by (simp add: be_nat_short [OF assms(1)])
  with assms(4) show ?thesis by (simp add: rlp_str_def)
qed

lemma uint_outcome:
  assumes "ready s" "wf_bits bits"
  shows "outcome s (\<lambda>v. rlp_str (big_bytes (unat v))) (\<lambda>v. unat v < 2 ^ bits) (Stream_uint bits s)"
  unfolding Stream_uint_def
proof (rule outcome_Kind [OF assms(1)])
  fix k sz bv h
  assume h: "is_head k sz bv h" "avail (length h) s" "take (length h) (st_in s) = h"
  have wf: "wf_stream s" using assms by (simp add: ready_def)
  let ?s = "arm k sz bv (eat (length h) s)"
  let ?P = "outcome s (\<lambda>v. rlp_str (big_bytes (unat v))) (\<lambda>v. unat v < 2 ^ bits)"
  show "?P ((case (k, sz) of (kind, sz) \<Rightarrow> case kind of
        KByte \<Rightarrow> (\<lambda>s. if st_byteval s = 0 then (Err ErrCanonInt, s) else (Ok (ucast (st_byteval s)), rearm s))
      | KString \<Rightarrow>
          if sz > of_nat (bits div 8) then dec_err ErrUintOverflow
          else (\<lambda>s. case readUint (ucast sz) s of
                      (Ok v, s') \<Rightarrow> if sz > 0 \<and> v < 128 then (Err ErrCanonSize, s') else (Ok v, s')
                    | (Err e, s') \<Rightarrow> (Err (if e = ErrCanonSize then ErrCanonInt else e), s')
                    | (Panic, s') \<Rightarrow> (Panic, s')
                    | (Diverge, s') \<Rightarrow> (Diverge, s'))
      | KList \<Rightarrow> dec_err ErrExpectedString) ?s)"
  proof (cases k)
    case KByte
    then have b: "h = [bv]" "bv < 128" using h(1) by (simp_all add: is_head_def)
    have u: "unat (ucast bv :: u64) = unat bv" by (simp add: unsigned_ucast_eq take_bit_nat_eq_self less_trans [OF unat_byte_less])
    have "rlp_str (big_bytes (unat bv)) = [bv]" if "bv \<noteq> 0"
      using that b(2) rlp_str_uint [of "ucast bv"] u by (auto simp: word_less_nat_alt word_unat_eq_iff unsigned_ucast_eq unsigned_take_bit_eq take_bit_nat_eq_self)
    moreover have "unat bv < 2 ^ bits"
    proof -
      have "(256::nat) \<le> 2 ^ bits" using assms(2) by (auto simp: wf_bits_def)
      with unat_byte_less [of bv] show ?thesis by linarith
    qed
    ultimately show ?thesis
      using KByte b u h rearm_byte [OF wf, of bv k sz bv] by (auto simp: outcome_def)
  next
    case KString
    have e: "h = rlp_head 0x80 0xB7 (unat sz)" using h(1) KString by (simp add: is_head_def)
    have wf': "wf_stream ?s" using wf_eat(1) [OF wf h(2)] by simp
    show ?thesis
    proof (cases "sz > of_nat (bits div 8)")
      case False
      have b8: "unat (of_nat (bits div 8) :: u64) = bits div 8" "bits div 8 \<le> 8" "bits = 8 * (bits div 8)"
        using assms(2) by (auto simp: wf_bits_def)
      with False have le: "unat sz \<le> bits div 8" by (simp add: word_less_nat_alt)
      note us = ucast_byte_small [of sz]
      show ?thesis
      proof (cases "sz = 0")
        case True
        then have "consumed s h (?s\<lparr>st_kind := None\<rparr>)"
          by (intro consumed_eat) (use wf h in \<open>simp_all add: arm_def\<close>)
        with True KString e show ?thesis by (simp add: readUint_def outcome_def rlp_str_Nil rlp_head_def)
      next
        case nz: False
        then have pos: "1 \<le> unat (ucast sz :: byte)" "unat (ucast sz :: byte) \<le> 8"
          using us le b8 by (simp_all add: Suc_le_eq unat_gt_0)
        show ?thesis
        proof (cases "avail (unat (ucast sz :: byte)) ?s \<and> (unat (ucast sz :: byte) = 1 \<or> st_in ?s ! 0 \<noteq> 0)")
          case True
          define c where "c = take (unat sz) (st_in ?s)"
          have l: "length c = unat sz" using True us le b8 by (simp add: c_def avail_def)
          have ru: "readUint (ucast sz) ?s = (Ok (of_nat (be_nat c)), eat (unat sz) ?s)"
            using readUint_cases [OF wf' pos] True us le b8 by (simp add: c_def)
          have c0: "c \<noteq> []" "length c \<le> 8" "length c = 1 \<or> c ! 0 \<noteq> 0"
            using l nz le b8 True us by (auto simp: c_def word_unat_eq_iff)
          show ?thesis
          proof (cases "be_nat c < 128")
            case True
            then show ?thesis
              using KString False ru nz be_nat_short [OF c0(2)]
              by (simp add: outcome_def word_less_nat_alt unat_gt_0)
          next
            case nsmall: False
            have "unat sz \<le> room s - length h" "unat sz \<le> length (st_in s) - length h"
              using True us le b8 wf_eat(2) [OF wf h(2)] by (simp_all add: avail_def)
            then have "avail (length (h @ c)) s" using l h(2) by (auto simp: avail_def)
            moreover have "take (length (h @ c)) (st_in s) = h @ c"
              using l h(3) by (simp add: c_def take_add)
            ultimately have "consumed s (h @ c) (eat (unat sz) ?s)"
              by (rule consumed_eat [OF wf]) (simp_all add: l arm_def eat_def algebra_simps)
            moreover have "be_nat c < 2 ^ bits"
            proof -
              have "be_nat c < 256 ^ length c" by (rule be_nat_less)
              also have "(256::nat) ^ length c \<le> 256 ^ (bits div 8)" using l le by (intro power_increasing) simp_all
              also have "\<dots> = 2 ^ bits" by (subst (2) b8(3)) (simp add: power_mult)
              finally show ?thesis .
            qed
            ultimately show ?thesis
              using KString False ru nsmall uint_content [OF c0(2,1,3) nsmall] be_nat_short [OF c0(2)] e l
              by (simp add: outcome_def word_less_nat_alt)
          qed
        next
          case f: False
          with readUint_cases [OF wf' pos] KString False show ?thesis by (auto simp: outcome_def)
        qed
      qed
    qed (use KString in \<open>simp add: outcome_err\<close>)
  next
    case KList
    then show ?thesis by (simp add: outcome_err)
  qed
qed

lemma Bool_outcome:
  assumes "ready s"
  shows "outcome s (\<lambda>b. rlp_str (big_bytes (of_bool b))) (\<lambda>_. True) (Stream_Bool s)"
  unfolding Stream_Bool_def
  by (rule outcome_bind [where m = "Stream_uint 8", OF uint_outcome [OF assms]]) (auto simp: wf_bits_def outcome_def dec_ret_def dec_err_def)

section \<open>Lists\<close>

text \<open>The stream inside a list whose content has \<open>n\<close> bytes, after its head \<open>h\<close>.\<close>

definition inside :: "nat \<Rightarrow> bytes \<Rightarrow> Stream \<Rightarrow> Stream" where
  "inside n h s = (eat (length h) s)\<lparr>st_size := 0, st_kinderr := None, st_byteval := 0,
     st_stack := \<lparr>lp_pos = 0, lp_size = of_nat n\<rparr> # bump (length h) (st_stack s)\<rparr>"

lemma inside_simps [simp]:
  "st_in (inside n h s) = drop (length h) (st_in s)" "st_kind (inside n h s) = None"
  "st_stack (inside n h s) = \<lparr>lp_pos = 0, lp_size = of_nat n\<rparr> # bump (length h) (st_stack s)"
  by (simp_all add: inside_def)

lemma ready_inside:
  assumes "ready s" "avail (length h) s" "n \<le> room (eat (length h) s)"
  shows "ready (inside n h s)" "room (inside n h s) = n" "n < 2 ^ 63"
proof -
  have wf: "wf_stream s" using assms by (simp add: ready_def)
  have w: "wf_stream (eat (length h) s)" by (rule wf_eat) fact+
  from room_less [OF w] assms(3) show n: "n < 2 ^ 63" by simp
  then have "unat (of_nat n :: u64) = n" by (intro unat_of_nat_u64) simp
  with w n show "ready (inside n h s)" "room (inside n h s) = n"
    by (auto simp: ready_def wf_stream_def inside_def room_def)
qed

lemma List_cases:
  assumes "ready s"
  obtains (ok) n h where "h = rlp_head 0xC0 0xF7 n" "avail (length h) s" "take (length h) (st_in s) = h"
      "n \<le> room (eat (length h) s)" "Stream_List s = (Ok (of_nat n), inside n h s)"
  | (eol) "at_end s" "Stream_List s = (Err EOL, s\<lparr>st_kinderr := None\<rparr>)"
  | (err) e s' where "Stream_List s = (Err e, s')" "e \<noteq> EOL"
  using assms
proof (cases rule: Kind_cases)
  case (ok k sz bv h)
  show ?thesis
  proof (cases "k = KList")
    case True
    with ok(1) have "h = rlp_head 0xC0 0xF7 (unat sz)" "bv = 0" by (simp_all add: is_head_def)
    with that(1) [of h "unat sz"] ok True show ?thesis
      by (simp add: Stream_List_def inside_def arm_def eat_def)
  next
    case False
    with that(3) ok show ?thesis by (simp add: Stream_List_def)
  qed
next
  case eol
  with that(2) show ?thesis by (simp add: Stream_List_def at_end_def)
next
  case (err e s')
  with that(3) show ?thesis by (simp add: Stream_List_def)
qed

lemma List_complete:
  assumes "ready s" "h = rlp_head 0xC0 0xF7 n" "avail (length h) s" "take (length h) (st_in s) = h"
    "n \<le> room (eat (length h) s)"
  shows "Stream_List s = (Ok (of_nat n), inside n h s)"
proof -
  have u: "unat (of_nat n :: u64) = n"
    by (rule unat_of_nat_u64) (use ready_inside(3) [OF assms(1,3,5)] in simp)
  have "is_head KList (of_nat n) 0 h" using assms(2) u by (simp add: is_head_def)
  from Kind_complete [OF assms(1) this assms(3,4)] u assms(5) show ?thesis
    by (simp add: Stream_List_def inside_def arm_def eat_def)
qed

lemma ListEnd_inside:
  assumes "ready s" "avail (length h) s" "take (length h) (st_in s) = h" "n \<le> room (eat (length h) s)"
    and "consumed (inside n h s) c s'"
  shows "if length c = n then \<exists>s''. Stream_ListEnd s' = (Ok (), s'') \<and> consumed s (h @ c) s''
    else \<exists>e s''. Stream_ListEnd s' = (Err e, s'') \<and> e \<noteq> EOL"
proof -
  note ri = ready_inside [OF assms(1,2,4)]
  have wf: "wf_stream s" using assms by (simp add: ready_def)
  have c: "length c \<le> n" "length h + length c \<le> length (st_in s)" "take (length c) (drop (length h) (st_in s)) = c"
    "st_in s' = drop (length (h @ c)) (st_in s)" "ready s'"
    "st_stack s' = \<lparr>lp_pos = of_nat (length c), lp_size = of_nat n\<rparr> # bump (length h) (st_stack s)"
    using assms(2,5) ri by (auto simp: consumed_def avail_def add.commute)
  have eq: "(of_nat (length c) :: u64) = of_nat n \<longleftrightarrow> length c = n"
    using c(1) ri(3) by (auto simp: word_unat_eq_iff unat_of_nat)
  show ?thesis
  proof (cases "length c = n")
    case True
    let ?s = "s'\<lparr>st_stack := bump (length h + n) (st_stack s), st_kind := None, st_size := 0\<rparr>"
    have a: "avail (length (h @ c)) s" using c(1,2) True assms(2,4) wf_eat(2) [OF wf assms(2)] by (auto simp: avail_def)
    have "wf_stream (eat (length (h @ c)) s)" by (rule wf_eat [OF wf a])
    then have "ready ?s" using c(4,5) True by (simp add: ready_def wf_stream_def)
    then have "consumed s (h @ c) ?s"
      using a c(3,4) True assms(3) by (simp add: consumed_def take_add)
    moreover have "Stream_ListEnd s' = (Ok (), ?s)"
      by (cases "st_stack s") (use c(6) eq True in \<open>simp_all add: Stream_ListEnd_def add.assoc\<close>)
    ultimately show ?thesis using True by auto
  qed (use c(6) eq in \<open>simp add: Stream_ListEnd_def\<close>)
qed

text \<open>The outcome of a decoder for a list, from that of the decoder of its content.\<close>

definition seq_outcome :: "Stream \<Rightarrow> (rval list \<Rightarrow> bool) \<Rightarrow> (rlp_error, rval list) res \<times> Stream \<Rightarrow> bool" where
  "seq_outcome s P r \<longleftrightarrow>
     (case r of
        (Ok vs, s') \<Rightarrow> P vs \<and> consumed s (concat (map enc_rval vs)) s'
      | (Err e, s') \<Rightarrow> e \<noteq> EOL
      | _ \<Rightarrow> False)"

definition list_dec :: "(u64 \<Rightarrow> rval list dec) \<Rightarrow> rval dec" where
  "list_dec body = dec_bind Stream_List (\<lambda>sz. dec_bind (body sz) (\<lambda>vs. dec_bind Stream_ListEnd (\<lambda>_. dec_ret (ListV vs))))"

lemma list_outcome:
  assumes "ready s"
    and body: "\<And>sz s1. ready s1 \<Longrightarrow> st_stack s1 \<noteq> [] \<Longrightarrow> room s1 = unat sz \<Longrightarrow> length (st_in s1) < length (st_in s) \<Longrightarrow> seq_outcome s1 P (body sz s1)"
  shows "outcome s enc_rval (\<lambda>v. \<exists>vs. v = ListV vs \<and> P vs) (list_dec body s)"
  using assms(1)
proof (cases rule: List_cases)
  case (ok n h)
  note ri = ready_inside [OF assms(1) ok(2,4)]
  have "h \<noteq> []" using ok(1) by simp
  then have l: "length (st_in (inside n h s)) < length (st_in s)" using ok(2) by (cases h) (auto simp: avail_def)
  have u: "unat (of_nat n :: u64) = n" using ri(3) by (intro unat_of_nat_u64) simp
  have b: "seq_outcome (inside n h s) P (body (of_nat n) (inside n h s))"
    by (rule body) (use ri u l in simp_all)
  obtain r s' where r: "body (of_nat n) (inside n h s) = (r, s')" by fastforce
  show ?thesis
  proof (cases r)
    case (Ok vs)
    let ?c = "concat (map enc_rval vs)"
    have c: "consumed (inside n h s) ?c s'" "P vs" using b r Ok by (simp_all add: seq_outcome_def)
    have "enc_rval (ListV vs) = h @ ?c" if "length ?c = n"
      using that ok(1) by (simp add: rlp_list_def)
    with ListEnd_inside [OF assms(1) ok(2-4) c(1)] c(2) r Ok ok(5) show ?thesis
      by (cases "length ?c = n") (auto simp: list_dec_def outcome_def dec_ret_def)
  qed (use b r ok(5) in \<open>auto simp: seq_outcome_def list_dec_def outcome_def\<close>)
qed (auto simp: list_dec_def outcome_def)

lemma list_complete:
  assumes "ready s" "avail (length (enc_rval (ListV vs))) s" "take (length (enc_rval (ListV vs))) (st_in s) = enc_rval (ListV vs)"
    and body: "\<And>s1 sz. ready s1 \<Longrightarrow> st_stack s1 \<noteq> [] \<Longrightarrow> room s1 = length (concat (map enc_rval vs)) \<Longrightarrow> unat sz = room s1
      \<Longrightarrow> avail (length (concat (map enc_rval vs))) s1
      \<Longrightarrow> take (length (concat (map enc_rval vs))) (st_in s1) = concat (map enc_rval vs)
      \<Longrightarrow> length (st_in s1) < length (st_in s)
      \<Longrightarrow> \<exists>s'. body sz s1 = (Ok vs, s') \<and> consumed s1 (concat (map enc_rval vs)) s'"
  shows "\<exists>s'. list_dec body s = (Ok (ListV vs), s') \<and> consumed s (enc_rval (ListV vs)) s'"
proof -
  let ?c = "concat (map enc_rval vs)"
  define n where "n = length ?c"
  define h where "h = rlp_head 0xC0 0xF7 n"
  have e: "enc_rval (ListV vs) = h @ ?c" by (simp add: h_def n_def rlp_list_def)
  have wf: "wf_stream s" using assms by (simp add: ready_def)
  have h: "avail (length h) s" "take (length h) (st_in s) = h" "take (length ?c) (drop (length h) (st_in s)) = ?c"
    using assms(2,3) unfolding e by (auto simp: avail_def take_add)
  have n: "n \<le> room (eat (length h) s)" "length h + n \<le> length (st_in s)"
    using assms(2) wf_eat(2) [OF wf h(1)] unfolding e by (auto simp: avail_def n_def)
  note ri = ready_inside [OF assms(1) h(1) n(1)]
  have u: "unat (of_nat n :: u64) = n" using ri(3) by (intro unat_of_nat_u64) simp
  have "h \<noteq> []" by (simp add: h_def)
  then have l: "length (st_in (inside n h s)) < length (st_in s)" using h(1) by (cases h) (auto simp: avail_def)
  have "\<exists>s'. body (of_nat n) (inside n h s) = (Ok vs, s') \<and> consumed (inside n h s) ?c s'"
    by (rule body) (use ri u l n h(3) in \<open>simp_all add: n_def avail_def\<close>)
  then obtain s' where s': "body (of_nat n) (inside n h s) = (Ok vs, s')" "consumed (inside n h s) ?c s'" by blast
  from ListEnd_inside [OF assms(1) h(1,2) n(1) s'(2)] obtain s'' where
    "Stream_ListEnd s' = (Ok (), s'')" "consumed s (h @ ?c) s''" by (auto simp: n_def)
  with List_complete [OF assms(1) h_def h(1,2) n(1)] s'(1) e show ?thesis
    by (simp add: list_dec_def dec_ret_def)
qed

end
