(* ===== verification/Rlp_Decode.thy ===== *)
theory Rlp_Decode
  imports Rlp_Stream
begin

text \<open>
  The typed decoders of \<^verbatim>\<open>src/common/rlp/decode.go\<close>, on top of the stream of \<open>Rlp_Stream\<close>.  A decoded value is an
  \<open>rval\<close>, the value the encoder of \<open>Rlp\<close> takes; the Go type that the decoder is built for is an \<open>rtype\<close>, and the target
  of a decoder is a zero value.  A \<open>decodeError\<close> is the stream error it wraps: its type and context are for display
  only.  Decoding is shown to be the exact inverse of encoding, and to return on every input.
\<close>

section \<open>Decoders\<close>

datatype rtype =
    TRaw | TUint nat | TBool | TBig | TString | TByteSlice | TByteArray nat
  | TSlice rtype | TArray nat rtype
  | TStruct "rtype list"
  | TTail rtype            \<comment> \<open>the last field of a struct, with tag \<^verbatim>\<open>tail\<close>\<close>
  | TPtr rtype
  | TNilByteArray nat      \<comment> \<open>a pointer to a byte array, with tag \<^verbatim>\<open>nil\<close>\<close>
  | TNilStruct "rtype list" \<comment> \<open>a pointer to a struct, with tag \<^verbatim>\<open>nil\<close>\<close>
  | TInterface

definition decodeRawValue :: "rval dec" where
  "decodeRawValue = dec_bind Stream_Raw (\<lambda>r. dec_ret (RawV r))"

definition decodeUint :: "nat \<Rightarrow> rval dec" where
  "decodeUint bits = dec_bind (Stream_uint bits) (\<lambda>num. dec_ret (UintV num))"

definition decodeBool :: "rval dec" where
  "decodeBool = dec_bind Stream_Bool (\<lambda>b. dec_ret (BoolV b))"

definition decodeString :: "rval dec" where
  "decodeString = dec_bind Stream_Bytes (\<lambda>b. dec_ret (StringV b))"

definition decodeBigInt :: "rval dec" where
  "decodeBigInt =
     dec_bind Stream_Bytes (\<lambda>b.
       if length b > 0 \<and> b ! 0 = 0 then dec_err ErrCanonInt else dec_ret (BigV (Some (int (be_nat b)))))"

definition decodeByteSlice :: "rval dec" where
  "decodeByteSlice = dec_bind Stream_Bytes (\<lambda>b. dec_ret (BytesV b))"

text \<open>For a single byte the error of \<open>Uint\<close> is dropped, and its result is then zero.\<close>

definition decodeByteArray :: "nat \<Rightarrow> rval dec" where
  "decodeByteArray vlen =
     dec_bind Stream_Kind (\<lambda>(kind, sz).
       case kind of
         KByte \<Rightarrow>
           if vlen = 0 then dec_err ErrInputTooLong
           else if vlen > 1 then dec_err ErrInputTooShort
           else (\<lambda>s. case Stream_Uint s of
                       (Ok bv, s') \<Rightarrow> (Ok (BytesV [ucast bv]), s')
                     | (Err e, s') \<Rightarrow> (Ok (BytesV [0]), s')
                     | (Panic, s') \<Rightarrow> (Panic, s')
                     | (Diverge, s') \<Rightarrow> (Diverge, s'))
       | KString \<Rightarrow>
           if vlen < unat sz then dec_err ErrInputTooLong
           else if vlen > unat sz then dec_err ErrInputTooShort
           else dec_bind (readFull (of_nat vlen)) (\<lambda>b.
             if sz = 1 \<and> b ! 0 < 128 then dec_err ErrCanonSize else dec_ret (BytesV b))
       | KList \<Rightarrow> dec_err ErrExpectedString)"

text \<open>The loop over the elements of a slice ends at the end of the list; \<open>acc\<close> are the elements so far.\<close>

fun decodeSliceElems :: "nat \<Rightarrow> rval dec \<Rightarrow> rval list \<Rightarrow> rval list dec" where
  "decodeSliceElems 0 elemdec acc s = (Diverge, s)"
| "decodeSliceElems (Suc n) elemdec acc s =
     (case elemdec s of
        (Ok v, s') \<Rightarrow> decodeSliceElems n elemdec (acc @ [v]) s'
      | (Err e, s') \<Rightarrow> if e = EOL then (Ok acc, s') else (Err e, s')
      | (Panic, s') \<Rightarrow> (Panic, s')
      | (Diverge, s') \<Rightarrow> (Diverge, s'))"

definition decodeListSlice :: "nat \<Rightarrow> rval dec \<Rightarrow> rval dec" where
  "decodeListSlice n elemdec =
     dec_bind Stream_List (\<lambda>sz.
       if sz = 0 then dec_bind Stream_ListEnd (\<lambda>_. dec_ret (ListV []))
       else dec_bind (decodeSliceElems n elemdec []) (\<lambda>vs. dec_bind Stream_ListEnd (\<lambda>_. dec_ret (ListV vs))))"

text \<open>A fixed sequence of decoders, one per element of an array or field of a struct; \<open>EOL\<close> means too few elements.\<close>

fun decode_seq :: "rval dec list \<Rightarrow> rval list dec" where
  "decode_seq [] s = (Ok [], s)"
| "decode_seq (d # ds) s =
     (case d s of
        (Ok v, s') \<Rightarrow> dec_bind (decode_seq ds) (\<lambda>vs. dec_ret (v # vs)) s'
      | (Err e, s') \<Rightarrow> (Err (if e = EOL then ErrTooFewElements else e), s')
      | (Panic, s') \<Rightarrow> (Panic, s')
      | (Diverge, s') \<Rightarrow> (Diverge, s'))"

definition decodeListArray :: "nat \<Rightarrow> rval dec \<Rightarrow> rval dec" where
  "decodeListArray vlen elemdec =
     dec_bind Stream_List (\<lambda>_.
     dec_bind (decode_seq (replicate vlen elemdec)) (\<lambda>vs.
     dec_bind Stream_ListEnd (\<lambda>_. dec_ret (ListV vs))))"

definition decodeStruct :: "rval dec list \<Rightarrow> rval dec" where
  "decodeStruct fs =
     dec_bind Stream_List (\<lambda>_.
     dec_bind (decode_seq fs) (\<lambda>vs.
     dec_bind Stream_ListEnd (\<lambda>_. dec_ret (ListV vs))))"

definition decodeOptionalPtr :: "rval \<Rightarrow> rval dec \<Rightarrow> rval dec" where
  "decodeOptionalPtr nilv elemdec s =
     (case Stream_Kind s of
        (Ok (kind, sz), s') \<Rightarrow> if sz = 0 \<and> kind \<noteq> KByte then (Ok nilv, rearm s') else elemdec s'
      | (Err e, s') \<Rightarrow> (Err e, rearm s')
      | (Panic, s') \<Rightarrow> (Panic, s')
      | (Diverge, s') \<Rightarrow> (Diverge, s'))"

text \<open>A nil pointer is set to a new element first.\<close>

definition decodePtr :: "rval dec \<Rightarrow> rval dec" where
  "decodePtr elemdec s = elemdec s"

text \<open>\<open>self\<close> is the decoder itself, for the elements of a list.\<close>

definition decodeInterface :: "nat \<Rightarrow> rval dec \<Rightarrow> rval dec" where
  "decodeInterface n self =
     dec_bind Stream_Kind (\<lambda>(kind, sz).
       if kind = KList then decodeListSlice n self
       else dec_bind Stream_Bytes (\<lambda>b. dec_ret (BytesV b)))"

text \<open>
  \<open>makeDecoder\<close> and the decoder it makes.  The fuel bounds the
  nesting of decoders and the number of elements of each slice.
\<close>

fun decode_val :: "nat \<Rightarrow> rtype \<Rightarrow> rval dec" where
  "decode_val 0 t = (\<lambda>s. (Diverge, s))"
| "decode_val (Suc n) TRaw = decodeRawValue"
| "decode_val (Suc n) (TUint bits) = decodeUint bits"
| "decode_val (Suc n) TBool = decodeBool"
| "decode_val (Suc n) TBig = decodeBigInt"
| "decode_val (Suc n) TString = decodeString"
| "decode_val (Suc n) TByteSlice = decodeByteSlice"
| "decode_val (Suc n) (TByteArray k) = decodeByteArray k"
| "decode_val (Suc n) (TSlice t) = decodeListSlice n (decode_val n t)"
| "decode_val (Suc n) (TArray k t) = decodeListArray k (decode_val n t)"
| "decode_val (Suc n) (TStruct ts) = decodeStruct (map (decode_val n) ts)"
| "decode_val (Suc n) (TTail t) = dec_bind (decodeSliceElems n (decode_val n t) []) (\<lambda>vs. dec_ret (TailV vs))"
| "decode_val (Suc n) (TPtr t) = decodePtr (decode_val n t)"
| "decode_val (Suc n) (TNilByteArray k) = decodeOptionalPtr NilByteArrayPtrV (decodeByteArray k)"
| "decode_val (Suc n) (TNilStruct ts) = decodeOptionalPtr NilStructPtrV (decodeStruct (map (decode_val n) ts))"
| "decode_val (Suc n) TInterface = decodeInterface n (decode_val n TInterface)"

lemma decodePtr_eq [simp]: "decodePtr d = d"
  by (simp add: decodePtr_def fun_eq_iff)

definition DecodeBytes :: "nat \<Rightarrow> rtype \<Rightarrow> bytes \<Rightarrow> (rlp_error, rval) res" where
  "DecodeBytes fuel t b =
     (case decode_val fuel t (NewStream b True (of_nat (length b))) of
        (Ok v, s) \<Rightarrow> if length (st_in s) > 0 then Err ErrMoreThanOneValue else Ok v
      | (r, s) \<Rightarrow> r)"


section \<open>Types of values\<close>

fun has_type :: "rtype \<Rightarrow> rval \<Rightarrow> bool" where
  "has_type TRaw v = (case v of RawV b \<Rightarrow> raw_ok b | _ \<Rightarrow> False)"
| "has_type (TUint bits) v = (case v of UintV i \<Rightarrow> unat i < 2 ^ bits | _ \<Rightarrow> False)"
| "has_type TBool v = (case v of BoolV b \<Rightarrow> True | _ \<Rightarrow> False)"
| "has_type TBig v = (case v of BigV (Some i) \<Rightarrow> 0 \<le> i | _ \<Rightarrow> False)"
| "has_type TString v = (case v of StringV b \<Rightarrow> True | _ \<Rightarrow> False)"
| "has_type TByteSlice v = (case v of BytesV b \<Rightarrow> True | _ \<Rightarrow> False)"
| "has_type (TByteArray k) v = (case v of BytesV b \<Rightarrow> length b = k | _ \<Rightarrow> False)"
| "has_type (TSlice t) v = (case v of ListV vs \<Rightarrow> list_all (has_type t) vs | _ \<Rightarrow> False)"
| "has_type (TArray k t) v = (case v of ListV vs \<Rightarrow> length vs = k \<and> list_all (has_type t) vs | _ \<Rightarrow> False)"
| "has_type (TStruct ts) v = (case v of ListV vs \<Rightarrow> list_all2 has_type ts vs | _ \<Rightarrow> False)"
| "has_type (TTail t) v = (case v of TailV vs \<Rightarrow> list_all (has_type t) vs | _ \<Rightarrow> False)"
| "has_type (TPtr t) v = has_type t v"
| "has_type (TNilByteArray k) v = (case v of NilByteArrayPtrV \<Rightarrow> True | BytesV b \<Rightarrow> length b = k | _ \<Rightarrow> False)"
| "has_type (TNilStruct ts) v = (case v of NilStructPtrV \<Rightarrow> True | ListV vs \<Rightarrow> list_all2 has_type ts vs | _ \<Rightarrow> False)"
| "has_type TInterface v = (case v of BytesV b \<Rightarrow> True | ListV vs \<Rightarrow> list_all (has_type TInterface) vs | _ \<Rightarrow> False)"

text \<open>
  The types of the main theorems: the bit sizes are those of Go, and the byte array of length one, the tail and the
  optional pointer, whose decoders do not determine the encoding, are left out.
\<close>

fun plain :: "rtype \<Rightarrow> bool" where
  "plain (TUint bits) = wf_bits bits"
| "plain (TByteArray k) = (k \<noteq> 1 \<and> k < 2 ^ 63)"
| "plain (TSlice t) = plain t"
| "plain (TArray k t) = plain t"
| "plain (TStruct ts) = list_all plain ts"
| "plain (TTail t) = False"
| "plain (TPtr t) = plain t"
| "plain (TNilByteArray k) = False"
| "plain (TNilStruct ts) = False"
| "plain _ = True"

fun depth :: "rtype \<Rightarrow> nat" where
  "depth (TSlice t) = Suc (depth t)"
| "depth (TArray k t) = Suc (depth t)"
| "depth (TStruct ts) = Suc (Max (set (0 # map depth ts)))"
| "depth (TTail t) = Suc (depth t)"
| "depth (TPtr t) = Suc (depth t)"
| "depth (TNilStruct ts) = Suc (Max (set (0 # map depth ts)))"
| "depth _ = 0"

section \<open>Every decoder returns, and what it accepts is an encoding\<close>

lemma rlp_str_not_Nil [simp]: "rlp_str b \<noteq> []"
  by (auto simp: rlp_str_def)

lemma rlp_list_not_Nil [simp]: "rlp_list b \<noteq> []"
  by (simp add: rlp_list_def)

lemma enc_not_Nil: "plain t \<Longrightarrow> has_type t v \<Longrightarrow> enc_rval v \<noteq> []"
  by (induction t v rule: has_type.induct) (auto simp: raw_ok_def split: rval.splits option.splits)

lemma consumed_kinderr: "ready s \<Longrightarrow> consumed s [] (s\<lparr>st_kinderr := e\<rparr>)"
  using consumed_refl [of s] by (simp add: consumed_def ready_def)

lemma consumed_length:
  assumes "consumed s bs s'"
  shows "length (st_in s') = length (st_in s) - length bs" "length bs \<le> length (st_in s)"
  using assms by (simp_all add: consumed_def avail_def)

lemma SliceElems_outcome:
  assumes elem: "\<And>s. ready s \<Longrightarrow> length (st_in s) \<le> L \<Longrightarrow> outcome s enc_rval P (d s)"
    and ne: "\<And>v. P v \<Longrightarrow> enc_rval v \<noteq> []"
  shows "ready s \<Longrightarrow> length (st_in s) \<le> L \<Longrightarrow> length (st_in s) < n \<Longrightarrow>
    (case decodeSliceElems n d acc s of
       (Ok vs, s') \<Rightarrow> \<exists>ws. vs = acc @ ws \<and> list_all P ws \<and> consumed s (concat (map enc_rval ws)) s'
     | (Err e, s') \<Rightarrow> e \<noteq> EOL
     | _ \<Rightarrow> False)"
proof (induction n arbitrary: acc s)
  case (Suc n)
  note o = elem [OF Suc.prems(1,2)]
  obtain r s1 where r: "d s = (r, s1)" by fastforce
  show ?case
  proof (cases r)
    case (Ok v)
    with o r have v: "P v" "consumed s (enc_rval v) s1" by (simp_all add: outcome_def)
    note l = consumed_length [OF v(2)]
    have "0 < length (enc_rval v)" using ne [OF v(1)] by simp
    with l Suc.prems have "length (st_in s1) \<le> L" "length (st_in s1) < n" by linarith+
    note ih = Suc.IH [OF consumed_ready [OF v(2)] this, of "acc @ [v]"]
    obtain r2 s2 where r2: "decodeSliceElems n d (acc @ [v]) s1 = (r2, s2)" by fastforce
    show ?thesis
    proof (cases r2)
      case (Ok vs)
      with ih r2 obtain ws where w: "vs = (acc @ [v]) @ ws" "list_all P ws" "consumed s1 (concat (map enc_rval ws)) s2" by auto
      have "wf_stream s" using Suc.prems(1) by (simp add: ready_def)
      from consumed_trans [OF v(2) w(3) this] w(1,2) v(1) r r2 Ok \<open>r = Ok v\<close> show ?thesis
        by (auto intro!: exI [of _ "v # ws"])
    qed (use ih r2 r Ok in auto)
  next
    case (Err e)
    with o r have "e = EOL \<Longrightarrow> s1 = s\<lparr>st_kinderr := None\<rparr>" by (simp add: outcome_def)
    with Err r consumed_kinderr [OF Suc.prems(1), of None] show ?thesis by auto
  qed (use o r in \<open>simp_all add: outcome_def\<close>)
qed simp

lemma decode_seq_outcome:
  assumes "list_all2 (\<lambda>d P. \<forall>s. ready s \<longrightarrow> length (st_in s) \<le> L \<longrightarrow> outcome s enc_rval P (d s)) ds Ps"
  shows "ready s \<Longrightarrow> length (st_in s) \<le> L \<Longrightarrow> seq_outcome s (list_all2 (\<lambda>P v. P v) Ps) (decode_seq ds s)"
  using assms
proof (induction ds Ps arbitrary: s rule: list_all2_induct)
  case Nil
  then show ?case by (simp add: seq_outcome_def consumed_refl)
next
  case (Cons d ds P Ps)
  then have o: "outcome s enc_rval P (d s)" by blast
  obtain r s1 where r: "d s = (r, s1)" by fastforce
  show ?case
  proof (cases r)
    case (Ok v)
    with o r have v: "P v" "consumed s (enc_rval v) s1" by (simp_all add: outcome_def)
    have "length (st_in s1) \<le> L" using consumed_length [OF v(2)] Cons.prems(2) by simp
    from Cons.IH [OF consumed_ready [OF v(2)] this] consumed_trans [OF v(2)] Cons.prems(1) r Ok v(1) show ?thesis
      by (auto simp: seq_outcome_def ready_def dec_ret_def split: prod.splits res.splits)
  qed (use o r in \<open>simp_all add: outcome_def seq_outcome_def\<close>)
qed

lemma decodeListSlice_list_dec:
  "decodeListSlice n d = list_dec (\<lambda>sz. if sz = 0 then dec_ret [] else decodeSliceElems n d [])"
  by (auto simp: decodeListSlice_def list_dec_def dec_ret_def fun_eq_iff split: res.splits prod.splits)

lemma ListSlice_outcome:
  assumes "ready s" "length (st_in s) \<le> n"
    and "\<And>s'. ready s' \<Longrightarrow> length (st_in s') < length (st_in s) \<Longrightarrow> outcome s' enc_rval P (d s')"
    and "\<And>v. P v \<Longrightarrow> enc_rval v \<noteq> []"
  shows "outcome s enc_rval (\<lambda>v. \<exists>vs. v = ListV vs \<and> list_all P vs) (decodeListSlice n d s)"
  unfolding decodeListSlice_list_dec
proof (rule list_outcome [OF assms(1)])
  fix sz s1
  assume s1: "ready s1" "length (st_in s1) < length (st_in s)"
  have "case decodeSliceElems n d [] s1 of
       (Ok vs, s') \<Rightarrow> \<exists>ws. vs = [] @ ws \<and> list_all P ws \<and> consumed s1 (concat (map enc_rval ws)) s'
     | (Err e, s') \<Rightarrow> e \<noteq> EOL
     | _ \<Rightarrow> False"
    by (rule SliceElems_outcome [where L = "length (st_in s) - 1"]) (use assms s1 in auto)
  then show "seq_outcome s1 (list_all P) ((if sz = 0 then dec_ret [] else decodeSliceElems n d []) s1)"
    using consumed_refl [OF s1(1)] by (auto simp: seq_outcome_def dec_ret_def split: prod.splits res.splits)
qed

lemma ByteArray_outcome:
  assumes "ready s" "k \<noteq> 1"
  shows "outcome s enc_rval (\<lambda>v. \<exists>b. v = BytesV b \<and> length b = k) (decodeByteArray k s)"
  unfolding decodeByteArray_def
proof (rule outcome_Kind [OF assms(1)], goal_cases)
  case (1 kind sz bv h)
  have wf: "wf_stream s" using assms(1) by (simp add: ready_def)
  show ?case
  proof (cases kind)
    case KByte
    with assms(2) show ?thesis by (simp add: outcome_err)
  next
    case KString
    show ?thesis
    proof (cases "k = unat sz")
      case True
      then have "(of_nat k :: u64) = sz" by simp
      with content_cases [OF wf 1(2,3), of sz kind bv] show ?thesis
      proof (elim disjE exE conjE)
        fix c s'
        assume c: "length c = unat sz" "readFull sz (arm kind sz bv (eat (length h) s)) = (Ok c, s')" "consumed s (h @ c) s'"
        have "rlp_str c = h @ c"
          using rlp_str_head [of c] c(1) 1(1) KString True assms(2) by (simp add: is_head_def)
        with c True \<open>of_nat k = sz\<close> KString assms(2) show ?thesis by (auto simp: outcome_def dec_ret_def)
      qed (use True KString in \<open>simp add: outcome_def\<close>)
    qed (use KString in \<open>auto simp: outcome_err\<close>)
  next
    case KList
    then show ?thesis by (simp add: outcome_err)
  qed
qed

lemma decode_interface:
  assumes "ready s"
  shows "decode_val (Suc n) TInterface s =
    (if \<exists>sz s1. Stream_Kind s = (Ok (KList, sz), s1) then decodeListSlice n (decode_val n TInterface) s else decodeByteSlice s)"
  using assms
proof (cases rule: Kind_cases)
  case (ok k sz bv h)
  let ?s = "arm k sz bv (eat (length h) s)"
  have same: "dec_bind Stream_Kind f s = dec_bind Stream_Kind f ?s" for f :: "Kind \<times> u64 \<Rightarrow> 'b dec"
    using ok(5) by simp
  have "Stream_List s = Stream_List ?s" "Stream_Bytes s = Stream_Bytes ?s"
    unfolding Stream_List_def Stream_Bytes_def by (rule same)+
  with ok(5) show ?thesis
    by (cases "k = KList") (simp_all add: decodeInterface_def decodeListSlice_def decodeByteSlice_def)
next
  case eol
  then show ?thesis by (simp add: decodeInterface_def decodeByteSlice_def Stream_Bytes_def)
next
  case (err e s')
  then show ?thesis by (simp add: decodeInterface_def decodeByteSlice_def Stream_Bytes_def)
qed

lemma outcome_mono: "outcome s enc P r \<Longrightarrow> (\<And>v. P v \<Longrightarrow> Q v) \<Longrightarrow> outcome s enc Q r"
  by (auto simp: outcome_def split: prod.splits res.splits)

lemma depth_field: "t \<in> set ts \<Longrightarrow> depth t < depth (TStruct ts)"
  by (auto simp: less_Suc_eq_le intro!: Max_ge)

lemma list_all2_map_has_type: "list_all2 (\<lambda>P v. P v) (map has_type ts) vs \<longleftrightarrow> list_all2 has_type ts vs"
  by (simp add: list_all2_map1)

lemma decode_outcome:
  "plain t \<Longrightarrow> ready s \<Longrightarrow> length (st_in s) + depth t + 1 < n \<Longrightarrow> outcome s enc_rval (has_type t) (decode_val n t s)"
proof (induction n arbitrary: t s)
  case (Suc n)
  show ?case
  proof (cases t)
    case TRaw
    show ?thesis unfolding TRaw decode_val.simps decodeRawValue_def
      by (rule outcome_bind [where m = Stream_Raw, OF Raw_outcome [OF Suc.prems(2)]]) (simp add: outcome_def dec_ret_def)
  next
    case (TUint bits)
    with Suc.prems(1) have b: "wf_bits bits" by simp
    show ?thesis unfolding TUint decode_val.simps decodeUint_def
      by (rule outcome_bind [where m = "Stream_uint bits", OF uint_outcome [OF Suc.prems(2) b]]) (simp add: outcome_def dec_ret_def)
  next
    case TBool
    show ?thesis unfolding TBool decode_val.simps decodeBool_def
      by (rule outcome_bind [where m = Stream_Bool, OF Bool_outcome [OF Suc.prems(2)]]) (simp add: outcome_def dec_ret_def)
  next
    case TBig
    show ?thesis unfolding TBig decode_val.simps decodeBigInt_def
    proof (rule outcome_bind [where m = Stream_Bytes, OF Bytes_outcome [OF Suc.prems(2)]])
      fix b s'
      assume c: "consumed s (rlp_str b) s'"
      have "big_bytes (be_nat b) = b" if "\<not> (length b > 0 \<and> b ! 0 = 0)"
        by (rule big_bytes_be_nat) (use that in \<open>auto simp: hd_conv_nth\<close>)
      with c show "outcome s enc_rval (has_type TBig)
          ((if length b > 0 \<and> b ! 0 = 0 then dec_err ErrCanonInt else dec_ret (BigV (Some (int (be_nat b))))) s')"
        by (auto simp: outcome_def dec_ret_def dec_err_def)
    qed
  next
    case TString
    show ?thesis unfolding TString decode_val.simps decodeString_def
      by (rule outcome_bind [where m = Stream_Bytes, OF Bytes_outcome [OF Suc.prems(2)]]) (simp add: outcome_def dec_ret_def)
  next
    case TByteSlice
    show ?thesis unfolding TByteSlice decode_val.simps decodeByteSlice_def
      by (rule outcome_bind [where m = Stream_Bytes, OF Bytes_outcome [OF Suc.prems(2)]]) (simp add: outcome_def dec_ret_def)
  next
    case (TByteArray k)
    with Suc.prems(1) have "k \<noteq> 1" by simp
    then show ?thesis unfolding TByteArray decode_val.simps
      by (rule outcome_mono [OF ByteArray_outcome [OF Suc.prems(2)]]) auto
  next
    case (TSlice t')
    have "outcome s enc_rval (\<lambda>v. \<exists>vs. v = ListV vs \<and> list_all (has_type t') vs) (decodeListSlice n (decode_val n t') s)"
      by (rule ListSlice_outcome) (use Suc TSlice enc_not_Nil [of t'] in auto)
    then show ?thesis unfolding TSlice decode_val.simps by (rule outcome_mono) auto
  next
    case (TArray k t')
    have "outcome s enc_rval (\<lambda>v. \<exists>vs. v = ListV vs \<and> list_all2 (\<lambda>P v. P v) (replicate k (has_type t')) vs)
        (list_dec (\<lambda>_. decode_seq (replicate k (decode_val n t'))) s)"
    proof (rule list_outcome [OF Suc.prems(2)], rule decode_seq_outcome)
      show "list_all2 (\<lambda>d P. \<forall>s'. ready s' \<longrightarrow> length (st_in s') \<le> length (st_in s) - 1 \<longrightarrow> outcome s' enc_rval P (d s'))
          (replicate k (decode_val n t')) (replicate k (has_type t'))"
        using Suc TArray by (auto simp: list_all2_conv_all_nth)
    qed auto
    then show ?thesis unfolding TArray decode_val.simps decodeListArray_def list_dec_def
      by (rule outcome_mono) (auto simp: list_all2_conv_all_nth list_all_length)
  next
    case (TStruct ts)
    have "outcome s enc_rval (\<lambda>v. \<exists>vs. v = ListV vs \<and> list_all2 (\<lambda>P v. P v) (map has_type ts) vs)
        (list_dec (\<lambda>_. decode_seq (map (decode_val n) ts)) s)"
    proof (rule list_outcome [OF Suc.prems(2)], rule decode_seq_outcome)
      have "outcome s' enc_rval (has_type t') (decode_val n t' s')"
        if "t' \<in> set ts" "ready s'" "length (st_in s') \<le> length (st_in s) - 1" for t' s'
        by (rule Suc.IH) (use that Suc.prems TStruct depth_field [OF that(1)] in \<open>auto simp: list_all_iff simp del: depth.simps\<close>)
      then show "list_all2 (\<lambda>d P. \<forall>s'. ready s' \<longrightarrow> length (st_in s') \<le> length (st_in s) - 1 \<longrightarrow> outcome s' enc_rval P (d s'))
          (map (decode_val n) ts) (map has_type ts)"
        by (auto simp: list_all2_conv_all_nth)
    qed auto
    then show ?thesis unfolding TStruct decode_val.simps decodeStruct_def list_dec_def list_all2_map_has_type
      by (rule outcome_mono) auto
  next
    case (TPtr t')
    with Suc show ?thesis by (auto simp: outcome_def split: prod.splits res.splits)
  next
    case TInterface
    have l: "outcome s enc_rval (\<lambda>v. \<exists>vs. v = ListV vs \<and> list_all (has_type TInterface) vs)
        (decodeListSlice n (decode_val n TInterface) s)"
      by (rule ListSlice_outcome) (use Suc TInterface enc_not_Nil [of TInterface] in auto)
    have b: "outcome s enc_rval (has_type TInterface) (decodeByteSlice s)"
      unfolding decodeByteSlice_def
      by (rule outcome_bind [where m = Stream_Bytes, OF Bytes_outcome [OF Suc.prems(2)]]) (simp add: outcome_def dec_ret_def)
    have "outcome s enc_rval (has_type TInterface) (decodeListSlice n (decode_val n TInterface) s)"
      by (rule outcome_mono [OF l]) auto
    with b show ?thesis unfolding TInterface decode_interface [OF Suc.prems(2)] by (simp del: has_type.simps)
  qed (use Suc.prems(1) in simp_all)
qed simp

section \<open>Every encoding is accepted\<close>

definition holds :: "bytes \<Rightarrow> Stream \<Rightarrow> bool" where
  "holds bs s \<longleftrightarrow> avail (length bs) s \<and> take (length bs) (st_in s) = bs"

definition accepts :: "'a dec \<Rightarrow> Stream \<Rightarrow> 'a \<Rightarrow> bytes \<Rightarrow> bool" where
  "accepts d s v bs \<longleftrightarrow> (\<exists>s'. d s = (Ok v, s') \<and> consumed s bs s')"

lemma accepts_bind:
  assumes "accepts m s v bs" "\<And>s'. f v s' = (Ok w, s')"
  shows "accepts (dec_bind m f) s w bs"
  using assms by (auto simp: accepts_def)

lemma Kind_content:
  assumes "ready s" "holds (h @ c) s"
    and "k = KString \<and> h = rlp_head 0x80 0xB7 (length c) \<or> k = KList \<and> h = rlp_head 0xC0 0xF7 (length c)"
  shows "Stream_Kind s = (Ok (k, of_nat (length c)), arm k (of_nat (length c)) 0 (eat (length h) s))"
    and "unat (of_nat (length c) :: u64) = length c" and "length h + length c < 2 ^ 63"
proof -
  have wf: "wf_stream s" using assms(1) by (simp add: ready_def)
  have h: "avail (length h) s" "take (length h) (st_in s) = h" "length h + length c \<le> room s"
    using assms(2) by (auto simp: holds_def avail_def take_add)
  from h(3) room_less [OF wf] show 2: "length h + length c < 2 ^ 63" by linarith
  then show 1: "unat (of_nat (length c) :: u64) = length c" by (intro unat_of_nat_u64) simp
  have "is_head k (of_nat (length c)) 0 h" using assms(3) 1 by (auto simp: is_head_def)
  from Kind_complete [OF assms(1) this h(1,2)] wf_eat(2) [OF wf h(1)] h(3) 1
  show "Stream_Kind s = (Ok (k, of_nat (length c)), arm k (of_nat (length c)) 0 (eat (length h) s))" by simp
qed

lemma Kind_byte:
  assumes "ready s" "holds [b] s" "b < 128"
  shows "Stream_Kind s = (Ok (KByte, 0), arm KByte 0 b (eat 1 s))"
  using Kind_complete [OF assms(1), of KByte 0 b "[b]"] assms by (simp add: is_head_def holds_def)

lemma holds_content:
  assumes "ready s" "holds (h @ c) s" "sz = of_nat (length c)" "unat sz = length c"
  shows "\<exists>s'. readFull sz (arm k sz bv (eat (length h) s)) = (Ok c, s') \<and> consumed s (h @ c) s'"
  using assms by (intro content_complete) (simp_all add: holds_def ready_def)

lemma Bytes_complete:
  assumes "ready s" "holds (rlp_str b) s"
  shows "accepts Stream_Bytes s b (rlp_str b)"
proof (cases "length b = 1 \<and> b ! 0 < 128")
  case True
  then obtain x where x: "b = [x]" "x < 128" by (cases b) auto
  have "consumed s [x] (rearm (arm KByte 0 x (eat (length [x]) s)))"
    by (rule rearm_byte) (use assms x in \<open>simp_all add: ready_def holds_def rlp_str_byte\<close>)
  with Kind_byte [OF assms(1) _ x(2)] assms(2) x show ?thesis
    by (simp add: accepts_def Stream_Bytes_def rlp_str_byte)
next
  case False
  let ?h = "rlp_head 0x80 0xB7 (length b)"
  have e: "rlp_str b = ?h @ b" by (rule rlp_str_head) fact
  note k = Kind_content [OF assms(1) assms(2) [unfolded e], of KString]
  obtain s' where "readFull (of_nat (length b)) (arm KString (of_nat (length b)) 0 (eat (length ?h) s)) = (Ok b, s')" "consumed s (?h @ b) s'"
    using holds_content [OF assms(1) assms(2) [unfolded e] refl, of KString 0] k(2) by auto
  with k False e show ?thesis
    by (auto simp: accepts_def Stream_Bytes_def makeslice_def dec_ret_def dec_err_def word_unat_eq_iff)
qed

lemma Raw_complete:
  assumes "ready s" "holds b s" "raw_ok b"
  shows "accepts Stream_Raw s b b"
  using assms(3) unfolding raw_ok_def
proof (elim disjE exE conjE)
  fix x
  assume x: "x < 128" "b = [x]"
  have "consumed s [x] (rearm (arm KByte 0 x (eat (length [x]) s)))"
    by (rule rearm_byte) (use assms x in \<open>simp_all add: ready_def holds_def\<close>)
  with Kind_byte [OF assms(1) _ x(1)] assms(2) x show ?thesis by (simp add: accepts_def Stream_Raw_def)
next
  have *: ?thesis if "k = KString \<and> h = rlp_head 0x80 0xB7 (length c) \<or> k = KList \<and> h = rlp_head 0xC0 0xF7 (length c)" "b = h @ c" for k h c
  proof -
    let ?z = "of_nat (length c) :: u64"
    have hc: "holds (h @ c) s" using assms(2) that(2) by simp
    note k = Kind_content [OF assms(1) hc that(1)]
    obtain s' where s': "readFull ?z (arm k ?z 0 (eat (length h) s)) = (Ok c, s')" "consumed s (h @ c) s'"
      using holds_content [OF assms(1) hc refl, of k 0] k(2) by auto
    have e: "h = (if k = KString then puthead 0x80 0xB7 ?z else puthead 0xC0 0xF7 ?z)" using that(1) k(2) by (auto simp: puthead_head)
    then have "headsize ?z = length h" by (simp add: length_puthead)
    with k s' e that show ?thesis by (auto simp: accepts_def Stream_Raw_def makeslice_def dec_ret_def)
  qed
  fix c
  show "b = rlp_head 0x80 0xB7 (length c) @ c \<Longrightarrow> ?thesis" by (rule * [of KString]) auto
  show "b = rlp_head 0xC0 0xF7 (length c) @ c \<Longrightarrow> ?thesis" by (rule * [of KList]) auto
qed

lemma uint_complete:
  assumes "ready s" "wf_bits bits" "unat v < 2 ^ bits" "holds (rlp_str (big_bytes (unat v))) s"
  shows "accepts (Stream_uint bits) s v (rlp_str (big_bytes (unat v)))"
proof -
  have wf: "wf_stream s" using assms(1) by (simp add: ready_def)
  consider "v = 0" | "v \<noteq> 0" "v < 128" | "\<not> v < 128" by blast
  then show ?thesis
  proof cases
    case 1
    let ?s = "arm KString 0 0 (eat (length [0x80::byte]) s)"
    have e: "rlp_str (big_bytes (unat v)) = [0x80]" using 1 by (simp add: rlp_str_Nil)
    have "Stream_Kind s = (Ok (KString, 0), ?s)"
      by (rule Kind_complete) (use assms e in \<open>auto simp: is_head_def rlp_head_def holds_def\<close>)
    moreover have "consumed s [0x80] (?s\<lparr>st_kind := None\<rparr>)"
      by (rule consumed_eat [OF wf]) (use assms(4) e in \<open>simp_all add: holds_def arm_def\<close>)
    ultimately show ?thesis using 1 e by (simp add: accepts_def Stream_uint_def readUint_def)
  next
    case 2
    define b where "b = (ucast v :: byte)"
    have b: "unat b = unat v" using 2(2) by (simp add: b_def unsigned_ucast_eq take_bit_nat_eq_self word_less_nat_alt)
    have e: "rlp_str (big_bytes (unat v)) = [b]" using rlp_str_uint [OF 2(1)] 2(2) by (simp add: b_def)
    have b2: "b < 128" "b \<noteq> 0" "ucast b = v"
      using b 2 by (auto simp: word_less_nat_alt word_unat_eq_iff unsigned_ucast_eq take_bit_nat_eq_self)
    have "consumed s [b] (rearm (arm KByte 0 b (eat (length [b]) s)))"
      by (rule rearm_byte) (use assms e wf in \<open>simp_all add: holds_def\<close>)
    with Kind_byte [OF assms(1) _ b2(1)] assms(4) e b2 show ?thesis by (simp add: accepts_def Stream_uint_def)
  next
    case 3
    let ?c = "big_bytes (unat v)"
    let ?h = "rlp_head 0x80 0xB7 (length ?c)" and ?z = "of_nat (length ?c) :: u64"
    have v: "\<not> unat v < 128" using 3 by (simp add: word_less_nat_alt)
    then have e: "rlp_str ?c = ?h @ ?c" by (auto simp: rlp_str_def)
    have c: "?c \<noteq> []" "hd ?c \<noteq> 0" using v hd_big_bytes [of "unat v"] by auto
    have b8: "unat (of_nat (bits div 8) :: u64) = bits div 8" "bits div 8 \<le> 8" "bits = 8 * (bits div 8)"
      using assms(2) by (auto simp: wf_bits_def)
    have "(2::nat) ^ bits = 256 ^ (bits div 8)" by (subst b8(3)) (simp add: power_mult)
    with assms(3) have "unat v < 256 ^ (bits div 8)" by simp
    then have l: "length ?c \<le> bits div 8" by (rule length_big_bytes_le)
    note k = Kind_content [OF assms(1) assms(4) [unfolded e], of KString]
    let ?s = "arm KString ?z 0 (eat (length ?h) s)"
    have z: "unat (ucast ?z :: byte) = length ?c" using l b8(2) k(2) ucast_byte_small [of ?z] by simp
    have h: "avail (length ?h) s" "take (length ?h) (st_in s) = ?h" "length ?h + length ?c \<le> room s" "length ?h + length ?c \<le> length (st_in s)"
      "take (length ?c) (drop (length ?h) (st_in s)) = ?c"
      using assms(4) unfolding e by (auto simp: holds_def avail_def take_add)
    have av: "avail (length ?c) ?s" using h wf_eat(2) [OF wf h(1)] by (auto simp: avail_def)
    have "st_in ?s ! 0 \<noteq> 0" using h(5) c by (simp add: hd_conv_nth) (metis length_greater_0_conv nth_take c(1) hd_conv_nth)
    then have ru: "readUint (ucast ?z) ?s = (Ok v, eat (length ?c) ?s)"
      using readUint_cases [of ?s "ucast ?z"] wf_eat(1) [OF wf h(1)] z l b8(2) c(1) av h(5) by (simp add: Suc_le_eq)
    have "consumed s (?h @ ?c) (eat (length ?c) ?s)"
      by (rule consumed_eat [OF wf]) (use assms(4) e in \<open>auto simp: holds_def arm_def eat_def algebra_simps\<close>)
    with k ru e l b8 3 c(1) show ?thesis
      by (auto simp: accepts_def Stream_uint_def word_less_nat_alt)
  qed
qed

lemma Bool_complete:
  assumes "ready s" "holds (rlp_str (big_bytes (of_bool b))) s"
  shows "accepts Stream_Bool s b (rlp_str (big_bytes (of_bool b)))"
proof -
  have u: "unat (of_bool b :: u64) = of_bool b" by simp
  have "accepts (Stream_uint 8) s (of_bool b) (rlp_str (big_bytes (unat (of_bool b :: u64))))"
    by (rule uint_complete) (use assms u in \<open>auto simp: wf_bits_def\<close>)
  then show ?thesis unfolding Stream_Bool_def u by (rule accepts_bind) (simp add: dec_ret_def)
qed

lemma ByteArray_complete:
  assumes "ready s" "holds (rlp_str b) s" "length b \<noteq> 1"
  shows "accepts (decodeByteArray (length b)) s (BytesV b) (rlp_str b)"
proof -
  let ?h = "rlp_head 0x80 0xB7 (length b)"
  have e: "rlp_str b = ?h @ b" by (rule rlp_str_head) (use assms(3) in simp)
  note k = Kind_content [OF assms(1) assms(2) [unfolded e], of KString]
  obtain s' where "readFull (of_nat (length b)) (arm KString (of_nat (length b)) 0 (eat (length ?h) s)) = (Ok b, s')" "consumed s (?h @ b) s'"
    using holds_content [OF assms(1) assms(2) [unfolded e] refl, of KString 0] k(2) by auto
  moreover have "(of_nat (length b) :: u64) \<noteq> 1" using assms(3) k(2) by (auto simp: word_unat_eq_iff)
  ultimately show ?thesis
    using k e by (auto simp: accepts_def decodeByteArray_def dec_ret_def)
qed

lemma holds_append:
  assumes "holds (xs @ ys) s" "wf_stream s"
  shows "holds xs s" and "consumed s xs s' \<Longrightarrow> holds ys s'"
proof -
  show "holds xs s" using assms by (auto simp: holds_def avail_def take_add)
  show "holds ys s'" if "consumed s xs s'"
    using assms consumed_room [OF that assms(2)] that by (auto simp: holds_def avail_def consumed_def take_add)
qed

lemma decode_EOL:
  "plain t \<Longrightarrow> ready s \<Longrightarrow> at_end s \<Longrightarrow> depth t < n \<Longrightarrow> decode_val n t s = (Err EOL, s\<lparr>st_kinderr := None\<rparr>)"
proof (induction t arbitrary: n)
  case (TPtr t)
  then show ?case by (cases n) simp_all
next
  case TInterface
  then have "Stream_Kind s = (Err EOL, s\<lparr>st_kinderr := None\<rparr>)" by (intro Kind_EOL) (simp_all add: ready_def at_end_def)
  with TInterface show ?case by (cases n) (simp_all add: decodeInterface_def)
qed (auto simp: ready_def at_end_def Kind_EOL gr0_conv_Suc less_Suc_eq_le Suc_le_eq decodeRawValue_def Stream_Raw_def decodeUint_def Stream_uint_def
    decodeBool_def Stream_Bool_def decodeBigInt_def decodeString_def decodeByteSlice_def Stream_Bytes_def decodeByteArray_def
    decodeListSlice_def decodeListArray_def decodeStruct_def Stream_List_def dest!: less_imp_Suc_add)

lemma SliceElems_complete:
  assumes elem: "\<And>s v. ready s \<Longrightarrow> length (st_in s) \<le> L \<Longrightarrow> v \<in> set vs \<Longrightarrow> holds (enc_rval v) s \<Longrightarrow> accepts d s v (enc_rval v)"
    and eol: "\<And>s. ready s \<Longrightarrow> at_end s \<Longrightarrow> d s = (Err EOL, s\<lparr>st_kinderr := None\<rparr>)"
  shows "ready s \<Longrightarrow> length (st_in s) \<le> L \<Longrightarrow> holds (concat (map enc_rval vs)) s \<Longrightarrow> room s = length (concat (map enc_rval vs))
    \<Longrightarrow> st_stack s \<noteq> [] \<Longrightarrow> length vs < n \<Longrightarrow> accepts (decodeSliceElems n d acc) s (acc @ vs) (concat (map enc_rval vs))"
  using elem
proof (induction vs arbitrary: acc s n)
  case Nil
  then obtain m where "n = Suc m" by (cases n) auto
  with Nil eol [of s] consumed_kinderr [of s None] show ?case by (auto simp: accepts_def at_end_def)
next
  case (Cons v vs)
  then obtain m where m: "n = Suc m" by (cases n) auto
  have wf: "wf_stream s" using Cons.prems(1) by (simp add: ready_def)
  have h: "holds (enc_rval v) s" using holds_append(1) [of "enc_rval v"] Cons.prems(3) wf by simp
  obtain s1 where s1: "d s = (Ok v, s1)" "consumed s (enc_rval v) s1"
    using Cons.prems(7) [OF Cons.prems(1,2) _ h] by (auto simp: accepts_def)
  have "accepts (decodeSliceElems m d (acc @ [v])) s1 ((acc @ [v]) @ vs) (concat (map enc_rval vs))"
  proof (rule Cons.IH)
    show "holds (concat (map enc_rval vs)) s1" using holds_append(2) [of "enc_rval v"] Cons.prems(3) wf s1(2) by simp
    show "st_stack s1 \<noteq> []" using Cons.prems(5) s1(2) by (simp add: consumed_def)
  qed (use Cons.prems m s1(2) consumed_length [OF s1(2)] consumed_room [OF s1(2) wf] in \<open>auto simp: consumed_def\<close>)
  with s1 m consumed_trans [OF s1(2) _ wf] show ?case by (auto simp: accepts_def)
qed

lemma decode_seq_complete:
  assumes "list_all2 (\<lambda>d v. \<forall>s. ready s \<longrightarrow> length (st_in s) \<le> L \<longrightarrow> holds (enc_rval v) s \<longrightarrow> accepts d s v (enc_rval v)) ds vs"
  shows "ready s \<Longrightarrow> length (st_in s) \<le> L \<Longrightarrow> holds (concat (map enc_rval vs)) s \<Longrightarrow> accepts (decode_seq ds) s vs (concat (map enc_rval vs))"
  using assms
proof (induction ds vs arbitrary: s rule: list_all2_induct)
  case Nil
  then show ?case by (simp add: accepts_def consumed_refl)
next
  case (Cons d ds v vs)
  have wf: "wf_stream s" using Cons.prems(1) by (simp add: ready_def)
  have h: "holds (enc_rval v) s" using holds_append(1) [of "enc_rval v"] Cons.prems(3) wf by simp
  obtain s1 where s1: "d s = (Ok v, s1)" "consumed s (enc_rval v) s1"
    using Cons(1) Cons.prems(1,2) h by (auto simp: accepts_def)
  have "accepts (decode_seq ds) s1 vs (concat (map enc_rval vs))"
    by (rule Cons.IH) (use Cons.prems holds_append(2) [of "enc_rval v"] wf s1(2) consumed_length [OF s1(2)] in \<open>auto simp: consumed_def\<close>)
  with s1 consumed_trans [OF s1(2) _ wf] show ?case by (auto simp: accepts_def dec_ret_def)
qed

lemma length_concat_ge: "(\<And>v. v \<in> set vs \<Longrightarrow> enc_rval v \<noteq> []) \<Longrightarrow> length vs \<le> length (concat (map enc_rval vs))"
proof (induction vs)
  case (Cons v vs)
  then have "1 \<le> length (enc_rval v)" "length vs \<le> length (concat (map enc_rval vs))" by (auto simp: Suc_le_eq)
  then show ?case by simp
qed simp

lemma ListSlice_complete:
  assumes "ready s" "holds (enc_rval (ListV vs)) s" "length (st_in s) \<le> n"
    and elem: "\<And>s' v. ready s' \<Longrightarrow> length (st_in s') < length (st_in s) \<Longrightarrow> v \<in> set vs \<Longrightarrow> holds (enc_rval v) s' \<Longrightarrow> accepts d s' v (enc_rval v)"
    and eol: "\<And>s'. ready s' \<Longrightarrow> at_end s' \<Longrightarrow> d s' = (Err EOL, s'\<lparr>st_kinderr := None\<rparr>)"
    and ne: "\<And>v. v \<in> set vs \<Longrightarrow> enc_rval v \<noteq> []"
  shows "accepts (decodeListSlice n d) s (ListV vs) (enc_rval (ListV vs))"
  unfolding decodeListSlice_list_dec accepts_def
proof (rule list_complete)
  fix s1 and sz :: u64
  assume s1: "ready s1" "st_stack s1 \<noteq> []" "room s1 = length (concat (map enc_rval vs))" "unat sz = room s1"
    "avail (length (concat (map enc_rval vs))) s1" "take (length (concat (map enc_rval vs))) (st_in s1) = concat (map enc_rval vs)"
    "length (st_in s1) < length (st_in s)"
  show "\<exists>s'. (if sz = 0 then dec_ret [] else decodeSliceElems n d []) s1 = (Ok vs, s') \<and> consumed s1 (concat (map enc_rval vs)) s'"
  proof (cases "sz = 0")
    case True
    with s1(3,4) length_concat_ge [of vs] ne have "vs = []" by simp
    with True consumed_refl [OF s1(1)] show ?thesis by (simp add: dec_ret_def)
  next
    case False
    have "accepts (decodeSliceElems n d []) s1 ([] @ vs) (concat (map enc_rval vs))"
    proof (rule SliceElems_complete [where L = "length (st_in s) - 1"])
      show "length vs < n" using length_concat_ge [of vs] ne s1(5,7) assms(3) by (auto simp: avail_def)
    qed (use s1 elem eol in \<open>auto simp: holds_def\<close>)
    with False show ?thesis by (simp add: accepts_def)
  qed
qed (use assms(1,2) in \<open>simp_all add: holds_def\<close>)

lemma decode_complete:
  "plain t \<Longrightarrow> has_type t v \<Longrightarrow> ready s \<Longrightarrow> holds (enc_rval v) s \<Longrightarrow> length (st_in s) + depth t + 1 < n
    \<Longrightarrow> accepts (decode_val n t) s v (enc_rval v)"
proof (induction n arbitrary: t v s)
  case (Suc n)
  show ?case
  proof (cases t)
    case TRaw
    with Suc.prems obtain b where v: "v = RawV b" "raw_ok b" by (auto split: rval.splits)
    with Suc.prems(4) have "accepts Stream_Raw s b b" by (intro Raw_complete [OF Suc.prems(3)]) simp_all
    then show ?thesis unfolding TRaw v decode_val.simps decodeRawValue_def enc_rval.simps by (rule accepts_bind) (simp add: dec_ret_def)
  next
    case (TUint bits)
    with Suc.prems obtain i where v: "v = UintV i" "unat i < 2 ^ bits" "wf_bits bits" by (auto split: rval.splits)
    with Suc.prems(4) have "accepts (Stream_uint bits) s i (rlp_str (big_bytes (unat i)))"
      by (intro uint_complete [OF Suc.prems(3)]) simp_all
    then show ?thesis unfolding TUint v decode_val.simps decodeUint_def enc_rval.simps by (rule accepts_bind) (simp add: dec_ret_def)
  next
    case TBool
    with Suc.prems obtain b where v: "v = BoolV b" by (auto split: rval.splits)
    with Suc.prems(4) have "accepts Stream_Bool s b (rlp_str (big_bytes (of_bool b)))"
      by (intro Bool_complete [OF Suc.prems(3)]) simp_all
    then show ?thesis unfolding TBool v decode_val.simps decodeBool_def enc_rval.simps by (rule accepts_bind) (simp add: dec_ret_def)
  next
    case TBig
    with Suc.prems obtain i where v: "v = BigV (Some i)" "0 \<le> i" by (auto split: rval.splits option.splits)
    let ?b = "big_bytes (nat i)"
    from v Suc.prems(4) have "accepts Stream_Bytes s ?b (rlp_str ?b)" by (intro Bytes_complete [OF Suc.prems(3)]) simp
    moreover have "\<not> (length ?b > 0 \<and> ?b ! 0 = 0)" using hd_big_bytes [of "nat i"] by (auto simp: hd_conv_nth)
    ultimately show ?thesis unfolding TBig v decode_val.simps decodeBigInt_def enc_rval.simps
      by (intro accepts_bind) (use v(2) in \<open>auto simp: dec_ret_def\<close>)
  next
    case TString
    with Suc.prems obtain b where v: "v = StringV b" by (auto split: rval.splits)
    with Suc.prems(4) have "accepts Stream_Bytes s b (rlp_str b)" by (intro Bytes_complete [OF Suc.prems(3)]) simp
    then show ?thesis unfolding TString v decode_val.simps decodeString_def enc_rval.simps by (rule accepts_bind) (simp add: dec_ret_def)
  next
    case TByteSlice
    with Suc.prems obtain b where v: "v = BytesV b" by (auto split: rval.splits)
    with Suc.prems(4) have "accepts Stream_Bytes s b (rlp_str b)" by (intro Bytes_complete [OF Suc.prems(3)]) simp
    then show ?thesis unfolding TByteSlice v decode_val.simps decodeByteSlice_def enc_rval.simps by (rule accepts_bind) (simp add: dec_ret_def)
  next
    case (TByteArray k)
    with Suc.prems obtain b where v: "v = BytesV b" "length b = k" "k \<noteq> 1" by (auto split: rval.splits)
    with ByteArray_complete [OF Suc.prems(3), of b] Suc.prems(4) TByteArray show ?thesis by simp
  next
    case (TSlice t')
    with Suc.prems obtain vs where v: "v = ListV vs" "\<forall>w\<in>set vs. has_type t' w" by (auto split: rval.splits simp: list_all_iff)
    show ?thesis unfolding TSlice v(1) decode_val.simps
      by (rule ListSlice_complete) (use Suc TSlice v decode_EOL [of t'] enc_not_Nil [of t'] in auto)
  next
    case (TArray k t')
    with Suc.prems obtain vs where v: "v = ListV vs" "\<forall>w\<in>set vs. has_type t' w" "length vs = k" by (auto split: rval.splits simp: list_all_iff)
    show ?thesis unfolding TArray v(1) decode_val.simps decodeListArray_def list_dec_def [symmetric] accepts_def
    proof (rule list_complete, goal_cases)
      case (4 s1 sz)
      have "accepts (decode_seq (replicate k (decode_val n t'))) s1 vs (concat (map enc_rval vs))"
      proof (rule decode_seq_complete [where L = "length (st_in s) - 1"])
        show "list_all2 (\<lambda>d v. \<forall>s'. ready s' \<longrightarrow> length (st_in s') \<le> length (st_in s) - 1 \<longrightarrow> holds (enc_rval v) s' \<longrightarrow> accepts d s' v (enc_rval v))
            (replicate k (decode_val n t')) vs"
          using Suc TArray v by (auto simp: list_all2_conv_all_nth)
      qed (use 4 in \<open>auto simp: holds_def\<close>)
      then show ?case by (simp add: accepts_def)
    qed (use Suc.prems v in \<open>simp_all add: holds_def\<close>)
  next
    case (TStruct ts)
    with Suc.prems obtain vs where v: "v = ListV vs" "list_all2 has_type ts vs" by (auto split: rval.splits)
    show ?thesis unfolding TStruct v(1) decode_val.simps decodeStruct_def list_dec_def [symmetric] accepts_def
    proof (rule list_complete, goal_cases)
      case (4 s1 sz)
      have "accepts (decode_val n t') s' w (enc_rval w)"
        if "t' \<in> set ts" "has_type t' w" "ready s'" "length (st_in s') \<le> length (st_in s) - 1" "holds (enc_rval w) s'" for t' w s'
        by (rule Suc.IH) (use that Suc.prems TStruct depth_field [OF that(1)] 4 in \<open>auto simp: list_all_iff simp del: depth.simps\<close>)
      then have "list_all2 (\<lambda>d v. \<forall>s'. ready s' \<longrightarrow> length (st_in s') \<le> length (st_in s) - 1 \<longrightarrow> holds (enc_rval v) s' \<longrightarrow> accepts d s' v (enc_rval v))
          (map (decode_val n) ts) vs"
        using v(2) by (auto simp: list_all2_conv_all_nth)
      then have "accepts (decode_seq (map (decode_val n) ts)) s1 vs (concat (map enc_rval vs))"
        by (rule decode_seq_complete) (use 4 in \<open>auto simp: holds_def\<close>)
      then show ?case by (simp add: accepts_def)
    qed (use Suc.prems v in \<open>simp_all add: holds_def\<close>)
  next
    case (TPtr t')
    with Suc show ?thesis by auto
  next
    case TInterface
    with Suc.prems consider b where "v = BytesV b" | vs where "v = ListV vs" "\<forall>w\<in>set vs. has_type TInterface w"
      by (auto split: rval.splits simp: list_all_iff)
    then show ?thesis
    proof cases
      case 1
      with Suc.prems(4) have b: "accepts decodeByteSlice s v (enc_rval v)"
        unfolding decodeByteSlice_def 1 enc_rval.simps by (intro accepts_bind [OF Bytes_complete [OF Suc.prems(3)]]) (simp_all add: dec_ret_def)
      have "\<nexists>sz s1. Stream_Kind s = (Ok (KList, sz), s1)"
        using b by (auto simp: accepts_def decodeByteSlice_def Stream_Bytes_def dec_err_def)
      with b show ?thesis unfolding TInterface accepts_def decode_interface [OF Suc.prems(3)] by simp
    next
      case 2
      have l: "accepts (decodeListSlice n (decode_val n TInterface)) s v (enc_rval v)"
        unfolding 2(1)
        by (rule ListSlice_complete) (use Suc TInterface 2 decode_EOL [of TInterface] enc_not_Nil [of TInterface] in auto)
      let ?c = "concat (map enc_rval vs)"
      have "holds (rlp_head 0xC0 0xF7 (length ?c) @ ?c) s" using Suc.prems(4) 2(1) by (simp add: rlp_list_def)
      from Kind_content(1) [OF Suc.prems(3) this, of KList] have "\<exists>sz s1. Stream_Kind s = (Ok (KList, sz), s1)" by blast
      with l show ?thesis unfolding TInterface accepts_def decode_interface [OF Suc.prems(3)] by simp
    qed
  qed (use Suc.prems(1) in simp_all)
qed simp

section \<open>Decoded values have the type they were decoded for\<close>

text \<open>Decoders that give values with a property, from any stream whose cached byte is a single-byte encoding.\<close>

definition gives :: "('a \<Rightarrow> bool) \<Rightarrow> 'a dec \<Rightarrow> bool" where
  "gives P d \<longleftrightarrow> (\<forall>s. st_byteval s < 128 \<longrightarrow> st_byteval (snd (d s)) < 128 \<and> (\<forall>v. fst (d s) = Ok v \<longrightarrow> P v))"

named_theorems gives_intros

lemma gives_bind:
  assumes "gives P m" "\<And>v. P v \<Longrightarrow> gives Q (f v)"
  shows "gives Q (dec_bind m f)"
  using assms by (auto simp: gives_def split: res.splits prod.splits)

lemma gives_ret [gives_intros]: "P x \<Longrightarrow> gives P (dec_ret x)"
  and gives_err [gives_intros]: "gives P (dec_err e)"
  and gives_if [gives_intros]: "(b \<Longrightarrow> gives P d) \<Longrightarrow> (\<not> b \<Longrightarrow> gives P d') \<Longrightarrow> gives P (if b then d else d')"
  by (simp_all add: gives_def dec_ret_def dec_err_def)

lemma gives_mono: "gives P d \<Longrightarrow> (\<And>v. P v \<Longrightarrow> Q v) \<Longrightarrow> gives Q d"
  by (auto simp: gives_def)

lemma gives_willRead: "gives (\<lambda>_. True) (willRead n)"
  by (auto simp: gives_def willRead_def Let_def split: list.splits)

lemma gives_makeslice: "gives (\<lambda>_. True) (makeslice n)"
  by (simp add: gives_def makeslice_def)

lemma gives_readFull: "gives (\<lambda>b. length b = unat n) (readFull n)"
  unfolding readFull_def by (rule gives_bind [OF gives_willRead]) (auto simp: gives_def)

lemma gives_readByte: "gives (\<lambda>_. True) readByte"
  unfolding readByte_def by (rule gives_bind [OF gives_willRead]) (auto simp: gives_def split: list.splits)

lemma gives_readUint:
  assumes "unat sz \<le> 8"
  shows "gives (\<lambda>v. unat v < 256 ^ unat sz) (readUint sz)"
proof -
  have "unat (ucast (b :: byte) :: u64) < 256" for b
    by (simp add: unsigned_ucast_eq take_bit_nat_eq_self less_trans [OF unat_byte_less])
  then have 1: "gives (\<lambda>v :: u64. unat v < 256) (dec_bind readByte (\<lambda>b. dec_ret (ucast b)))"
    by (intro gives_bind [OF gives_readByte] gives_ret)
  have 2: "gives (\<lambda>v :: u64. unat v < 256 ^ unat sz) (dec_bind (readFull (ucast sz)) (\<lambda>b. if b ! 0 = 0 then dec_err ErrCanonSize else dec_ret (of_nat (be_nat b))))"
  proof (rule gives_bind [OF gives_readFull], rule gives_if, rule gives_err, rule gives_ret)
    fix b :: bytes
    assume "length b = unat (ucast sz :: u64)"
    then have l: "length b = unat sz" using assms by (simp add: unsigned_ucast_eq take_bit_nat_eq_self)
    show "unat (of_nat (be_nat b) :: u64) < 256 ^ unat sz"
      using be_nat_less [of b] be_nat_short [of b] l assms by simp
  qed
  show ?thesis
    using 1 2 by (auto simp: readUint_def gives_def)
qed

lemma gives_readSize: "unat sz \<le> 8 \<Longrightarrow> gives (\<lambda>_. True) (Stream_readSize k sz)"
  using gives_readUint [of sz] by (auto simp: gives_def Stream_readSize_def split: prod.splits res.splits)

lemma gives_readKind: "gives (\<lambda>_. True) Stream_readKind"
  unfolding gives_def
proof (intro allI impI conjI)
  fix s :: Stream
  assume s: "st_byteval s < 128"
  obtain r s' where r: "readByte s = (r, s')" by fastforce
  with gives_readByte s have s': "st_byteval s' < 128" unfolding gives_def by (metis snd_conv)
  show "st_byteval (snd (Stream_readKind s)) < 128"
  proof (cases r)
    case (Ok b)
    have "unat b \<le> 255" using unat_byte_less [of b] by linarith
    then have "\<not> b < 0xB8 \<Longrightarrow> b < 0xC0 \<Longrightarrow> unat (b - 0xB7) \<le> 8" "\<not> b < 0xF8 \<Longrightarrow> unat (b - 0xF7) \<le> 8"
      by (auto simp: unat_sub word_less_nat_alt word_le_nat_alt)
    with gives_readSize [of "b - 0xB7" KString] gives_readSize [of "b - 0xF7" KList] Ok r show ?thesis
      by (auto simp: Stream_readKind_def gives_def Let_def)
  qed (use r s' in \<open>auto simp: Stream_readKind_def\<close>)
qed simp

lemma gives_Kind: "gives (\<lambda>_. True) Stream_Kind"
  unfolding gives_def
proof (intro allI impI conjI)
  fix s :: Stream
  assume "st_byteval s < 128"
  with gives_readKind have "st_byteval (snd (Stream_readKind (s\<lparr>st_kinderr := None\<rparr>))) < 128" unfolding gives_def by simp
  with \<open>st_byteval s < 128\<close> show "st_byteval (snd (Stream_Kind s)) < 128"
    by (auto simp: Stream_Kind_def Let_def split: prod.splits res.splits)
qed simp

lemma gives_KindD:
  assumes "\<And>k sz. gives P (f (k, sz))"
  shows "gives P (dec_bind Stream_Kind f)"
  by (rule gives_bind [OF gives_Kind]) (use assms in auto)

lemma gives_byteval [gives_intros]: "(\<And>b. b < 128 \<Longrightarrow> P [b]) \<Longrightarrow> gives P (\<lambda>s. (Ok [st_byteval s], rearm s))"
  by (simp add: gives_def rearm_def)

lemma gives_Bytes: "gives (\<lambda>_. True) Stream_Bytes"
  unfolding Stream_Bytes_def
  by (rule gives_KindD, simp split: Kind.split) (intro conjI impI gives_intros gives_bind [OF gives_makeslice] gives_bind [OF gives_readFull]; simp)

lemma gives_Raw: "gives raw_ok Stream_Raw"
  unfolding Stream_Raw_def
proof (rule gives_KindD)
  fix k sz
  have "raw_ok ((if k = KString then puthead 0x80 0xB7 sz else puthead 0xC0 0xF7 sz) @ b)" if "length b = unat sz" for b
    unfolding raw_ok_def by (rule disjI2, rule exI [of _ b]) (simp add: that puthead_head)
  then have "gives raw_ok (dec_bind (makeslice (headsize sz + unat sz)) (\<lambda>_. dec_bind (readFull sz) (\<lambda>b.
      dec_ret ((if k = KString then puthead 0x80 0xB7 sz else puthead 0xC0 0xF7 sz) @ b))))"
    by (intro gives_bind [OF gives_makeslice] gives_bind [OF gives_readFull] gives_ret)
  moreover have "gives raw_ok (\<lambda>s. (Ok [st_byteval s], rearm s))" by (rule gives_byteval) (simp add: raw_ok_def)
  ultimately show "gives raw_ok (case (k, sz) of (kind, sz) \<Rightarrow> case kind of KByte \<Rightarrow> \<lambda>s. (Ok [st_byteval s], rearm s)
      | _ \<Rightarrow> dec_bind (makeslice (headsize sz + unat sz)) (\<lambda>_. dec_bind (readFull sz) (\<lambda>b.
             dec_ret ((if kind = KString then puthead 0x80 0xB7 sz else puthead 0xC0 0xF7 sz) @ b))))"
    by (cases k) simp_all
qed

lemma gives_uint:
  assumes "wf_bits bits"
  shows "gives (\<lambda>v. unat v < 2 ^ bits) (Stream_uint bits)"
  unfolding Stream_uint_def
proof (rule gives_KindD)
  fix k and sz :: u64
  have b8: "unat (of_nat (bits div 8) :: u64) = bits div 8" "bits div 8 \<le> 8" "(2::nat) ^ bits = 256 ^ (bits div 8)" "256 \<le> (2::nat) ^ bits"
    using assms by (auto simp: wf_bits_def)
  have byte: "gives (\<lambda>v. unat v < 2 ^ bits) (\<lambda>s. if st_byteval s = 0 then (Err ErrCanonInt, s) else (Ok (ucast (st_byteval s) :: u64), rearm s))"
    using b8(4) by (auto simp: gives_def rearm_def unsigned_ucast_eq take_bit_nat_eq_self word_less_nat_alt)
  have str: "gives (\<lambda>v. unat v < 2 ^ bits) (\<lambda>s. case readUint (ucast sz) s of
         (Ok v, s') \<Rightarrow> if sz > 0 \<and> v < 128 then (Err ErrCanonSize, s') else (Ok v, s')
       | (Err e, s') \<Rightarrow> (Err (if e = ErrCanonSize then ErrCanonInt else e), s')
       | (Panic, s') \<Rightarrow> (Panic, s') | (Diverge, s') \<Rightarrow> (Diverge, s'))" if "\<not> sz > of_nat (bits div 8)"
  proof -
    have l: "unat sz \<le> bits div 8" using that by (simp only: word_less_nat_alt b8(1) not_less)
    then have u: "unat (ucast sz :: byte) = unat sz" using b8(2) by (intro ucast_byte_small) simp
    have "(256::nat) ^ unat sz \<le> 2 ^ bits" unfolding b8(3) using l by (intro power_increasing) simp_all
    then have "gives (\<lambda>v. unat v < 2 ^ bits) (readUint (ucast sz))"
      using gives_mono [OF gives_readUint [of "ucast sz"]] u l b8(2) by (simp add: less_le_trans)
    then show ?thesis by (auto simp: gives_def split: prod.splits res.splits)
  qed
  show "gives (\<lambda>v. unat v < 2 ^ bits) (case (k, sz) of (kind, sz) \<Rightarrow> case kind of
        KByte \<Rightarrow> (\<lambda>s. if st_byteval s = 0 then (Err ErrCanonInt, s) else (Ok (ucast (st_byteval s)), rearm s))
      | KString \<Rightarrow>
          if sz > of_nat (bits div 8) then dec_err ErrUintOverflow
          else (\<lambda>s. case readUint (ucast sz) s of
                      (Ok v, s') \<Rightarrow> if sz > 0 \<and> v < 128 then (Err ErrCanonSize, s') else (Ok v, s')
                    | (Err e, s') \<Rightarrow> (Err (if e = ErrCanonSize then ErrCanonInt else e), s')
                    | (Panic, s') \<Rightarrow> (Panic, s')
                    | (Diverge, s') \<Rightarrow> (Diverge, s'))
      | KList \<Rightarrow> dec_err ErrExpectedString)"
    using byte str by (cases k) (simp_all add: gives_err)
qed

lemma gives_Bool: "gives (\<lambda>_. True) Stream_Bool"
  unfolding Stream_Bool_def by (rule gives_bind [OF gives_uint [of 8]]) (auto simp: wf_bits_def intro!: gives_intros)

lemma gives_List: "gives (\<lambda>_. True) Stream_List"
  unfolding Stream_List_def by (rule gives_KindD) (simp add: gives_def)

lemma gives_ListEnd: "gives (\<lambda>_. True) Stream_ListEnd"
  by (auto simp: gives_def Stream_ListEnd_def split: list.splits)

lemma gives_ByteArray: "gives (\<lambda>v. \<exists>b. v = BytesV b \<and> length b = k) (decodeByteArray k)"
  unfolding decodeByteArray_def
proof (rule gives_KindD)
  fix kind and sz :: u64
  have u: "gives (\<lambda>v. \<exists>b. v = BytesV b \<and> length b = 1)
      (\<lambda>s. case Stream_Uint s of (Ok bv, s') \<Rightarrow> (Ok (BytesV [ucast bv]), s') | (Err e, s') \<Rightarrow> (Ok (BytesV [0]), s')
         | (Panic, s') \<Rightarrow> (Panic, s') | (Diverge, s') \<Rightarrow> (Diverge, s'))"
    using gives_uint [of 64] by (auto simp: gives_def Stream_Uint_def wf_bits_def split: prod.splits res.splits)
  have r: "gives (\<lambda>v. \<exists>b. v = BytesV b \<and> length b = k) (dec_bind (readFull (of_nat k)) (\<lambda>b.
      if sz = 1 \<and> b ! 0 < 128 then dec_err ErrCanonSize else dec_ret (BytesV b)))" if "k = unat sz"
    by (intro gives_bind [OF gives_readFull] gives_intros) (use that in simp_all)
  show "gives (\<lambda>v. \<exists>b. v = BytesV b \<and> length b = k) (case (kind, sz) of (kind, sz) \<Rightarrow> case kind of
         KByte \<Rightarrow>
           if k = 0 then dec_err ErrInputTooLong
           else if k > 1 then dec_err ErrInputTooShort
           else (\<lambda>s. case Stream_Uint s of
                       (Ok bv, s') \<Rightarrow> (Ok (BytesV [ucast bv]), s')
                     | (Err e, s') \<Rightarrow> (Ok (BytesV [0]), s')
                     | (Panic, s') \<Rightarrow> (Panic, s')
                     | (Diverge, s') \<Rightarrow> (Diverge, s'))
       | KString \<Rightarrow>
           if k < unat sz then dec_err ErrInputTooLong
           else if k > unat sz then dec_err ErrInputTooShort
           else dec_bind (readFull (of_nat k)) (\<lambda>b.
             if sz = 1 \<and> b ! 0 < 128 then dec_err ErrCanonSize else dec_ret (BytesV b))
       | KList \<Rightarrow> dec_err ErrExpectedString)"
  proof (cases kind)
    case KByte
    with u show ?thesis by (cases "k = 1") (auto simp: gives_err)
  next
    case KString
    with r show ?thesis by (cases "k = unat sz") (auto simp: gives_err)
  qed (simp add: gives_err)
qed

lemma gives_SliceElems:
  assumes "gives P d"
  shows "list_all P acc \<Longrightarrow> gives (list_all P) (decodeSliceElems n d acc)"
proof (induction n arbitrary: acc)
  case (Suc n)
  have *: "st_byteval s < 128 \<Longrightarrow> P v \<Longrightarrow> gives (list_all P) (decodeSliceElems n d (acc @ [v]))" for s :: Stream and v
    by (rule Suc.IH) (use Suc.prems in simp)
  show ?case
    unfolding gives_def
  proof (intro allI impI)
    fix s :: Stream
    assume s: "st_byteval s < 128"
    obtain r s' where r: "d s = (r, s')" by fastforce
    with assms s have s': "st_byteval s' < 128" "\<And>v. r = Ok v \<Longrightarrow> P v" unfolding gives_def by (metis fst_conv snd_conv)+
    show "st_byteval (snd (decodeSliceElems (Suc n) d acc s)) < 128 \<and> (\<forall>v. fst (decodeSliceElems (Suc n) d acc s) = Ok v \<longrightarrow> list_all P v)"
      using r s' * [OF s'(1)] Suc.prems by (cases r) (auto simp: gives_def)
  qed
qed (simp add: gives_def)

lemma gives_seq:
  assumes "list_all2 gives Ps ds"
  shows "gives (list_all2 (\<lambda>P v. P v) Ps) (decode_seq ds)"
  using assms
proof (induction Ps ds rule: list_all2_induct)
  case Nil
  then show ?case by (simp add: gives_def)
next
  case (Cons P Ps d ds)
  have t: "gives (list_all2 (\<lambda>P v. P v) (P # Ps)) (dec_bind (decode_seq ds) (\<lambda>vs. dec_ret (v # vs)))" if "P v" for v
    by (rule gives_bind [OF Cons.IH], rule gives_ret) (use that in simp)
  show ?case
    unfolding gives_def
  proof (intro allI impI)
    fix s :: Stream
    assume s: "st_byteval s < 128"
    obtain r s' where r: "d s = (r, s')" by fastforce
    with Cons(1) s have s': "st_byteval s' < 128" "\<And>v. r = Ok v \<Longrightarrow> P v" unfolding gives_def by (metis fst_conv snd_conv)+
    show "st_byteval (snd (decode_seq (d # ds) s)) < 128 \<and> (\<forall>v. fst (decode_seq (d # ds) s) = Ok v \<longrightarrow> list_all2 (\<lambda>P v. P v) (P # Ps) v)"
      using r s' t by (cases r) (auto simp: gives_def simp del: dec_bind.simps)
  qed
qed

lemma gives_list_dec:
  assumes "\<And>sz. gives P (body sz)"
  shows "gives (\<lambda>v. \<exists>vs. v = ListV vs \<and> P vs) (list_dec body)"
  unfolding list_dec_def
  by (intro gives_bind [OF gives_List] gives_bind [OF assms] gives_bind [OF gives_ListEnd] gives_ret) auto

lemma gives_ListSlice: "gives P d \<Longrightarrow> gives (\<lambda>v. \<exists>vs. v = ListV vs \<and> list_all P vs) (decodeListSlice n d)"
  unfolding decodeListSlice_list_dec by (intro gives_list_dec gives_intros gives_SliceElems) simp_all

lemma gives_Struct:
  assumes "\<And>t. t \<in> set ts \<Longrightarrow> gives (has_type t) (decode_val n t)"
  shows "gives (\<lambda>v. \<exists>vs. v = ListV vs \<and> list_all2 has_type ts vs) (decodeStruct (map (decode_val n) ts))"
proof -
  have "list_all2 gives (map has_type ts) (map (decode_val n) ts)"
    using assms by (auto simp: list_all2_conv_all_nth)
  from gives_list_dec [OF gives_seq [OF this]] show ?thesis
    by (simp only: decodeStruct_def list_dec_def list_all2_map_has_type)
qed

lemma gives_OptionalPtr:
  assumes "gives P d" "P nilv"
  shows "gives P (decodeOptionalPtr nilv d)"
  using gives_Kind assms
  by (auto simp: gives_def decodeOptionalPtr_def rearm_def split: prod.splits res.splits)

fun wf_type :: "rtype \<Rightarrow> bool" where
  "wf_type (TUint bits) = wf_bits bits"
| "wf_type (TSlice t) = wf_type t"
| "wf_type (TArray k t) = wf_type t"
| "wf_type (TStruct ts) = list_all wf_type ts"
| "wf_type (TTail t) = wf_type t"
| "wf_type (TPtr t) = wf_type t"
| "wf_type (TNilStruct ts) = list_all wf_type ts"
| "wf_type _ = True"

lemma has_type_Interface: "has_type TInterface (ListV vs) = list_all (has_type TInterface) vs"
  by simp

lemma gives_decode_val: "wf_type t \<Longrightarrow> gives (has_type t) (decode_val n t)"
proof (induction n arbitrary: t)
  case (Suc n)
  show ?case
  proof (cases t)
    case TRaw
    then show ?thesis unfolding TRaw decode_val.simps decodeRawValue_def
      by (intro gives_bind [OF gives_Raw] gives_ret) simp
  next
    case (TUint bits)
    with Suc.prems have "wf_bits bits" by simp
    then show ?thesis unfolding TUint decode_val.simps decodeUint_def by (intro gives_bind [OF gives_uint] gives_ret) simp_all
  next
    case TBool
    show ?thesis unfolding TBool decode_val.simps decodeBool_def by (intro gives_bind [OF gives_Bool] gives_ret) simp
  next
    case TBig
    show ?thesis unfolding TBig decode_val.simps decodeBigInt_def by (intro gives_bind [OF gives_Bytes] gives_intros) simp
  next
    case TString
    show ?thesis unfolding TString decode_val.simps decodeString_def by (intro gives_bind [OF gives_Bytes] gives_ret) simp
  next
    case TByteSlice
    show ?thesis unfolding TByteSlice decode_val.simps decodeByteSlice_def by (intro gives_bind [OF gives_Bytes] gives_ret) simp
  next
    case (TByteArray k)
    show ?thesis unfolding TByteArray decode_val.simps by (rule gives_mono [OF gives_ByteArray]) auto
  next
    case (TSlice t')
    with Suc have "gives (has_type t') (decode_val n t')" by simp
    then show ?thesis unfolding TSlice decode_val.simps by (intro gives_mono [OF gives_ListSlice]) auto
  next
    case (TArray k t')
    with Suc have "list_all2 gives (replicate k (has_type t')) (replicate k (decode_val n t'))" by (simp add: list_all2_conv_all_nth)
    from gives_list_dec [OF gives_seq [OF this]] show ?thesis unfolding TArray decode_val.simps decodeListArray_def list_dec_def
      by (rule gives_mono) (auto simp: list_all2_conv_all_nth list_all_length)
  next
    case (TStruct ts)
    with Suc show ?thesis unfolding TStruct decode_val.simps by (intro gives_mono [OF gives_Struct]) (auto simp: list_all_iff)
  next
    case (TTail t')
    with Suc have "gives (has_type t') (decode_val n t')" by simp
    then show ?thesis unfolding TTail decode_val.simps by (intro gives_bind [OF gives_SliceElems] gives_ret) simp_all
  next
    case (TPtr t')
    with Suc have "gives (has_type t') (decode_val n t')" by simp
    then show ?thesis unfolding TPtr decode_val.simps decodePtr_eq by (rule gives_mono) simp
  next
    case (TNilByteArray k)
    show ?thesis unfolding TNilByteArray decode_val.simps
      by (intro gives_OptionalPtr gives_mono [OF gives_ByteArray]) auto
  next
    case (TNilStruct ts)
    with Suc show ?thesis unfolding TNilStruct decode_val.simps
      by (intro gives_OptionalPtr gives_mono [OF gives_Struct]) (auto simp: list_all_iff)
  next
    case TInterface
    have 1: "gives (has_type TInterface) (decodeListSlice n (decode_val n TInterface))"
      by (rule gives_mono [OF gives_ListSlice [OF Suc.IH]]) (auto simp: has_type_Interface simp del: has_type.simps)
    have 2: "gives (has_type TInterface) (dec_bind Stream_Bytes (\<lambda>b. dec_ret (BytesV b)))"
      by (intro gives_bind [OF gives_Bytes] gives_ret) simp
    show ?thesis unfolding TInterface decode_val.simps decodeInterface_def
      by (rule gives_KindD) (use 1 2 in \<open>simp del: has_type.simps dec_bind.simps\<close>)
  qed
qed (simp add: gives_def)

section \<open>Properties of the decoder\<close>

lemma ready_NewStream:
  assumes "length b < 2 ^ 63"
  shows "ready (NewStream b True (of_nat (length b)))" "st_in (NewStream b True (of_nat (length b))) = b"
    "st_stack (NewStream b True (of_nat (length b))) = []" "st_byteval (NewStream b True (of_nat (length b))) < 128"
proof -
  have "unat (of_nat (length b) :: u64) = length b" using assms by (intro unat_of_nat_u64) simp
  with assms show "ready (NewStream b True (of_nat (length b)))" "st_in (NewStream b True (of_nat (length b))) = b"
    "st_stack (NewStream b True (of_nat (length b))) = []" "st_byteval (NewStream b True (of_nat (length b))) < 128"
    by (auto simp: NewStream_def Stream_Reset_def zero_Stream_def ready_def wf_stream_def Let_def)
qed

lemma DecodeBytes_Ok_iff:
  assumes "plain t" "length b < 2 ^ 63" "length b + depth t + 1 < fuel"
  shows "DecodeBytes fuel t b = Ok v \<longleftrightarrow> has_type t v \<and> enc_rval v = b"
proof -
  let ?s = "NewStream b True (of_nat (length b))"
  note s = ready_NewStream [OF assms(2)]
  show ?thesis
  proof
    assume "DecodeBytes fuel t b = Ok v"
    then obtain s' where "decode_val fuel t ?s = (Ok v, s')" "st_in s' = []"
      by (auto simp: DecodeBytes_def split: prod.splits res.splits if_splits)
    moreover from this decode_outcome [OF assms(1) s(1), of fuel] assms(3) s(2) have "has_type t v" "consumed ?s (enc_rval v) s'"
      by (simp_all add: outcome_def del: has_type.simps)
    moreover from this(2) have "enc_rval v @ st_in s' = b" using s(2) append_take_drop_id [of "length (enc_rval v)" b]
      by (simp only: consumed_def)
    ultimately show "has_type t v \<and> enc_rval v = b" by simp
  next
    assume v: "has_type t v \<and> enc_rval v = b"
    have "accepts (decode_val fuel t) ?s v (enc_rval v)"
      by (rule decode_complete) (use assms s v in \<open>auto simp: holds_def avail_def room_def\<close>)
    with v s show "DecodeBytes fuel t b = Ok v"
      by (auto simp: accepts_def DecodeBytes_def consumed_def)
  qed
qed

lemma list_all2_in2: "list_all2 P xs ys \<Longrightarrow> y \<in> set ys \<Longrightarrow> \<exists>x\<in>set xs. P x y"
  by (induction rule: list_all2_induct) auto

lemma has_type_nonneg: "has_type t v \<Longrightarrow> rval_nonneg v"
  by (induction t v rule: has_type.induct)
    (auto split: rval.splits option.splits simp: list_all_iff dest: list_all2_in2)





text \<open>
  C29: Decoded values are well typed.  For every Go type, optional pointers, tails and all byte arrays included, a value
  that a decoder returns has the type it was decoded for: integers are within their bit size, arrays have their
  length, structs one value of the right type per field, at any depth.
\<close>

theorem decode_well_typed:
  assumes "wf_type t" "st_byteval s < 128" "decode_val fuel t s = (Ok v, s')"
  shows "has_type t v"
  using gives_decode_val [OF assms(1), of fuel] assms(2,3) by (simp add: gives_def)

theorem decode_well_typed_witness:
  "\<exists>v s'. decode_val 20 (TStruct [TNilByteArray 1, TTail (TUint 8)]) (NewStream [0xC2, 0x80, 0x07] True 3) = (Ok v, s')
    \<and> has_type (TStruct [TNilByteArray 1, TTail (TUint 8)]) v"
proof -
  let ?d = "decode_val 20 (TStruct [TNilByteArray 1, TTail (TUint 8)]) (NewStream [0xC2, 0x80, 0x07] True 3)"
  have "is_ok (fst ?d)" by code_simp
  then obtain v s' where d: "?d = (Ok v, s')" by (cases ?d; cases "fst ?d") auto
  from decode_well_typed [OF _ _ this] d show ?thesis
    by (auto simp: wf_bits_def NewStream_def Stream_Reset_def zero_Stream_def simp del: has_type.simps decode_val.simps)
qed

text \<open>
  C40: A byte array of length one can hang the decoder.  \<^verbatim>\<open>[0xC1, 0x00]\<close> is what the encoder writes for a slice with the one
  element \<^verbatim>\<open>[1]byte{0}\<close>; decoding it again never returns, whatever the fuel: the element decoder drops the error of
  \<^verbatim>\<open>Uint\<close> and leaves the zero byte ahead, so that the loop over the elements reads it for ever.
\<close>

theorem byte_array_hangs:
  "EncodeToBytes (ListV [BytesV [0]]) = Ok [0xC1, 0x00] \<and> DecodeBytes fuel (TSlice (TByteArray 1)) [0xC1, 0x00] = Diverge"
proof
  show "EncodeToBytes (ListV [BytesV [0]]) = Ok [0xC1, 0x00]" by code_simp
  let ?s = "NewStream [0xC1, 0x00] True (of_nat (length [0xC1 :: byte, 0x00]))"
  let ?si = "inside 1 [0xC1] ?s" and ?d = "decodeByteArray 1"
  note s = ready_NewStream [of "[0xC1, 0x00]"]
  have a: "avail (length [0xC1 :: byte]) ?s" "1 \<le> room (eat (length [0xC1 :: byte]) ?s)"
    using s by (simp_all add: avail_def room_def)
  have l: "Stream_List ?s = (Ok 1, ?si)"
    using List_complete [OF s(1), of "[0xC1]" 1] a s by (simp add: rlp_head_def)
  have "ready ?si" "room ?si = 1" using ready_inside [OF s(1) a] by simp_all
  with s have k: "Stream_Kind ?si = (Ok (KByte, 0), arm KByte 0 0 (eat 1 ?si))"
    by (intro Kind_byte) (simp_all add: holds_def avail_def)
  let ?sj = "arm KByte 0 0 (eat 1 ?si)"
  have d: "?d ?si = (Ok (BytesV [0]), ?sj)" "?d ?sj = (Ok (BytesV [0]), ?sj)"
    using k by (simp_all add: decodeByteArray_def Stream_Uint_def Stream_uint_def)
  have loop: "fst (decodeSliceElems n ?d acc ?sj) = Diverge" for n acc
    using d(2) by (induction n arbitrary: acc) simp_all
  have "fst (decode_val fuel (TSlice (TByteArray 1)) ?s) = Diverge"
  proof (cases fuel)
    case (Suc n)
    then show ?thesis
    proof (cases n)
      case m: (Suc m)
      obtain r s' where "decodeSliceElems m ?d [BytesV [0]] ?sj = (r, s')" "r = Diverge"
        using loop [of m "[BytesV [0]]"] by (metis fst_conv prod.collapse)
      with Suc m l d(1) show ?thesis by (simp add: decodeListSlice_def)
    qed (use Suc l in \<open>simp add: decodeListSlice_def\<close>)
  qed simp
  then show "DecodeBytes fuel (TSlice (TByteArray 1)) [0xC1, 0x00] = Diverge"
    by (auto simp: DecodeBytes_def split: prod.splits res.splits)
qed

end
