(* ===== verification/Common_Types.thy ===== *)
theory Common_Types
  imports Prelude
begin

text \<open>
  Fixed-size values and byte-string helpers, from \<^verbatim>\<open>src/common/types.go\<close> and \<^verbatim>\<open>src/common/bytes.go\<close>: hashes
  and addresses made from byte strings of any length, padding, and the hex conversions.  A hash is
  a list of 32 bytes, an address a list of 20.
\<close>

type_synonym hash = bytes
type_synonym address = bytes

definition HashLength :: nat where "HashLength = 32"
definition AddressLength :: nat where "AddressLength = 20"

text \<open>\<open>SetBytes\<close> on a zero array of length \<open>n\<close>: crop from the left, then copy to the right end.\<close>

definition set_bytes :: "nat \<Rightarrow> bytes \<Rightarrow> bytes" where
  "set_bytes n b =
     (let b = (if length b > n then drop (length b - n) b else b)
      in replicate (n - length b) 0 @ b)"

definition BytesToHash :: "bytes \<Rightarrow> hash" where
  "BytesToHash b = set_bytes HashLength b"

definition BytesToAddress :: "bytes \<Rightarrow> address" where
  "BytesToAddress b = set_bytes AddressLength b"

definition BigToHash :: "nat \<Rightarrow> hash" where
  "BigToHash b = BytesToHash (big_bytes b)"

definition BigToAddress :: "nat \<Rightarrow> address" where
  "BigToAddress b = BytesToAddress (big_bytes b)"

definition Hash_Big :: "hash \<Rightarrow> nat" where
  "Hash_Big h = be_nat h"

definition Address_Hash :: "address \<Rightarrow> hash" where
  "Address_Hash a = BytesToHash a"

definition zeroHash :: hash where
  "zeroHash = replicate HashLength 0"

definition zeroAddress :: address where
  "zeroAddress = replicate AddressLength 0"

definition EmptyHash :: "hash \<Rightarrow> bool" where
  "EmptyHash h \<longleftrightarrow> h = zeroHash"

definition RightPadBytes :: "bytes \<Rightarrow> nat \<Rightarrow> bytes" where
  "RightPadBytes sl l = (if l \<le> length sl then sl else sl @ replicate (l - length sl) 0)"

definition LeftPadBytes :: "bytes \<Rightarrow> nat \<Rightarrow> bytes" where
  "LeftPadBytes sl l = (if l \<le> length sl then sl else replicate (l - length sl) 0 @ sl)"

section \<open>Hex\<close>

text \<open>
  Strings are byte strings.  \<open>hex_encode\<close> and \<open>hex_decode\<close> are \<^verbatim>\<open>EncodeToString\<close> and \<^verbatim>\<open>DecodeString\<close> of the
  standard package \<^verbatim>\<open>encoding/hex\<close>: decoding stops at the first bad digit and returns the bytes decoded so
  far, and an odd length loses the last digit.
\<close>

definition hex_digit :: "byte \<Rightarrow> byte" where
  "hex_digit n = (if n < 10 then 48 + n else 87 + n)"

definition hex_value :: "byte \<Rightarrow> byte option" where
  "hex_value c =
     (if 48 \<le> c \<and> c \<le> 57 then Some (c - 48)
      else if 97 \<le> c \<and> c \<le> 102 then Some (c - 87)
      else if 65 \<le> c \<and> c \<le> 70 then Some (c - 55)
      else None)"

fun hex_encode :: "bytes \<Rightarrow> bytes" where
  "hex_encode [] = []"
| "hex_encode (b # bs) = hex_digit (b div 16) # hex_digit (b mod 16) # hex_encode bs"

fun hex_decode :: "bytes \<Rightarrow> bytes" where
  "hex_decode (c # d # s) =
     (case (hex_value c, hex_value d) of
        (Some a, Some b) \<Rightarrow> (push_bit 4 a OR b) # hex_decode s
      | _ \<Rightarrow> [])"
| "hex_decode _ = []"

definition Bytes2Hex :: "bytes \<Rightarrow> bytes" where
  "Bytes2Hex d = hex_encode d"

definition Hex2Bytes :: "bytes \<Rightarrow> bytes" where
  "Hex2Bytes str = hex_decode str"

definition Hex2BytesFixed :: "bytes \<Rightarrow> nat \<Rightarrow> bytes" where
  "Hex2BytesFixed str flen =
     (let h = hex_decode str
      in if length h = flen then h
         else if length h > flen then drop (length h - flen) h
         else replicate (flen - length h) 0 @ h)"

definition ToHex :: "bytes \<Rightarrow> bytes" where
  "ToHex b =
     (let hex = Bytes2Hex b; hex = (if length hex = 0 then [48] else hex)
      in [48, 120] @ hex)"

definition FromHex :: "bytes \<Rightarrow> bytes" where
  "FromHex s =
     (if length s > 1 then
        let s = (if take 2 s = [48, 120] \<or> take 2 s = [48, 88] then drop 2 s else s);
            s = (if length s mod 2 = 1 then 48 # s else s)
        in Hex2Bytes s
      else [])"

definition IsHex :: "bytes \<Rightarrow> bool" where
  "IsHex str \<longleftrightarrow> length str \<ge> 4 \<and> length str mod 2 = 0 \<and> take 2 str = [48, 120]"

definition IsHexAddress :: "bytes \<Rightarrow> bool" where
  "IsHexAddress s \<longleftrightarrow>
     (length s = 2 + 2 * AddressLength \<and> IsHex s)
     \<or> (length s = 2 * AddressLength \<and> IsHex ([48, 120] @ s))"

section \<open>Sizes and values\<close>

lemma length_set_bytes [simp]: "length (set_bytes n b) = n"
  by (simp add: set_bytes_def Let_def)

lemma set_bytes_id [simp]: "length b = n \<Longrightarrow> set_bytes n b = b"
  by (simp add: set_bytes_def)

lemma length_BytesToHash [simp]: "length (BytesToHash b) = 32"
  by (simp add: BytesToHash_def HashLength_def)

lemma length_BytesToAddress [simp]: "length (BytesToAddress b) = 20"
  by (simp add: BytesToAddress_def AddressLength_def)

lemma BytesToHash_id [simp]: "length b = 32 \<Longrightarrow> BytesToHash b = b"
  by (simp add: BytesToHash_def HashLength_def)

lemma be_nat_replicate_0 [simp]: "be_nat (replicate n 0 @ b) = be_nat b"
  by (induction n) (simp_all add: be_nat_append)

lemma be_nat_drop:
  "k \<le> length b \<Longrightarrow> be_nat (drop (length b - k) b) = be_nat b mod 256 ^ k"
proof -
  assume k: "k \<le> length b"
  let ?p = "take (length b - k) b" and ?s = "drop (length b - k) b"
  have "be_nat (?p @ ?s) = be_nat ?p * 256 ^ length ?s + be_nat ?s" by (rule be_nat_append)
  moreover have "length ?s = k" using k by simp
  moreover have "be_nat ?s < 256 ^ k" using be_nat_less [of ?s] k by simp
  ultimately show ?thesis by simp
qed

lemma be_nat_set_bytes: "be_nat (set_bytes n b) = be_nat b mod 256 ^ n"
proof (cases "length b > n")
  case True
  then show ?thesis using be_nat_drop [of n b] by (simp add: set_bytes_def)
next
  case False
  then have "be_nat b < 256 ^ n"
    using be_nat_less [of b] power_increasing [of "length b" n "256 :: nat"] by linarith
  with False show ?thesis by (simp add: set_bytes_def)
qed


lemma hex_value_digit: "nibble n \<Longrightarrow> hex_value (hex_digit n) = Some n"
proof -
  assume "nibble n"
  then have n: "unat n < 16" by (simp add: unat_nibble)
  then have u: "unat (48 + n) = 48 + unat n" "unat (87 + n) = 87 + unat n"
    by (simp_all add: unat_word_ariths)
  have c: "n < 10 \<longleftrightarrow> unat n < 10" by (simp add: word_less_nat_alt)
  show ?thesis
    using n by (simp add: hex_value_def hex_digit_def c u word_le_nat_alt)
qed

lemma hex_decode_encode: "hex_decode (hex_encode b) = b"
  by (induction b) (simp_all add: hex_value_digit pack_div_mod)

lemma length_hex_encode [simp]: "length (hex_encode b) = 2 * length b"
  by (induction b) simp_all

section \<open>Properties\<close>

text \<open>
  \<^verbatim>\<open>FromHex\<close> inverts \<^verbatim>\<open>ToHex\<close> on every byte string except the empty one, which is printed as \<^verbatim>\<open>0x0\<close> and read
  back as a single zero byte.
\<close>

theorem FromHex_ToHex: "FromHex (ToHex b) = (if b = [] then [0] else b)"
proof (cases b)
  case Nil
  then show ?thesis by (simp add: FromHex_def ToHex_def Bytes2Hex_def Hex2Bytes_def hex_value_def)
next
  case (Cons c cs)
  then have "hex_encode b \<noteq> []" by simp
  then have t: "ToHex b = [48, 120] @ hex_encode b" by (simp add: ToHex_def Bytes2Hex_def)
  show ?thesis using Cons unfolding t
    by (simp add: FromHex_def Hex2Bytes_def hex_decode_encode del: hex_encode.simps)
qed

text \<open>
  \<^verbatim>\<open>BytesToHash\<close> and \<^verbatim>\<open>BytesToAddress\<close> always give 32 and 20 bytes and keep the big-endian value modulo
  the width: short inputs are padded on the left, long ones lose their leading bytes.
\<close>

theorem BytesToHash_value:
  "length (BytesToHash b) = 32 \<and> be_nat (BytesToHash b) = be_nat b mod 2 ^ 256
   \<and> length (BytesToAddress b) = 20 \<and> be_nat (BytesToAddress b) = be_nat b mod 2 ^ 160"
  by (simp add: BytesToHash_def BytesToAddress_def be_nat_set_bytes HashLength_def AddressLength_def)

end
