(* ===== verification/Mem_Database.thy ===== *)
theory Mem_Database
  imports Prelude
begin

text \<open>
  The key-value store: the interface its clients rely on (\<^verbatim>\<open>src/blockchain/storage/interface.go\<close>), and the
  in-memory database with its write batches (\<^verbatim>\<open>src/blockchain/storage/memory_database.go\<close>).  The locks of
  the source make every operation atomic; each operation is one function.
\<close>

datatype db_error = ErrNotFound

record MemDatabase =
  md_db :: "bytes \<rightharpoonup> bytes"

definition NewMemDatabase :: MemDatabase where
  "NewMemDatabase = \<lparr>md_db = Map.empty\<rparr>"

definition MemDatabase_Put :: "MemDatabase \<Rightarrow> bytes \<Rightarrow> bytes \<Rightarrow> ('e, MemDatabase) res" where
  "MemDatabase_Put db key val = Ok (db\<lparr>md_db := (md_db db)(key \<mapsto> val)\<rparr>)"

definition MemDatabase_Has :: "MemDatabase \<Rightarrow> bytes \<Rightarrow> bool" where
  "MemDatabase_Has db key \<longleftrightarrow> md_db db key \<noteq> None"

definition MemDatabase_Get :: "MemDatabase \<Rightarrow> bytes \<Rightarrow> (db_error, bytes) res" where
  "MemDatabase_Get db key = (case md_db db key of Some entry \<Rightarrow> Ok entry | None \<Rightarrow> Err ErrNotFound)"

definition MemDatabase_Delete :: "MemDatabase \<Rightarrow> bytes \<Rightarrow> MemDatabase" where
  "MemDatabase_Delete db key = db\<lparr>md_db := (md_db db)(key := None)\<rparr>"

record memBatch =
  mb_db :: MemDatabase
  mb_writes :: "(bytes \<times> bytes) list"
  mb_size :: nat

definition NewBatch :: "MemDatabase \<Rightarrow> memBatch" where
  "NewBatch db = \<lparr>mb_db = db, mb_writes = [], mb_size = 0\<rparr>"

definition memBatch_Put :: "memBatch \<Rightarrow> bytes \<Rightarrow> bytes \<Rightarrow> ('e, memBatch) res" where
  "memBatch_Put b key val = Ok (b\<lparr>mb_writes := mb_writes b @ [(key, val)], mb_size := mb_size b + length val\<rparr>)"

text \<open>\<open>Write\<close> applies the writes in order to the database the batch belongs to, and keeps them.\<close>

fun apply_writes :: "(bytes \<times> bytes) list \<Rightarrow> (bytes \<rightharpoonup> bytes) \<Rightarrow> (bytes \<rightharpoonup> bytes)" where
  "apply_writes [] m = m"
| "apply_writes ((k, v) # ws) m = apply_writes ws (m(k \<mapsto> v))"

definition memBatch_Write :: "memBatch \<Rightarrow> memBatch" where
  "memBatch_Write b = b\<lparr>mb_db := (mb_db b)\<lparr>md_db := apply_writes (mb_writes b) (md_db (mb_db b))\<rparr>\<rparr>"

definition ValueSize :: "memBatch \<Rightarrow> nat" where
  "ValueSize b = mb_size b"

section \<open>The interface\<close>

text \<open>A store that accepts every write and returns the last value written under a key.\<close>

locale kv_store =
  fixes get :: "'d \<Rightarrow> bytes \<Rightarrow> bytes option"
    and put :: "'d \<Rightarrow> bytes \<Rightarrow> bytes \<Rightarrow> ('e, 'd) res"
  assumes put_get: "\<exists>d'. put d k v = Ok d' \<and> get d' = (get d)(k \<mapsto> v)"
begin

text \<open>A sequence of writes and what is read back afterwards.\<close>

lemma puts_get:
  "\<exists>d'. foldl (\<lambda>r (k, v). res_bind r (\<lambda>d. put d k v)) (Ok d) ws = Ok d' \<and> get d' = apply_writes ws (get d)"
proof (induction ws arbitrary: d)
  case (Cons w ws)
  obtain k v where w: "w = (k, v)" by force
  from put_get obtain d1 where "put d k v = Ok d1" "get d1 = (get d)(k \<mapsto> v)" by blast
  with Cons.IH [of d1] w show ?case by (simp del: fun_upd_apply)
qed simp

end

interpretation mem: kv_store md_db MemDatabase_Put
  by unfold_locales (simp add: MemDatabase_Put_def)

definition batch_view :: "memBatch \<Rightarrow> bytes \<Rightarrow> bytes option" where
  "batch_view b = md_db (mb_db (memBatch_Write b))"

lemma apply_writes_append: "apply_writes (ws @ [(k, v)]) m = (apply_writes ws m)(k \<mapsto> v)"
  by (induction ws m rule: apply_writes.induct) (simp_all del: fun_upd_apply)

interpretation batch: kv_store batch_view memBatch_Put
  by unfold_locales (simp add: memBatch_Put_def batch_view_def memBatch_Write_def apply_writes_append)

section \<open>Property\<close>

text \<open>
  A batch is a delayed sequence of writes: after any puts into a fresh batch nothing has reached the
  database, and \<^verbatim>\<open>Write\<close> gives exactly the database that the same puts made one by one would have given.
\<close>

theorem batch_equals_puts:
  "\<exists>b d. foldl (\<lambda>r (k, v). res_bind r (\<lambda>b. memBatch_Put b k v)) (Ok (NewBatch db)) ws = (Ok b :: (unit, memBatch) res)
     \<and> foldl (\<lambda>r (k, v). res_bind r (\<lambda>d. MemDatabase_Put d k v)) (Ok db) ws = (Ok d :: (unit, MemDatabase) res)
     \<and> mb_db b = db \<and> mb_db (memBatch_Write b) = d"
proof -
  have db: "mb_db b = db"
    if "foldl (\<lambda>r (k, v). res_bind r (\<lambda>b. memBatch_Put b k v)) (Ok b0) ws = (Ok b :: (unit, memBatch) res)"
      "mb_db b0 = db" for b b0
    using that
  proof (induction ws arbitrary: b0)
    case (Cons w ws)
    then show ?case by (cases w) (auto simp: memBatch_Put_def split: prod.splits)
  qed simp
  from batch.puts_get [of "NewBatch db" ws] obtain b
    where b: "foldl (\<lambda>r (k, v). res_bind r (\<lambda>b. memBatch_Put b k v)) (Ok (NewBatch db)) ws = (Ok b :: (unit, memBatch) res)"
      "batch_view b = apply_writes ws (batch_view (NewBatch db))" by blast
  from mem.puts_get [of db ws] obtain d
    where d: "foldl (\<lambda>r (k, v). res_bind r (\<lambda>d. MemDatabase_Put d k v)) (Ok db) ws = (Ok d :: (unit, MemDatabase) res)"
      "md_db d = apply_writes ws (md_db db)" by blast
  have "mb_db b = db" using db [OF b(1)] by (simp add: NewBatch_def)
  moreover have "md_db (mb_db (memBatch_Write b)) = md_db d"
    using b(2) d(2) by (simp add: batch_view_def NewBatch_def memBatch_Write_def)
  ultimately show ?thesis using b(1) d(1) by auto
qed

end
