(* ===== verification/Trie_Encoding.thy ===== *)
theory Trie_Encoding
  imports Common_Types
begin

text \<open>
  The three key encodings of the Merkle Patricia trie, from \<^verbatim>\<open>src/common/trie/encoding.go\<close>: key bytes,
  hex (one byte per nibble and an optional terminator 16) and compact (hex prefix), with the round
  trips between them and the specification of the common-prefix length the trie branches on.
\<close>

definition hasTerm :: "bytes \<Rightarrow> bool" where
  "hasTerm s \<longleftrightarrow> length s > 0 \<and> s ! (length s - 1) = 16"

fun keybytesToHex :: "bytes \<Rightarrow> bytes" where
  "keybytesToHex [] = [16]"
| "keybytesToHex (b # str) = b div 16 # b mod 16 # keybytesToHex str"

text \<open>
  \<open>decodeNibbles\<close> packs pairs of nibbles; the destination has room for exactly the pairs, so the only
  failing access is the second nibble of an incomplete pair.
\<close>

fun decodeNibbles :: "bytes \<Rightarrow> ('e, bytes) res" where
  "decodeNibbles [] = Ok []"
| "decodeNibbles [a] = Panic"
| "decodeNibbles (a # b # nibbles) =
     res_map (\<lambda>r. (push_bit 4 a OR b) # r) (decodeNibbles nibbles)"

definition hexToCompact :: "bytes \<Rightarrow> ('e, bytes) res" where
  "hexToCompact hex =
     (let terminator = (if hasTerm hex then 1 else 0) :: byte;
          hex = (if hasTerm hex then butlast hex else hex);
          buf0 = push_bit 5 terminator
      in if odd (length hex)
         then res_map (\<lambda>r. (buf0 OR push_bit 4 1 OR hd hex) # r) (decodeNibbles (tl hex))
         else res_map (\<lambda>r. buf0 # r) (decodeNibbles hex))"

definition compactToHex :: "bytes \<Rightarrow> ('e, bytes) res" where
  "compactToHex compact =
     (let base = butlast (keybytesToHex compact)
      in if base = [] then Panic
         else let base' = (if base ! 0 \<ge> 2 then base @ [16] else base);
                  chop = 2 - unat (base' ! 0 AND 1)
              in Ok (drop chop base'))"

definition hexToKeybytes :: "bytes \<Rightarrow> ('e, bytes) res" where
  "hexToKeybytes hex =
     (let hex = (if hasTerm hex then butlast hex else hex)
      in if odd (length hex) then Panic else decodeNibbles hex)"

fun prefixLen :: "bytes \<Rightarrow> bytes \<Rightarrow> nat" where
  "prefixLen (a # as) (b # bs) = (if a \<noteq> b then 0 else Suc (prefixLen as bs))"
| "prefixLen _ _ = 0"

section \<open>Nibble keys\<close>

definition nibbles :: "bytes \<Rightarrow> bool" where
  "nibbles k \<longleftrightarrow> list_all nibble k"

text \<open>\<open>hexkey k\<close>: a complete key in hex encoding, nibbles followed by the terminator.\<close>

definition hexkey :: "bytes \<Rightarrow> bool" where
  "hexkey k \<longleftrightarrow> k \<noteq> [] \<and> nibbles (butlast k) \<and> last k = 16"

lemma hasTerm_last: "hasTerm s \<longleftrightarrow> s \<noteq> [] \<and> last s = 16"
  by (cases s rule: rev_cases) (auto simp: hasTerm_def)

lemma nibbles_simps [simp]:
  "nibbles []" "nibbles (a # k) \<longleftrightarrow> nibble a \<and> nibbles k"
  "nibbles (k @ l) \<longleftrightarrow> nibbles k \<and> nibbles l"
  by (simp_all add: nibbles_def)

lemma hexkey_Nil [simp]: "\<not> hexkey []"
  by (simp add: hexkey_def)

lemma hexkey_Cons: "hexkey (a # k) \<longleftrightarrow> (if k = [] then a = 16 else nibble a \<and> hexkey k)"
  by (simp add: hexkey_def)

lemma hexkey_append: "k \<noteq> [] \<Longrightarrow> hexkey (l @ k) \<longleftrightarrow> nibbles l \<and> hexkey k"
  by (auto simp: hexkey_def butlast_append)

lemma nibbles_not_hexkey: "nibbles k \<Longrightarrow> \<not> hexkey k"
  by (cases k rule: rev_cases) (auto simp: hexkey_def)

lemma nibbles_not_hasTerm: "nibbles k \<Longrightarrow> \<not> hasTerm k"
  by (cases k rule: rev_cases) (auto simp: hasTerm_last)

lemma hexkey_hasTerm: "hexkey k \<Longrightarrow> hasTerm k"
  by (simp add: hexkey_def hasTerm_last)

lemma keybytesToHex_neq_Nil [simp]: "keybytesToHex s \<noteq> []"
  by (cases s) simp_all

lemma length_keybytesToHex: "length (keybytesToHex s) = 2 * length s + 1"
  by (induction s) simp_all

lemma hexkey_keybytesToHex: "hexkey (keybytesToHex s)"
  by (induction s) (simp_all add: hexkey_Cons)

lemma keybytesToHex_inj: "keybytesToHex s = keybytesToHex t \<longleftrightarrow> s = t"
proof (induction s arbitrary: t)
  case Nil
  then show ?case by (cases t) auto
next
  case (Cons b s)
  have "b = c" if "b div 16 = c div 16" "b mod 16 = c mod 16" for c :: byte
    using that by (metis div_mult_mod_eq)
  with Cons show ?case by (cases t) auto
qed

section \<open>Round trips\<close>

lemma decodeNibbles_keybytes:
  "decodeNibbles (butlast (keybytesToHex s)) = Ok s"
  by (induction s) (simp_all add: pack_div_mod)

lemma decodeNibbles_Ok:
  "even (length k) \<Longrightarrow> nibbles k \<Longrightarrow>
   \<exists>r. decodeNibbles k = (Ok r :: ('e, bytes) res) \<and> butlast (keybytesToHex r) = k"
proof (induction k rule: decodeNibbles.induct)
  case (3 a b k)
  then obtain r where "decodeNibbles k = (Ok r :: ('e, bytes) res)" "butlast (keybytesToHex r) = k"
    by auto
  with 3 show ?case by (simp add: pack_nibbles)
qed simp_all

lemma hexToKeybytes_keybytesToHex: "hexToKeybytes (keybytesToHex s) = Ok s"
  using hexkey_keybytesToHex [of s] decodeNibbles_keybytes [of s]
  by (simp add: hexToKeybytes_def hexkey_hasTerm length_keybytesToHex)

lemma flag_byte:
  "(push_bit 5 (of_bool t) :: byte) div 16 = 2 * of_bool t"
  "(push_bit 5 (of_bool t) :: byte) mod 16 = 0"
  by (atomize (full), cases t) (simp_all add: push_bit_eq_mult)

lemma flag_tests:
  "2 \<le> (2 * of_bool t :: byte) \<longleftrightarrow> t"
  "2 \<le> (2 * of_bool t + 1 :: byte) \<longleftrightarrow> t"
  "unat ((2 * of_bool t :: byte) AND 1) = 0"
  "unat ((2 * of_bool t + 1 :: byte) AND 1) = 1"
  by (atomize (full), cases t) (simp_all add: word_le_nat_alt)

lemma flag_byte_odd:
  assumes "nibble a"
  shows "(push_bit 5 (of_bool t) OR push_bit 4 1 OR a :: byte) div 16 = 2 * of_bool t + 1"
    and "(push_bit 5 (of_bool t) OR push_bit 4 1 OR a :: byte) mod 16 = a"
proof -
  have e: "push_bit 5 (of_bool t) OR push_bit 4 1 = (push_bit 4 (2 * of_bool t + 1) :: byte)"
    by (cases t) (simp_all add: push_bit_eq_mult)
  have n: "nibble (2 * of_bool t + 1)" by (cases t) (simp_all add: nibble_def)
  show "(push_bit 5 (of_bool t) OR push_bit 4 1 OR a :: byte) div 16 = 2 * of_bool t + 1"
    and "(push_bit 5 (of_bool t) OR push_bit 4 1 OR a :: byte) mod 16 = a"
    unfolding or.assoc [symmetric] e using pack_nibbles [OF n assms] by simp_all
qed

text \<open>A key as it is stored in a short node: nibbles, with the terminator or without.\<close>

definition stored_key :: "bytes \<Rightarrow> bool" where
  "stored_key k \<longleftrightarrow> nibbles k \<or> hexkey k"

lemma stored_key_cases:
  assumes "stored_key k"
  obtains t l where "nibbles l" "k = l @ (if t then [16] else [])" "hasTerm k = t"
proof (cases "hasTerm k")
  case True
  with assms have "hexkey k" using nibbles_not_hasTerm by (auto simp: stored_key_def)
  then show ?thesis
    using True that [of "butlast k" True] by (auto simp: hexkey_def) (metis append_butlast_last_id)
next
  case False
  with assms have "nibbles k" using hexkey_hasTerm by (auto simp: stored_key_def)
  then show ?thesis using False that [of k False] by simp
qed

lemma butlast_keybytes_Cons:
  "butlast (keybytesToHex (b # r)) = b div 16 # b mod 16 # butlast (keybytesToHex r)"
  by simp

lemma compact_roundtrip:
  assumes "stored_key k"
  shows "res_bind (hexToCompact k) compactToHex = (Ok k :: ('e, bytes) res)"
  using assms
proof (cases rule: stored_key_cases)
  case (1 t l)
  have l: "(if hasTerm k then butlast k else k) = l" using 1 by (cases t) auto
  have t: "(if hasTerm k then 1 else 0 :: byte) = of_bool t" using 1 by simp
  note cmp = flag_tests(1,2) [of t] and par = flag_tests(3,4) [of t]
  show ?thesis
  proof (cases "odd (length l)")
    case True
    then obtain a m where m: "l = a # m" by (cases l) auto
    with True 1 decodeNibbles_Ok [of m, where 'e = 'e] obtain r
      where r: "decodeNibbles m = (Ok r :: ('e, bytes) res)" "butlast (keybytesToHex r) = m" by auto
    define b :: byte where "b = push_bit 5 (of_bool t) OR push_bit 4 1 OR a"
    have "hexToCompact k = (Ok (b # r) :: ('e, bytes) res)"
      unfolding hexToCompact_def Let_def l t b_def using True m r by simp
    moreover have "nibble a" using 1 m by simp
    then have "b div 16 = 2 * of_bool t + 1" "b mod 16 = a"
      unfolding b_def by (simp_all only: flag_byte_odd)
    ultimately show ?thesis
      using r m 1(2) cmp par by (simp add: compactToHex_def Let_def)
  next
    case False
    with 1 decodeNibbles_Ok [of l, where 'e = 'e] obtain r
      where r: "decodeNibbles l = (Ok r :: ('e, bytes) res)" "butlast (keybytesToHex r) = l" by auto
    have "hexToCompact k = (Ok (push_bit 5 (of_bool t) # r) :: ('e, bytes) res)"
      unfolding hexToCompact_def Let_def l t using False r by simp
    then show ?thesis
      using r 1(2) cmp par by (simp add: compactToHex_def Let_def flag_byte)
  qed
qed

lemma prefixLen_le: "prefixLen a b \<le> length a" "prefixLen a b \<le> length b"
  by (induction a b rule: prefixLen.induct) simp_all

lemma prefixLen_take: "take (prefixLen a b) a = take (prefixLen a b) b"
  by (induction a b rule: prefixLen.induct) simp_all

lemma prefixLen_differ:
  "prefixLen a b < length a \<Longrightarrow> prefixLen a b < length b \<Longrightarrow> a ! prefixLen a b \<noteq> b ! prefixLen a b"
  by (induction a b rule: prefixLen.induct) auto

lemma prefixLen_full: "prefixLen a b = length b \<longleftrightarrow> take (length b) a = b"
  by (induction a b rule: prefixLen.induct) auto

lemma prefixLen_append [simp]: "prefixLen (k @ x) k = length k"
  by (simp add: prefixLen_full)

section \<open>Property\<close>

text \<open>
  The key encodings are lossless: every key a short node can hold (nibbles, with or without the
  terminator, of odd or even length) survives \<^verbatim>\<open>hexToCompact\<close> followed by \<^verbatim>\<open>compactToHex\<close>, and every byte
  key survives \<^verbatim>\<open>keybytesToHex\<close> followed by \<^verbatim>\<open>hexToKeybytes\<close>; neither conversion panics.
\<close>

theorem key_encodings_roundtrip:
  assumes "stored_key k"
  shows "res_bind (hexToCompact k) compactToHex = (Ok k :: ('e, bytes) res)
    \<and> hexToKeybytes (keybytesToHex s) = (Ok s :: ('e, bytes) res)"
  using compact_roundtrip [OF assms] hexToKeybytes_keybytesToHex by blast

theorem key_encodings_roundtrip_witness:
  "res_bind (hexToCompact [1, 2, 3, 16]) compactToHex = (Ok [1, 2, 3, 16] :: (unit, bytes) res)
   \<and> hexToKeybytes [1, 2, 3, 4, 16] = (Ok [0x12, 0x34] :: (unit, bytes) res)"
  using key_encodings_roundtrip [of "[1, 2, 3, 16]" "[0x12, 0x34]"]
  by (simp add: stored_key_def hexkey_def nibble_def)

end
