(* ===== verification/Trie_Node.thy ===== *)
theory Trie_Node
  imports Trie_Encoding Rlp_Raw
begin

text \<open>
  Trie nodes and their database form, from \<^verbatim>\<open>src/common/trie/node.go\<close>: the node variants with their
  cache flags and the decoder from RLP.  A node of the interface type is the datatype \<open>node\<close>, with
  \<open>NilN\<close> for the nil interface.
\<close>

section \<open>Nodes\<close>

record nodeFlag =
  nf_hash :: "bytes option"
  nf_gen :: u16
  nf_dirty :: bool

datatype node =
    NilN
  | FullN (n_children: "node list") (n_flags: nodeFlag)
  | ShortN (n_key: bytes) (n_val: node) (n_flags: nodeFlag)
  | HashN bytes
  | ValueN bytes

definition nodeFlag_canUnload :: "nodeFlag \<Rightarrow> u16 \<Rightarrow> u16 \<Rightarrow> bool" where
  "nodeFlag_canUnload n cachegen cachelimit \<longleftrightarrow> \<not> nf_dirty n \<and> cachegen - nf_gen n \<ge> cachelimit"

fun node_canUnload :: "node \<Rightarrow> u16 \<Rightarrow> u16 \<Rightarrow> bool" where
  "node_canUnload (FullN _ fl) gen limit = nodeFlag_canUnload fl gen limit"
| "node_canUnload (ShortN _ _ fl) gen limit = nodeFlag_canUnload fl gen limit"
| "node_canUnload _ gen limit = False"

fun node_cache :: "node \<Rightarrow> bytes option \<times> bool" where
  "node_cache (FullN _ fl) = (nf_hash fl, nf_dirty fl)"
| "node_cache (ShortN _ _ fl) = (nf_hash fl, nf_dirty fl)"
| "node_cache _ = (None, True)"

section \<open>Decoding\<close>

text \<open>
  Decoding errors: an RLP error, and the ones the decoder makes itself; \<open>wrapError\<close> adds a path to the
  text of an error and keeps its presence, which is all the callers test.
\<close>

datatype decode_error =
    DecodeRlp rlp_error
  | InvalidElements nat
  | InvalidValueNode rlp_error
  | OversizedEmbedded nat
  | InvalidStringSize nat

fun lift_rlp :: "(rlp_error \<Rightarrow> decode_error) \<Rightarrow> (rlp_error, 'a) res \<Rightarrow> (decode_error, 'a) res" where
  "lift_rlp f (Ok a) = Ok a"
| "lift_rlp f (Err e) = Err (f e)"
| "lift_rlp f Panic = Panic"
| "lift_rlp f Diverge = Diverge"

definition hashLen :: nat where
  "hashLen = 32"

type_synonym node_decoder = "bytes option \<Rightarrow> bytes \<Rightarrow> (decode_error, node) res"

text \<open>
  The decoder of nodes calls itself on embedded nodes; \<open>decodeRef\<close>, \<open>decodeShort\<close> and \<open>decodeFull\<close> take
  the decoder they call back as the parameter \<open>dn\<close>.
\<close>

definition decodeRef :: "node_decoder \<Rightarrow> bytes \<Rightarrow> (decode_error, node \<times> bytes) res" where
  "decodeRef dn buf =
     res_bind (lift_rlp DecodeRlp (Split buf)) (\<lambda>(kind, val, rest).
       if kind = KList then
         (let sz = length buf - length rest
          in if sz > hashLen then Err (OversizedEmbedded sz)
             else res_map (\<lambda>n. (n, rest)) (dn None buf))
       else if kind = KString \<and> length val = 0 then Ok (NilN, rest)
       else if kind = KString \<and> length val = 32 then Ok (HashN val, rest)
       else Err (InvalidStringSize (length val)))"

definition decodeShort ::
  "node_decoder \<Rightarrow> bytes option \<Rightarrow> bytes \<Rightarrow> u16 \<Rightarrow> (decode_error, node) res" where
  "decodeShort dn hash elems cachegen =
     res_bind (lift_rlp DecodeRlp (SplitString elems)) (\<lambda>(kbuf, rest).
       let flag = \<lparr>nf_hash = hash, nf_gen = cachegen, nf_dirty = False\<rparr>
       in res_bind (compactToHex kbuf) (\<lambda>key.
            if hasTerm key then
              res_map (\<lambda>(val, _). ShortN key (ValueN val) flag)
                (lift_rlp InvalidValueNode (SplitString rest))
            else
              res_map (\<lambda>(r, _). ShortN key r flag) (decodeRef dn rest)))"

fun decodeFull_loop :: "node_decoder \<Rightarrow> nat \<Rightarrow> bytes \<Rightarrow> (decode_error, node list \<times> bytes) res" where
  "decodeFull_loop dn 0 elems = Ok ([], elems)"
| "decodeFull_loop dn (Suc i) elems =
     res_bind (decodeRef dn elems) (\<lambda>(cld, rest).
       res_map (\<lambda>(clds, elems'). (cld # clds, elems')) (decodeFull_loop dn i rest))"

definition decodeFull ::
  "node_decoder \<Rightarrow> bytes option \<Rightarrow> bytes \<Rightarrow> u16 \<Rightarrow> (decode_error, node) res" where
  "decodeFull dn hash elems cachegen =
     res_bind (decodeFull_loop dn 16 elems) (\<lambda>(clds, elems').
       res_map (\<lambda>(val, _).
           FullN (clds @ [if length val > 0 then ValueN val else NilN])
             \<lparr>nf_hash = hash, nf_gen = cachegen, nf_dirty = False\<rparr>)
         (lift_rlp DecodeRlp (SplitString elems')))"

fun decodeNode_fuel ::
  "nat \<Rightarrow> bytes option \<Rightarrow> bytes \<Rightarrow> u16 \<Rightarrow> (decode_error, node) res" where
  "decodeNode_fuel 0 hash buf cachegen = Diverge"
| "decodeNode_fuel (Suc fuel) hash buf cachegen =
     (if length buf = 0 then Err (DecodeRlp ErrUnexpectedEOF)
      else
        res_bind (lift_rlp DecodeRlp (SplitList buf)) (\<lambda>(elems, _).
          let dn = (\<lambda>h b. decodeNode_fuel fuel h b cachegen)
          in case CountValues elems of
               Ok c \<Rightarrow>
                 if c = 2 then decodeShort dn hash elems cachegen
                 else if c = 17 then decodeFull dn hash elems cachegen
                 else Err (InvalidElements c)
             | Err _ \<Rightarrow> Err (InvalidElements 0)
             | Panic \<Rightarrow> Panic
             | Diverge \<Rightarrow> Diverge))"

text \<open>Each nesting level of embedded nodes is strictly shorter, so the length of the input bounds the depth.\<close>

definition decodeNode :: "bytes option \<Rightarrow> bytes \<Rightarrow> u16 \<Rightarrow> (decode_error, node) res" where
  "decodeNode hash buf cachegen = decodeNode_fuel (Suc (length buf)) hash buf cachegen"

definition mustDecodeNode :: "bytes \<Rightarrow> bytes \<Rightarrow> u16 \<Rightarrow> ('e, node) res" where
  "mustDecodeNode hash buf cachegen =
     (case decodeNode (Some hash) buf cachegen of
        Ok n \<Rightarrow> Ok n | Err _ \<Rightarrow> Panic | Panic \<Rightarrow> Panic | Diverge \<Rightarrow> Diverge)"

section \<open>Decoding returns\<close>

lemma readSize_no_Diverge: "readSize b n \<noteq> Diverge"
  by (simp add: readSize_def Let_def)

lemma res_map_Diverge [simp]: "res_map f r = Diverge \<longleftrightarrow> r = Diverge"
  by (cases r) simp_all

lemma res_bind_Diverge:
  "res_bind r f = Diverge \<longleftrightarrow> r = Diverge \<or> (\<exists>x. r = Ok x \<and> f x = Diverge)"
  by (cases r) simp_all

lemma lift_rlp_Diverge [simp]: "lift_rlp f r = Diverge \<longleftrightarrow> r = Diverge"
  by (cases r) simp_all

lemma lift_rlp_Ok [simp]: "lift_rlp f r = Ok x \<longleftrightarrow> r = Ok x"
  by (cases r) simp_all

lemma readKind_no_Diverge: "rlp_readKind b \<noteq> Diverge"
  by (auto simp: rlp_readKind_def Let_def res_bind_Diverge readSize_no_Diverge split: if_splits)

lemma Split_no_Diverge [simp]: "Split b \<noteq> Diverge" "SplitString b \<noteq> Diverge" "SplitList b \<noteq> Diverge"
  by (auto simp: Split_def SplitString_def SplitList_def readKind_no_Diverge res_bind_Diverge)

lemma CountValues_loop_no_Diverge: "CountValues_loop i b \<noteq> Diverge"
proof (induction i b rule: CountValues_loop.induct)
  case (1 i b)
  then show ?case
    by (subst CountValues_loop.simps) (auto simp: readKind_no_Diverge split: res.split)
qed

lemma compactToHex_no_Diverge [simp]: "compactToHex b \<noteq> Diverge"
  by (simp add: compactToHex_def Let_def)

lemma readKind_list_tag: "rlp_readKind b = Ok (KList, ts, cs) \<Longrightarrow> 0 < unat ts"
proof -
  assume "rlp_readKind b = Ok (KList, ts, cs)"
  then show ?thesis
    using ucast_succ_neq_0
    by (auto simp: rlp_readKind_def Let_def unat_gt_0 split: if_splits)
qed

lemma SplitList_shorter: "SplitList b = Ok (e, r) \<Longrightarrow> b \<noteq> [] \<Longrightarrow> length e < length b"
proof -
  assume "SplitList b = Ok (e, r)" and b: "b \<noteq> []"
  then obtain ts cs where rk: "rlp_readKind b = Ok (KList, ts, cs)"
    and e: "e = take (unat cs) (drop (unat ts) b)"
    by (auto simp: SplitList_def Split_def split: if_splits)
  have "length e \<le> length b - unat ts" using e by simp
  with readKind_list_tag [OF rk] b show ?thesis by (cases b) auto
qed

lemma Split_rest: "Split b = Ok (k, c, r) \<Longrightarrow> length r \<le> length b"
  by (auto simp: Split_def)

lemma SplitString_rest: "SplitString b = Ok (c, r) \<Longrightarrow> length r \<le> length b"
  by (auto simp: SplitString_def split: if_splits dest!: Split_rest)

lemma decodeRef_no_Diverge:
  "(\<And>h b. length b \<le> length buf \<Longrightarrow> dn h b \<noteq> Diverge) \<Longrightarrow> decodeRef dn buf \<noteq> Diverge"
  by (auto simp: decodeRef_def res_bind_Diverge Let_def split: if_splits)

lemma decodeRef_rest: "decodeRef dn buf = Ok (n, r) \<Longrightarrow> length r \<le> length buf"
  by (auto simp: decodeRef_def Let_def split: if_splits dest: Split_rest)

lemma decodeFull_loop_no_Diverge:
  "(\<And>h b. length b \<le> length buf \<Longrightarrow> dn h b \<noteq> Diverge) \<Longrightarrow> decodeFull_loop dn i buf \<noteq> Diverge"
proof (induction i arbitrary: buf)
  case (Suc i)
  have "decodeFull_loop dn i r \<noteq> Diverge" if "decodeRef dn buf = Ok (c, r)" for c r
    using Suc decodeRef_rest [OF that] by (meson le_trans)
  with decodeRef_no_Diverge [OF Suc.prems] show ?case by (auto simp: res_bind_Diverge)
qed simp

lemma decodeNode_fuel_no_Diverge:
  "length buf < fuel \<Longrightarrow> decodeNode_fuel fuel hash buf gen \<noteq> Diverge"
proof (induction fuel arbitrary: hash buf)
  case (Suc f)
  let ?dn = "\<lambda>h b. decodeNode_fuel f h b gen"
  have dn: "?dn h b \<noteq> Diverge" if "length b \<le> length e" "SplitList buf = Ok (e, r)" "buf \<noteq> []" for h b e r
    using that SplitList_shorter [OF that(2,3)] Suc by simp
  have short: "decodeShort ?dn hash e gen \<noteq> Diverge" if "SplitList buf = Ok (e, r)" "buf \<noteq> []" for e r
  proof -
    have "decodeRef ?dn b \<noteq> Diverge" if "SplitString e = Ok (k, b)" for k b
      using decodeRef_no_Diverge [of b ?dn] dn \<open>SplitList buf = _\<close> \<open>buf \<noteq> []\<close> SplitString_rest [OF that]
      by (meson le_trans)
    then show ?thesis by (auto simp: decodeShort_def res_bind_Diverge Let_def split: if_splits)
  qed
  have full: "decodeFull ?dn hash e gen \<noteq> Diverge" if "SplitList buf = Ok (e, r)" "buf \<noteq> []" for e r
    using decodeFull_loop_no_Diverge [of e ?dn 16] dn that
    by (auto simp: decodeFull_def res_bind_Diverge)
  show ?case
    using short full CountValues_loop_no_Diverge
    by (auto simp: res_bind_Diverge Let_def CountValues_def split: res.split)
qed simp

section \<open>Property\<close>

text \<open>
  Decoding a node from the database always returns: on every input the nested decoder ends, with a
  node, an error or a panic, and never recurses deeper than the input is long.
\<close>

theorem decodeNode_returns: "decodeNode hash buf cachegen \<noteq> Diverge"
  unfolding decodeNode_def by (rule decodeNode_fuel_no_Diverge) simp

end
