(* ===== verification/Trie_Spec.thy ===== *)
theory Trie_Spec
  imports Trie_Encoding
begin

text \<open>
  The mathematical trie: trees without database references and cache flags, the well-formedness the
  Patricia trie keeps (its canonical form), and the pure insertion and deletion the code performs.
  The operations satisfy the laws of a finite map, and the canonical form makes the tree a function
  of the map it stores.
\<close>

section \<open>Trees\<close>

datatype ptree = PNil | PVal bytes | PShort bytes ptree | PFull "ptree list"

fun lookup :: "ptree \<Rightarrow> bytes \<Rightarrow> bytes option" where
  "lookup PNil x = None"
| "lookup (PVal v) x = (if x = [] then Some v else None)"
| "lookup (PShort k t) x = (if take (length k) x = k then lookup t (drop (length k) x) else None)"
| "lookup (PFull cs) x =
     (case x of [] \<Rightarrow> None | a # y \<Rightarrow> if unat a < length cs then lookup (cs ! unat a) y else None)"

definition filled :: "ptree list \<Rightarrow> nat" where
  "filled cs = length (filter (\<lambda>c. c \<noteq> PNil) cs)"

fun is_val :: "ptree \<Rightarrow> bool" where
  "is_val (PVal v) = (v \<noteq> [])"
| "is_val _ = False"

fun is_full :: "ptree \<Rightarrow> bool" where
  "is_full (PFull _) = True"
| "is_full _ = False"

text \<open>
  \<open>canon\<close>: the canonical form of a non-empty subtree.  A short node has a non-empty key and leads either
  over a terminated key to a value or over nibbles to a branch, never to another short node; a
  branch has 17 children, at least two of them present, and only the last may be a value.
\<close>

lemma size_take_ptree: "c \<in> set (take n cs) \<Longrightarrow> size c < Suc (size_list size cs)" for c :: ptree
  by (metis in_set_takeD le_imp_less_Suc size_list_estimation' order_refl)

function canon :: "ptree \<Rightarrow> bool" where
  "canon PNil = False"
| "canon (PVal v) = False"
| "canon (PShort k t) \<longleftrightarrow> (hexkey k \<and> is_val t) \<or> (k \<noteq> [] \<and> nibbles k \<and> is_full t \<and> canon t)"
| "canon (PFull cs) \<longleftrightarrow> length cs = 17 \<and> list_all (\<lambda>c. c = PNil \<or> canon c) (take 16 cs)
     \<and> (cs ! 16 = PNil \<or> is_val (cs ! 16)) \<and> 2 \<le> filled cs"
  by pat_completeness auto
termination
  by (relation "measure size") (auto intro: size_take_ptree)

definition canon_root :: "ptree \<Rightarrow> bool" where
  "canon_root t \<longleftrightarrow> t = PNil \<or> canon t"

section \<open>Operations\<close>

definition pleaf :: "bytes \<Rightarrow> ptree \<Rightarrow> ptree" where
  "pleaf k t = (if k = [] then t else PShort k t)"

definition pbranch :: "byte \<Rightarrow> ptree \<Rightarrow> byte \<Rightarrow> ptree \<Rightarrow> ptree" where
  "pbranch a s b t = PFull ((replicate 17 PNil)[unat a := s, unat b := t])"

fun pinsert :: "ptree \<Rightarrow> bytes \<Rightarrow> ptree \<Rightarrow> ptree" where
  "pinsert PNil key v = pleaf key v"
| "pinsert (PVal u) key v = (if key = [] then v else PVal u)"
| "pinsert (PShort nk t) key v =
     (if key = [] then v
      else
        let m = prefixLen key nk
        in if m = length nk then PShort nk (pinsert t (drop m key) v)
           else pleaf (take m key)
                  (pbranch (nk ! m) (pleaf (drop (m + 1) nk) t) (key ! m) (pleaf (drop (m + 1) key) v)))"
| "pinsert (PFull cs) key v =
     (case key of
        [] \<Rightarrow> v
      | a # y \<Rightarrow> if unat a < length cs then PFull (cs[unat a := pinsert (cs ! unat a) y v]) else PFull cs)"

fun premaining :: "int \<Rightarrow> int \<Rightarrow> ptree list \<Rightarrow> int" where
  "premaining i pos [] = pos"
| "premaining i pos (c # cs) =
     (if c \<noteq> PNil
      then if pos = -1 then premaining (i + 1) i cs else -2
      else premaining (i + 1) pos cs)"

definition pcollapse :: "ptree list \<Rightarrow> ptree" where
  "pcollapse cs =
     (let pos = premaining 0 (-1) cs
      in if pos \<ge> 0 then
           if pos \<noteq> 16 then
             (case cs ! nat pos of
                PShort ck t \<Rightarrow> PShort (of_int pos # ck) t
              | c \<Rightarrow> PShort [of_int pos] c)
           else PShort [of_int pos] (cs ! nat pos)
         else PFull cs)"

definition pmerge :: "bytes \<Rightarrow> ptree \<Rightarrow> ptree" where
  "pmerge nk t = (case t of PShort ck t' \<Rightarrow> PShort (nk @ ck) t' | _ \<Rightarrow> PShort nk t)"

fun pdelete :: "ptree \<Rightarrow> bytes \<Rightarrow> ptree" where
  "pdelete PNil key = PNil"
| "pdelete (PVal v) key = PNil"
| "pdelete (PShort nk t) key =
     (let m = prefixLen key nk
      in if m < length nk then PShort nk t
         else if m = length key then PNil
         else pmerge nk (pdelete t (drop (length nk) key)))"
| "pdelete (PFull cs) key =
     (case key of
        [] \<Rightarrow> PFull cs
      | a # y \<Rightarrow>
          if unat a < length cs then pcollapse (cs[unat a := pdelete (cs ! unat a) y]) else PFull cs)"

section \<open>Insertion\<close>

lemma nth_update_17: "length cs = 17 \<Longrightarrow> i < 17 \<Longrightarrow> (cs[i := c]) ! j = (if i = j then c else cs ! j)"
  by (auto simp: nth_list_update)

lemma is_val_cases: "is_val t \<Longrightarrow> (\<And>v. t = PVal v \<Longrightarrow> v \<noteq> [] \<Longrightarrow> P) \<Longrightarrow> P"
  by (cases t) auto

lemma hexkey_Cons_lt: "hexkey (a # y) \<Longrightarrow> unat a < 17"
  by (cases "y = []") (auto simp: hexkey_Cons unat_nibble)

lemma hexkey_drop: "hexkey x \<Longrightarrow> n < length x \<Longrightarrow> hexkey (drop n x)"
  by (auto simp: hexkey_def butlast_drop nibbles_def list_all_iff dest: in_set_dropD)

lemma canon_PFull_nth:
  "canon (PFull cs) \<Longrightarrow> i < 16 \<Longrightarrow> cs ! i = PNil \<or> canon (cs ! i)"
  by (auto simp: list_all_length)

lemma lookup_canon_Nil: "canon t \<Longrightarrow> lookup t [] = None"
  by (cases t) auto

lemma lookup_pleaf:
  "t \<noteq> PNil \<Longrightarrow> lookup (pleaf k t) x =
     (if take (length k) x = k then lookup t (drop (length k) x) else None)"
  by (auto simp: pleaf_def)

lemma take_drop_prefix:
  assumes "take (length k) x \<noteq> k" "length k \<le> length x"
  shows "prefixLen x k < length k"
  using assms prefixLen_full [of x k] prefixLen_le(2) [of x k] by auto

lemma lookup_pbranch:
  "unat a < 17 \<Longrightarrow> unat b < 17 \<Longrightarrow> a \<noteq> b \<Longrightarrow>
   lookup (pbranch a s b t) x =
     (case x of [] \<Rightarrow> None | c # y \<Rightarrow> if c = a then lookup s y else if c = b then lookup t y else None)"
  by (auto simp: pbranch_def nth_list_update word_unat_eq_iff split: list.split)


lemma prefixLen_split:
  assumes "prefixLen x k < length k" "prefixLen x k < length x"
  obtains p a r b q where "k = p @ a # r" "x = p @ b # q" "a \<noteq> b" "prefixLen x k = length p"
proof -
  let ?m = "prefixLen x k"
  have "k = take ?m k @ k ! ?m # drop (Suc ?m) k" using assms(1) by (simp add: id_take_nth_drop)
  moreover have "x = take ?m k @ x ! ?m # drop (Suc ?m) x"
    using assms(2) prefixLen_take [of x k] by (metis id_take_nth_drop)
  moreover have "k ! ?m \<noteq> x ! ?m" using prefixLen_differ [of x k] assms by metis
  moreover have "?m = length (take ?m k)" using assms(1) by simp
  ultimately show ?thesis using that by blast
qed

lemma lookup_PShort_split:
  "t \<noteq> PNil \<Longrightarrow> lookup (PShort (p @ a # r) t) y =
     (if take (length p) y = p
      then (case drop (length p) y of [] \<Rightarrow> None
            | c # z \<Rightarrow> if c = a then lookup (pleaf r t) z else None)
      else None)"
proof (induction p arbitrary: y)
  case Nil
  then show ?case by (cases y) (auto simp: pleaf_def)
next
  case (Cons b p)
  show ?case
  proof (cases y)
    case y: (Cons c l)
    have "lookup (PShort ((b # p) @ a # r) t) y = (if c = b then lookup (PShort (p @ a # r) t) l else None)"
      using y by simp
    with Cons.IH [OF Cons.prems, of l] y show ?thesis by (simp del: lookup.simps)
  qed simp
qed

lemma stored_key_append:
  "stored_key (p @ q) \<Longrightarrow> q \<noteq> [] \<Longrightarrow> nibbles p \<and> stored_key q"
  by (auto simp: stored_key_def hexkey_append)

lemma prefixLen_hexkey:
  assumes "hexkey x" "stored_key k" "prefixLen x k < length k"
  shows "prefixLen x k < length x"
proof (rule ccontr)
  assume n: "\<not> prefixLen x k < length x"
  then have "take (length x) k = x"
    using prefixLen_take [of x k] prefixLen_le(1) [of x k] by (metis le_antisym not_less take_all_iff order_refl)
  then have "k = x @ drop (length x) k" by (metis append_take_drop_id)
  moreover have "drop (length x) k \<noteq> []"
    using assms(3) n prefixLen_le(1) [of x k] by simp
  ultimately have "nibbles x" using stored_key_append assms(2) by metis
  then show False using assms(1) nibbles_not_hexkey by blast
qed

definition slot :: "ptree \<Rightarrow> bytes \<Rightarrow> bool" where
  "slot t x \<longleftrightarrow> (if x = [] then t = PNil \<or> is_val t else hexkey x \<and> canon_root t)"

lemma canon_PShort_stored: "canon (PShort k t) \<Longrightarrow> stored_key k \<and> k \<noteq> [] \<and> t \<noteq> PNil"
  by (cases t) (auto simp: stored_key_def)

lemma slot_PShort:
  assumes "slot (PShort nk t) x" "take (length nk) x = nk"
  shows "slot t (drop (length nk) x)"
proof -
  have x: "hexkey x" and w: "canon (PShort nk t)"
    using assms(1) by (auto simp: slot_def canon_root_def split: if_splits)
  have e: "x = nk @ drop (length nk) x" using assms(2) by (metis append_take_drop_id)
  from w consider "hexkey nk" "is_val t" | "nibbles nk" "is_full t" "canon t" by auto
  then show ?thesis
  proof cases
    case 1
    then have "drop (length nk) x = []"
      using x e hexkey_append nibbles_not_hexkey by metis
    with 1 show ?thesis by (simp add: slot_def)
  next
    case 2
    then have "drop (length nk) x \<noteq> []" using x e nibbles_not_hexkey by (metis append_Nil2)
    with 2 x e show ?thesis by (metis hexkey_append slot_def canon_root_def)
  qed
qed

lemma slot_PFull:
  assumes "slot (PFull cs) (a # y)"
  shows "unat a < 17" "length cs = 17" "slot (cs ! unat a) y"
proof -
  have x: "hexkey (a # y)" and w: "canon (PFull cs)"
    using assms by (auto simp: slot_def canon_root_def)
  show "unat a < 17" using x by (rule hexkey_Cons_lt)
  show "length cs = 17" using w by simp
  show "slot (cs ! unat a) y"
  proof (cases "y = []")
    case True
    with x have "unat a = 16" by (simp add: hexkey_Cons)
    with True w show ?thesis by (auto simp: slot_def)
  next
    case False
    with x have "unat a < 16" "hexkey y" by (auto simp: hexkey_Cons unat_nibble)
    with False w canon_PFull_nth [OF w, of "unat a"] show ?thesis by (auto simp: slot_def canon_root_def)
  qed
qed

lemma lookup_pinsert:
  "slot t x \<Longrightarrow> lookup (pinsert t x (PVal v)) y = (if y = x then Some v else lookup t y)"
proof (induction t x "PVal v" arbitrary: y rule: pinsert.induct)
  case (1 key)
  have "take (length key) y = key \<and> drop (length key) y = [] \<longleftrightarrow> y = key"
    by (metis append_Nil2 append_take_drop_id drop_all order_refl take_all)
  then show ?case by (auto simp: pleaf_def)
next
  case (2 u key)
  then show ?case by (auto simp: slot_def canon_root_def)
next
  case (3 nk t key)
  then have k: "hexkey key" "key \<noteq> []" "canon (PShort nk t)"
    by (auto simp: slot_def canon_root_def split: if_splits)
  then have nk: "stored_key nk" "t \<noteq> PNil" using canon_PShort_stored by blast+
  show ?case
  proof (cases "prefixLen key nk = length nk")
    case True
    then have t: "take (length nk) key = nk" by (simp add: prefixLen_full)
    have "y = key \<longleftrightarrow> take (length nk) y = nk \<and> drop (length nk) y = drop (length nk) key"
      using t by (metis append_take_drop_id)
    with 3 True k slot_PShort [OF 3(2) t] show ?thesis by simp
  next
    case False
    then have lt: "prefixLen key nk < length nk" using prefixLen_le(2) [of key nk] by simp
    from prefixLen_split [OF lt prefixLen_hexkey [OF k(1) nk(1) lt]]
    obtain p a r b q where s: "nk = p @ a # r" "key = p @ b # q" "a \<noteq> b" "prefixLen key nk = length p" .
    have ab: "unat a < 17" "unat b < 17"
    proof -
      show "unat b < 17" using k(1) s(2) hexkey_append hexkey_Cons_lt by blast
      show "unat a < 17" using nk(1) s(1) stored_key_append [of p "a # r"] hexkey_Cons_lt
        by (auto simp: stored_key_def unat_nibble)
    qed
    have ins: "pinsert (PShort nk t) key (PVal v) =
        pleaf p (pbranch a (pleaf r t) b (pleaf q (PVal v)))"
      using s k(2) by simp
    have br: "pbranch a (pleaf r t) b (pleaf q (PVal v)) \<noteq> PNil" by (simp add: pbranch_def)
    have eq: "y = p @ b # q \<longleftrightarrow> take (length p) y = p \<and> drop (length p) y = b # q"
      by (metis append_eq_conv_conj)
    have lf: "lookup (pleaf q (PVal v)) z = (if z = q then Some v else None)" for z
    proof -
      have "take (length q) z = q \<and> drop (length q) z = [] \<longleftrightarrow> z = q"
        by (metis append_Nil2 append_take_drop_id drop_all order_refl take_all)
      then show ?thesis by (auto simp: pleaf_def)
    qed
    note L = ins [THEN arg_cong [where f = "\<lambda>u. lookup u y"],
        unfolded lookup_pleaf [OF br] lookup_pbranch [OF ab s(3)] lf]
    note R = lookup_PShort_split [OF nk(2), of p a r y, folded s(1)]
    show ?thesis
      unfolding L R unfolding s(2) eq using s(3) by (auto split: list.split)
  qed
next
  case (4 cs key)
  then obtain a z where key: "key = a # z" by (cases key) (auto simp: slot_def)
  note sl = slot_PFull [OF 4(2) [unfolded key]]
  show ?case
  proof (cases y)
    case (Cons c w)
    with sl key 4(1) [OF key _ sl(3)] show ?thesis
      by (auto simp: nth_list_update word_unat_eq_iff)
  qed (use sl key in auto)
qed


definition child_ok :: "nat \<Rightarrow> ptree \<Rightarrow> bool" where
  "child_ok i c \<longleftrightarrow> c = PNil \<or> (if i = 16 then is_val c else canon c)"

lemma canon_PFull_iff:
  "canon (PFull cs) \<longleftrightarrow> length cs = 17 \<and> (\<forall>i<17. child_ok i (cs ! i)) \<and> 2 \<le> filled cs"
proof -
  have "(i :: nat) < 17 \<longleftrightarrow> i < 16 \<or> i = 16" for i by linarith
  then have "(\<forall>i<17. child_ok i (cs ! i)) \<longleftrightarrow> (\<forall>i<16. child_ok i (cs ! i)) \<and> child_ok 16 (cs ! 16)"
    by metis
  moreover have "(\<forall>i<16. child_ok i (cs ! i)) \<longleftrightarrow> (\<forall>i<16. cs ! i = PNil \<or> canon (cs ! i))"
    by (auto simp: child_ok_def)
  moreover have "list_all (\<lambda>c. c = PNil \<or> canon c) (take 16 cs) \<longleftrightarrow>
      (\<forall>i<16. cs ! i = PNil \<or> canon (cs ! i))" if "length cs = 17"
    using that by (simp add: list_all_length)
  ultimately show ?thesis by (auto simp: child_ok_def)
qed

lemma filled_update:
  "i < length cs \<Longrightarrow>
   filled (cs[i := c]) + of_bool (cs ! i \<noteq> PNil) = filled cs + of_bool (c \<noteq> PNil)"
proof (induction cs arbitrary: i)
  case (Cons d cs)
  show ?case
  proof (cases i)
    case 0
    then show ?thesis by (simp add: filled_def)
  next
    case (Suc j)
    with Cons.IH [of j] Cons.prems show ?thesis by (simp add: filled_def)
  qed
qed simp

lemma filled_pbranch:
  assumes "unat a < 17" "unat b < 17" "a \<noteq> b" "s \<noteq> PNil" "t \<noteq> PNil"
  shows "filled ((replicate 17 PNil)[unat a := s, unat b := t]) = 2"
proof -
  have ne: "unat a \<noteq> unat b" using assms(3) by (simp add: word_unat_eq_iff)
  have "filled (replicate 17 PNil) = 0" by (simp add: filled_def)
  then show ?thesis
    using filled_update [of "unat b" "(replicate 17 PNil)[unat a := s]" t]
      filled_update [of "unat a" "replicate 17 PNil" s] assms ne
    by simp
qed

lemma canon_pbranch:
  assumes "unat a < 17" "unat b < 17" "a \<noteq> b" "s \<noteq> PNil" "t \<noteq> PNil"
    "child_ok (unat a) s" "child_ok (unat b) t"
  shows "canon (pbranch a s b t)"
proof -
  have "child_ok i (((replicate 17 PNil)[unat a := s, unat b := t]) ! i)" if "i < 17" for i
    using assms that by (auto simp: nth_list_update child_ok_def)
  then show ?thesis
    unfolding pbranch_def canon_PFull_iff using filled_pbranch [OF assms(1-5)] by simp
qed

lemma child_ok_pleaf:
  assumes "hexkey (a # r)" "is_val t"
  shows "child_ok (unat a) (pleaf r t)"
  using assms by (auto simp: child_ok_def pleaf_def hexkey_Cons unat_nibble)

lemma child_ok_pleaf_full:
  assumes "nibbles (a # r)" "is_full t" "canon t"
  shows "child_ok (unat a) (pleaf r t)"
  using assms by (auto simp: child_ok_def pleaf_def unat_nibble)

lemma pleaf_neq_PNil: "t \<noteq> PNil \<Longrightarrow> pleaf k t \<noteq> PNil"
  by (simp add: pleaf_def)

lemma canon_pleaf_full: "nibbles k \<Longrightarrow> is_full t \<Longrightarrow> canon t \<Longrightarrow> canon (pleaf k t)"
  by (simp add: pleaf_def)

lemma pinsert_Nil: "slot t [] \<Longrightarrow> pinsert t [] v = v"
  by (cases t) (auto simp: slot_def pleaf_def)

lemma canon_pinsert:
  "slot t x \<Longrightarrow> x \<noteq> [] \<Longrightarrow> v \<noteq> [] \<Longrightarrow>
   canon (pinsert t x (PVal v)) \<and> (is_full t \<longrightarrow> is_full (pinsert t x (PVal v)))"
proof (induction t x "PVal v" rule: pinsert.induct)
  case (1 key)
  then show ?case by (simp add: pleaf_def slot_def)
next
  case (2 u key)
  then show ?case by (simp add: slot_def canon_root_def)
next
  case (3 nk t key)
  then have k: "hexkey key" "key \<noteq> []" "canon (PShort nk t)"
    by (auto simp: slot_def canon_root_def split: if_splits)
  then have nk: "stored_key nk" "t \<noteq> PNil" using canon_PShort_stored by blast+
  show ?case
  proof (cases "prefixLen key nk = length nk")
    case True
    then have t: "take (length nk) key = nk" by (simp add: prefixLen_full)
    note sl = slot_PShort [OF "3.prems"(1) t]
    show ?thesis
    proof (cases "drop (length nk) key = []")
      case nil: True
      from k(3) have "hexkey nk"
        using nil t k(1) by (metis append_Nil2 append_take_drop_id)
      with nil True k(2) "3.prems"(3) sl show ?thesis by (simp add: pinsert_Nil)
    next
      case False
      with sl have "canon_root t" "t \<noteq> PNil" using nk by (simp_all add: slot_def split: if_splits)
      with k(3) have "nibbles nk" "nk \<noteq> []" "is_full t" by (auto simp: canon_root_def elim: is_val_cases)
      with 3 False True sl k show ?thesis by simp
    qed
  next
    case False
    then have lt: "prefixLen key nk < length nk" using prefixLen_le(2) [of key nk] by simp
    from prefixLen_split [OF lt prefixLen_hexkey [OF k(1) nk(1) lt]]
    obtain p a r b q where s: "nk = p @ a # r" "key = p @ b # q" "a \<noteq> b" "prefixLen key nk = length p" .
    have b: "nibbles p" "hexkey (b # q)" using k(1) s(2) hexkey_append by blast+
    have a: "stored_key (a # r)" using nk(1) s(1) stored_key_append by blast
    then have ab: "unat a < 17" "unat b < 17"
      using b hexkey_Cons_lt by (auto simp: stored_key_def unat_nibble)
    have "child_ok (unat a) (pleaf r t)"
    proof (cases "is_val t")
      case True
      with k(3) s(1) have "hexkey (a # r)" by (auto simp: hexkey_append elim: is_val_cases)
      then show ?thesis using True by (rule child_ok_pleaf)
    next
      case False
      with k(3) s(1) show ?thesis by (intro child_ok_pleaf_full) auto
    qed
    moreover have "child_ok (unat b) (pleaf q (PVal v))"
      using b(2) "3.prems"(3) by (intro child_ok_pleaf) auto
    ultimately have "canon (pbranch a (pleaf r t) b (pleaf q (PVal v)))"
      using ab s(3) nk(2) by (intro canon_pbranch) (auto simp: pleaf_neq_PNil)
    moreover have "pinsert (PShort nk t) key (PVal v) =
        pleaf p (pbranch a (pleaf r t) b (pleaf q (PVal v)))"
      using s k(2) by simp
    ultimately show ?thesis using b(1) canon_pleaf_full by (simp add: pbranch_def)
  qed
next
  case (4 cs key)
  then obtain a z where key: "key = a # z" by (cases key) (auto simp: slot_def)
  note sl = slot_PFull [OF "4.prems"(1) [unfolded key]]
  have w: "canon (PFull cs)" using "4.prems" by (simp add: slot_def canon_root_def)
  let ?c = "pinsert (cs ! unat a) z (PVal v)"
  have ok: "child_ok (unat a) ?c \<and> ?c \<noteq> PNil"
  proof (cases "z = []")
    case True
    then have "unat a = 16" using "4.prems"(1) key by (simp add: slot_def hexkey_Cons)
    with True sl "4.prems"(3) show ?thesis by (simp add: pinsert_Nil child_ok_def)
  next
    case False
    then have "unat a \<noteq> 16"
      using "4.prems"(1) key by (auto simp: slot_def hexkey_Cons unat_nibble)
    with False 4(1) [OF key _ sl(3)] sl "4.prems"(3) show ?thesis
      by (auto simp: child_ok_def)
  qed
  have "filled cs \<le> filled (cs[unat a := ?c])"
    using filled_update [of "unat a" cs ?c] sl ok by (cases "cs ! unat a = PNil") simp_all
  with w ok sl have "canon (PFull (cs[unat a := ?c]))"
    unfolding canon_PFull_iff by (auto simp: nth_list_update)
  with key sl show ?case by simp
qed


lemma pinsert_same:
  "slot t x \<Longrightarrow> lookup t x = Some v \<Longrightarrow> pinsert t x (PVal v) = t"
proof (induction t x "PVal v" rule: pinsert.induct)
  case (3 nk t key)
  then have m: "take (length nk) key = nk" by (simp split: if_splits)
  then have "prefixLen key nk = length nk" by (simp add: prefixLen_full)
  moreover have "key \<noteq> []" using 3 by (auto simp: slot_def)
  ultimately show ?case using 3 m slot_PShort [OF "3.prems"(1) m] by simp
next
  case (4 cs key)
  then obtain a z where key: "key = a # z" by (cases key) (auto simp: slot_def)
  note sl = slot_PFull [OF "4.prems"(1) [unfolded key]]
  from 4(1) [OF key _ sl(3)] "4.prems" key sl show ?case by simp
qed (auto simp: slot_def canon_root_def)

section \<open>Deletion\<close>

lemma premaining_pos:
  "0 \<le> pos \<Longrightarrow> premaining i pos cs = (if filled cs = 0 then pos else -2)"
  by (induction cs arbitrary: i) (auto simp: filled_def)

lemma premaining_two:
  "0 \<le> i \<Longrightarrow> 2 \<le> filled cs \<Longrightarrow> premaining i (-1) cs = -2"
proof (induction cs arbitrary: i)
  case (Cons c cs)
  then show ?case by (cases "c = PNil") (auto simp: premaining_pos filled_def)
qed (simp add: filled_def)

lemma filled_0: "filled cs = 0 \<longleftrightarrow> (\<forall>k<length cs. cs ! k = PNil)"
  by (auto simp: filled_def filter_empty_conv all_set_conv_all_nth)

lemma premaining_one:
  "0 \<le> i \<Longrightarrow> filled cs = 1 \<Longrightarrow>
   \<exists>j<length cs. premaining i (-1) cs = i + int j \<and> cs ! j \<noteq> PNil
     \<and> (\<forall>k<length cs. k \<noteq> j \<longrightarrow> cs ! k = PNil)"
proof (induction cs arbitrary: i)
  case (Cons c cs)
  show ?case
  proof (cases "c = PNil")
    case True
    with Cons.prems have "filled cs = 1" by (simp add: filled_def)
    from Cons.IH [OF _ this, of "i + 1"] Cons.prems(1) obtain j
      where "j < length cs" "premaining (i + 1) (-1) cs = i + 1 + int j" "cs ! j \<noteq> PNil"
        "\<forall>k<length cs. k \<noteq> j \<longrightarrow> cs ! k = PNil" by auto
    with True show ?thesis
      by (intro exI [of _ "Suc j"]) (auto simp: nth_Cons split: nat.split)
  next
    case False
    with Cons.prems have "filled cs = 0" by (simp add: filled_def)
    with False Cons.prems(1) show ?thesis
      by (intro exI [of _ 0]) (auto simp: premaining_pos filled_0 nth_Cons split: nat.split)
  qed
qed (simp add: filled_def)

lemma pcollapse_correct:
  assumes len: "length cs = 17" and ok: "\<forall>i<17. child_ok i (cs ! i)" and ne: "1 \<le> filled cs"
  shows "canon (pcollapse cs)" and "lookup (pcollapse cs) y = lookup (PFull cs) y"
proof -
  have "canon (pcollapse cs) \<and> (\<forall>y. lookup (pcollapse cs) y = lookup (PFull cs) y)"
  proof (cases "filled cs = 1")
    case False
    with ne have 2: "2 \<le> filled cs" by simp
    then show ?thesis
      using canon_PFull_iff [of cs] len ok by (simp add: pcollapse_def premaining_two)
  next
    case True
    from premaining_one [OF _ this, of 0] len obtain j
      where j: "j < 17" "premaining 0 (-1) cs = int j" "cs ! j \<noteq> PNil"
        "\<forall>k<17. k \<noteq> j \<longrightarrow> cs ! k = PNil" by auto
    let ?b = "of_nat j :: byte"
    have u: "unat ?b = j" using j(1) by (simp add: unat_of_nat)
    have full: "lookup (PFull cs) y = (case y of [] \<Rightarrow> None | a # z \<Rightarrow>
        if a = ?b then lookup (cs ! j) z else None)" for y
    proof (cases y)
      case (Cons a z)
      then show ?thesis
        using j(1,4) len u by (cases "a = ?b") (auto simp: word_unat_eq_iff)
    qed simp
    have okj: "child_ok j (cs ! j)" using ok j(1) by blast
    show ?thesis
    proof (cases "j = 16")
      case True
      with okj j(3) obtain v where v: "cs ! 16 = PVal v" "v \<noteq> []"
        by (auto simp: child_ok_def elim: is_val_cases)
      have "lookup (PShort [16] (PVal v)) y = lookup (PFull cs) y" for y
        unfolding full using True v by (auto split: list.split)
      with True v j show ?thesis by (simp add: pcollapse_def hexkey_def)
    next
      case False
      with okj j(3) have c: "canon (cs ! j)" by (simp add: child_ok_def)
      have nb: "nibble ?b" using j(1) False u by (simp add: unat_nibble)
      show ?thesis
      proof (cases "cs ! j")
        case (PShort ck t)
        with False j(2) have e: "pcollapse cs = PShort (?b # ck) t" by (simp add: pcollapse_def)
        have "lookup (PShort (?b # ck) t) y = lookup (PFull cs) y" for y
          unfolding full by (auto simp: PShort split: list.split)
        moreover from c PShort nb have "canon (PShort (?b # ck) t)"
          by (auto simp: hexkey_Cons)
        ultimately show ?thesis using e by simp
      next
        case (PFull ds)
        with False j(2) have e: "pcollapse cs = PShort [?b] (PFull ds)" by (simp add: pcollapse_def)
        have "lookup (PShort [?b] (PFull ds)) y = lookup (PFull cs) y" for y
          unfolding full PFull by (cases y) auto
        moreover from c PFull nb have "canon (PShort [?b] (PFull ds))" by simp
        ultimately show ?thesis using e by simp
      qed (use c in auto)
    qed
  qed
  then show "canon (pcollapse cs)" and "lookup (pcollapse cs) y = lookup (PFull cs) y" by auto
qed


lemma take_append_eq_iff:
  "take (length (p @ q)) y = p @ q \<longleftrightarrow> take (length p) y = p \<and> take (length q) (drop (length p) y) = q"
proof (induction p arbitrary: y)
  case (Cons a p)
  show ?case
  proof (cases y)
    case y: (Cons c l)
    then show ?thesis using Cons.IH [of l] by simp
  qed simp
qed simp

lemma pmerge_canon:
  assumes "nibbles nk" "nk \<noteq> []" "canon t"
  shows "canon (pmerge nk t)" and "lookup (pmerge nk t) y = lookup (PShort nk t) y"
proof -
  show "canon (pmerge nk t)"
  proof (cases t)
    case (PShort ck u)
    then have "ck \<noteq> []" using assms(3) by auto
    with PShort assms show ?thesis using hexkey_append [of ck nk] by (auto simp: pmerge_def)
  qed (use assms in \<open>auto simp: pmerge_def\<close>)
  show "lookup (pmerge nk t) y = lookup (PShort nk t) y"
  proof (cases t)
    case (PShort ck u)
    have "take (length (nk @ ck)) y = nk @ ck \<longleftrightarrow>
        take (length nk) y = nk \<and> take (length ck) (drop (length nk) y) = ck"
      by (rule take_append_eq_iff)
    with PShort show ?thesis by (simp add: pmerge_def add.commute)
  qed (simp_all add: pmerge_def)
qed

lemma pdelete_Nil: "slot t [] \<Longrightarrow> pdelete t [] = PNil"
  by (cases t) (auto simp: slot_def)

lemma pdelete_correct:
  "slot t x \<Longrightarrow> (x \<noteq> [] \<longrightarrow> canon_root (pdelete t x)) \<and> (is_full t \<longrightarrow> pdelete t x \<noteq> PNil)
     \<and> (\<forall>y. lookup (pdelete t x) y = (if y = x then None else lookup t y))"
proof (induction t x rule: pdelete.induct)
  case (1 key)
  then show ?case by (simp add: canon_root_def)
next
  case (2 v key)
  then show ?case by (auto simp: canon_root_def slot_def split: if_splits)
next
  case (3 nk t key)
  then have k: "hexkey key" "key \<noteq> []" "canon (PShort nk t)"
    by (auto simp: slot_def canon_root_def split: if_splits)
  then have nk: "stored_key nk" "t \<noteq> PNil" "nk \<noteq> []" using canon_PShort_stored by blast+
  consider "prefixLen key nk < length nk" | "prefixLen key nk = length nk"
    using prefixLen_le(2) [of key nk] by fastforce
  then show ?case
  proof cases
    case 1
    then have "take (length nk) key \<noteq> nk" using prefixLen_full [of key nk] by simp
    then have "lookup (PShort nk t) key = None" by simp
    with 1 k(3) show ?thesis by (simp add: canon_root_def del: lookup.simps canon.simps)
  next
    case 2
    then have t: "take (length nk) key = nk" by (simp add: prefixLen_full)
    then have kd: "key = nk @ drop (length nk) key" by (metis append_take_drop_id)
    note sl = slot_PShort [OF "3.prems" t]
    show ?thesis
    proof (cases "length nk = length key")
      case True
      then have kn: "key = nk" using t by simp
      with nk k have "hexkey nk" by simp
      then have "is_val t" using k(3) nibbles_not_hexkey by auto
      then obtain v where v: "t = PVal v" by (auto elim: is_val_cases)
      have "lookup (PShort nk t) y = None" if "y \<noteq> key" for y
      proof -
        have "take (length nk) y = nk \<and> drop (length nk) y = [] \<longleftrightarrow> y = nk"
          by (metis append_Nil2 append_take_drop_id drop_all order_refl take_all)
        with that kn v show ?thesis by auto
      qed
      with 2 True show ?thesis by (simp add: canon_root_def del: lookup.simps) (simp)
    next
      case False
      with kd have d: "drop (length nk) key \<noteq> []" by (metis append_Nil2)
      with sl nk have "canon t" by (auto simp: slot_def canon_root_def)
      then have f: "is_full t" "nibbles nk" using k(3) by (auto elim: is_val_cases)
      from 3(1) [OF refl] 2 False sl d f
      have IH: "canon_root (pdelete t (drop (length nk) key))"
        "pdelete t (drop (length nk) key) \<noteq> PNil"
        "\<forall>y. lookup (pdelete t (drop (length nk) key)) y =
           (if y = drop (length nk) key then None else lookup t y)"
        by auto
      then have c: "canon (pdelete t (drop (length nk) key))" by (simp add: canon_root_def)
      have e: "y = key \<longleftrightarrow> take (length nk) y = nk \<and> drop (length nk) y = drop (length nk) key" for y
        using t by (metis append_take_drop_id)
      have "pdelete (PShort nk t) key = pmerge nk (pdelete t (drop (length nk) key))"
        using 2 False by simp
      with pmerge_canon [OF f(2) nk(3) c] IH(3) e show ?thesis
        by (simp add: canon_root_def)
    qed
  qed
next
  case (4 cs key)
  then obtain a z where key: "key = a # z" by (cases key) (auto simp: slot_def)
  note sl = slot_PFull [OF "4.prems"(1) [unfolded key]]
  have w: "canon (PFull cs)" using "4.prems" by (simp add: slot_def canon_root_def key)
  let ?c = "pdelete (cs ! unat a) z"
  from 4(1) [OF key _ sl(3)] sl have IH: "z \<noteq> [] \<longrightarrow> canon_root ?c"
    "\<forall>y. lookup ?c y = (if y = z then None else lookup (cs ! unat a) y)" by auto
  have "child_ok (unat a) ?c"
  proof (cases "z = []")
    case True
    with sl show ?thesis by (simp add: pdelete_Nil child_ok_def)
  next
    case False
    with key "4.prems" have "unat a \<noteq> 16" by (auto simp: slot_def hexkey_Cons unat_nibble)
    with False IH show ?thesis by (auto simp: child_ok_def canon_root_def)
  qed
  then have ok: "\<forall>i<17. child_ok i ((cs[unat a := ?c]) ! i)"
    using w sl canon_PFull_iff [of cs] by (auto simp: nth_list_update)
  have f: "1 \<le> filled (cs[unat a := ?c])"
    using filled_update [of "unat a" cs ?c] sl w
    by (cases "cs ! unat a = PNil"; cases "?c = PNil") auto
  have "length (cs[unat a := ?c]) = 17" using sl by simp
  note col = pcollapse_correct [OF this ok f]
  have "pdelete (PFull cs) key = pcollapse (cs[unat a := ?c])" using key sl by simp
  moreover have "lookup (PFull (cs[unat a := ?c])) y = (if y = key then None else lookup (PFull cs) y)" for y
    using IH(2) sl key by (auto simp: nth_list_update word_unat_eq_iff split: list.split)
  moreover have "pcollapse (cs[unat a := ?c]) \<noteq> PNil" using col(1) by auto
  ultimately show ?case using col by (simp add: canon_root_def)
qed

lemma pdelete_same:
  "slot t x \<Longrightarrow> lookup t x = None \<Longrightarrow> pdelete t x = t"
proof (induction t x rule: pdelete.induct)
  case (2 v key)
  then show ?case by (auto simp: slot_def canon_root_def split: if_splits)
next
  case (3 nk t key)
  then have k: "hexkey key" "key \<noteq> []" "canon (PShort nk t)"
    by (auto simp: slot_def canon_root_def split: if_splits)
  show ?case
  proof (cases "take (length nk) key = nk")
    case False
    then have "prefixLen key nk < length nk"
      using prefixLen_full [of key nk] prefixLen_le(2) [of key nk] by linarith
    then show ?thesis by simp
  next
    case t: True
    then have m: "prefixLen key nk = length nk" by (simp add: prefixLen_full)
    note sl = slot_PShort [OF "3.prems"(1) t]
    have lk: "lookup t (drop (length nk) key) = None" using 3 t by simp
    have d: "drop (length nk) key \<noteq> []"
    proof
      assume d: "drop (length nk) key = []"
      with sl k(3) have "is_val t" by (auto simp: slot_def)
      with d lk show False by (auto elim: is_val_cases)
    qed
    with sl k(3) canon_PShort_stored have "is_full t" by (auto simp: slot_def canon_root_def elim: is_val_cases)
    then have "pmerge nk t = PShort nk t" by (cases t) (simp_all add: pmerge_def)
    with 3(1) [OF refl] m d sl lk show ?thesis by (auto simp: Let_def)
  qed
next
  case (4 cs key)
  then obtain a z where key: "key = a # z" by (cases key) (auto simp: slot_def)
  note sl = slot_PFull [OF "4.prems"(1) [unfolded key]]
  have "canon (PFull cs)" using "4.prems" by (simp add: slot_def canon_root_def key)
  then have "pcollapse cs = PFull cs" by (simp add: pcollapse_def premaining_two)
  with 4(1) [OF key _ sl(3)] "4.prems"(2) sl key show ?case by simp
qed simp


section \<open>Canonicity\<close>

lemma canon_nonempty: "canon t \<Longrightarrow> \<exists>x. lookup t x \<noteq> None"
proof (induction t rule: canon.induct)
  case (3 k t)
  show ?case
  proof (cases "is_val t")
    case True
    then show ?thesis by (intro exI [of _ k]) (auto elim: is_val_cases)
  next
    case False
    with 3 obtain x where "lookup t x \<noteq> None" by auto
    then show ?thesis by (intro exI [of _ "k @ x"]) simp
  qed
next
  case (4 cs)
  then have "filled cs \<noteq> 0" by auto
  then obtain i where i: "i < 17" "cs ! i \<noteq> PNil" using 4 by (auto simp: filled_0)
  have "\<exists>x. lookup (cs ! i) x \<noteq> None"
  proof (cases "i = 16")
    case True
    with i 4 show ?thesis by (intro exI [of _ "[]"]) (auto elim: is_val_cases)
  next
    case False
    with i have "i < 16" by simp
    then have "cs ! i \<in> set (take 16 cs)" "canon (cs ! i)"
      using 4(2) i canon_PFull_nth [OF 4(2)] by (auto simp: in_set_conv_nth)
    with 4(1) show ?thesis by blast
  qed
  then obtain x where "lookup (cs ! i) x \<noteq> None" ..
  then show ?case using i 4(2) by (intro exI [of _ "of_nat i # x"]) (simp add: unat_of_nat)
qed auto

lemma child_ok_nonempty: "child_ok i c \<Longrightarrow> c \<noteq> PNil \<Longrightarrow> \<exists>x. lookup c x \<noteq> None"
  using canon_nonempty by (auto simp: child_ok_def split: if_splits elim!: is_val_cases)

lemma filled_two:
  "2 \<le> filled cs \<Longrightarrow> \<exists>i j. i < j \<and> j < length cs \<and> cs ! i \<noteq> PNil \<and> cs ! j \<noteq> PNil"
proof (induction cs)
  case (Cons c cs)
  show ?case
  proof (cases "c = PNil")
    case True
    with Cons obtain i j where "i < j" "j < length cs" "cs ! i \<noteq> PNil" "cs ! j \<noteq> PNil"
      by (auto simp: filled_def)
    then show ?thesis by (intro exI [of _ "Suc i"] exI [of _ "Suc j"]) simp
  next
    case False
    with Cons.prems have "filled cs \<noteq> 0" by (auto simp: filled_def)
    then obtain j where "j < length cs" "cs ! j \<noteq> PNil" by (auto simp: filled_0)
    with False show ?thesis by (intro exI [of _ 0] exI [of _ "Suc j"]) simp
  qed
qed (simp add: filled_def)

lemma canon_PFull_two:
  assumes "canon (PFull cs)"
  obtains a x b y where "a \<noteq> b" "lookup (PFull cs) (a # x) \<noteq> None" "lookup (PFull cs) (b # y) \<noteq> None"
proof -
  from assms have w: "length cs = 17" "\<forall>i<17. child_ok i (cs ! i)" "2 \<le> filled cs"
    using canon_PFull_iff by blast+
  from filled_two [OF w(3)] w(1) obtain i j
    where ij: "i < j" "j < 17" "cs ! i \<noteq> PNil" "cs ! j \<noteq> PNil" by auto
  then have "child_ok i (cs ! i)" "child_ok j (cs ! j)" using w(2) by simp_all
  with ij child_ok_nonempty obtain x y
    where "lookup (cs ! i) x \<noteq> None" "lookup (cs ! j) y \<noteq> None" by meson
  moreover have u: "unat (of_nat i :: byte) = i" "unat (of_nat j :: byte) = j"
    using ij by (simp_all add: unat_of_nat)
  moreover have "(of_nat i :: byte) \<noteq> of_nat j" using u ij(1) by (metis less_irrefl)
  ultimately show ?thesis
    using that [of "of_nat i" "of_nat j" x y] ij w(1) by simp
qed

lemma lookup_PShort_prefix: "lookup (PShort k t) x \<noteq> None \<Longrightarrow> take (length k) x = k"
  by (simp split: if_splits)

lemma lookup_PShort_append [simp]: "lookup (PShort k t) (k @ x) = lookup t x"
  by simp

lemma canon_hexkey: "canon t \<Longrightarrow> lookup t x \<noteq> None \<Longrightarrow> hexkey x"
proof (induction t arbitrary: x rule: canon.induct)
  case (3 k t)
  then have e: "x = k @ drop (length k) x" by (metis append_take_drop_id lookup_PShort_prefix)
  show ?case
  proof (cases "is_val t")
    case True
    then obtain v where "t = PVal v" by (auto elim: is_val_cases)
    with 3 e have "x = k" by (auto split: if_splits)
    with 3 True show ?thesis by (auto elim: is_val_cases)
  next
    case False
    with 3 have "hexkey (drop (length k) x)" by (auto split: if_splits)
    with 3 False e show ?thesis by (metis canon.simps(3) hexkey_Nil hexkey_append)
  qed
next
  case (4 cs)
  then obtain a y where x: "x = a # y" "unat a < 17" "lookup (cs ! unat a) y \<noteq> None"
    by (auto split: list.splits if_splits)
  show ?case
  proof (cases "unat a = 16")
    case True
    then have "a = 16" by (simp add: word_unat_eq_iff)
    moreover have "y = []" using x 4(2) True by (auto elim: is_val_cases split: if_splits)
    ultimately show ?thesis using x by (simp add: hexkey_def)
  next
    case False
    with x have lt: "unat a < 16" by simp
    then have "cs ! unat a \<in> set (take 16 cs)" using 4(2) by (auto simp: in_set_conv_nth)
    moreover have "canon (cs ! unat a)" using x(3) canon_PFull_nth [OF 4(2) lt] by auto
    ultimately have "hexkey y" using 4(1) x by blast
    with lt x show ?thesis by (auto simp: hexkey_Cons unat_nibble)
  qed
qed auto


lemma canon_root_hexkey: "canon_root t \<Longrightarrow> \<not> hexkey x \<Longrightarrow> lookup t x = None"
  using canon_hexkey [of t x] by (metis canon_root_def lookup.simps(1))

lemma short_not_full:
  assumes "canon (PShort k u)" "canon (PFull cs)"
  shows "lookup (PShort k u) \<noteq> lookup (PFull cs)"
proof
  assume eq: "lookup (PShort k u) = lookup (PFull cs)"
  from canon_PFull_two [OF assms(2)] obtain a x b y where
    "a \<noteq> b" "lookup (PFull cs) (a # x) \<noteq> None" "lookup (PFull cs) (b # y) \<noteq> None" .
  with eq lookup_PShort_prefix have "take (length k) (a # x) = k" "take (length k) (b # y) = k"
    by metis+
  moreover have "k \<noteq> []" using assms(1) by auto
  ultimately show False using \<open>a \<noteq> b\<close> by (cases k) auto
qed

lemma short_key_le:
  assumes "canon (PShort k u)" "canon (PShort k' u')" "lookup (PShort k u) = lookup (PShort k' u')"
  shows "length k' \<le> length k"
proof (rule ccontr)
  assume n: "\<not> length k' \<le> length k"
  have pre: "take (length k') x = k'" if "lookup (PShort k u) x \<noteq> None" for x
    using that assms(3) lookup_PShort_prefix by metis
  show False
  proof (cases "is_val u")
    case True
    then have "lookup (PShort k u) k \<noteq> None" by (auto elim: is_val_cases)
    from pre [OF this] n show False by (metis length_take min.cobounded1)
  next
    case False
    then obtain cs where u: "u = PFull cs" "canon (PFull cs)" using assms(1) by (cases u) auto
    from canon_PFull_two [OF u(2)] obtain a x b y where ab:
      "a \<noteq> b" "lookup (PFull cs) (a # x) \<noteq> None" "lookup (PFull cs) (b # y) \<noteq> None" .
    then have "take (length k') (k @ a # x) = k'" "take (length k') (k @ b # y) = k'"
      using pre u(1) lookup_PShort_append by metis+
    then have "take (length k' - length k) (a # x) = take (length k' - length k) (b # y)"
      using n by (metis append_eq_append_conv take_append)
    with n ab(1) show False by (cases "length k' - length k") auto
  qed
qed

lemma canon_lookup_eq:
  assumes "canon s" "canon_root t" "lookup s = lookup t"
  shows "canon t"
proof -
  obtain x where "lookup t x \<noteq> None" using canon_nonempty [OF assms(1)] assms(3) by auto
  then have "t \<noteq> PNil" by auto
  with assms(2) show ?thesis by (simp add: canon_root_def)
qed

lemma canon_unique:
  "canon_root s \<Longrightarrow> canon_root t \<Longrightarrow> lookup s = lookup t \<Longrightarrow> s = t"
proof (induction s arbitrary: t rule: canon.induct)
  case 1
  have "lookup t x = None" for x using 1 by (metis lookup.simps(1))
  then show ?case using canon_nonempty [of t] 1 by (auto simp: canon_root_def)
next
  case (2 v)
  then show ?case by (simp add: canon_root_def)
next
  case (3 k u)
  then have c: "canon (PShort k u)" by (simp add: canon_root_def)
  with "3.prems" have t: "canon t" using canon_lookup_eq by blast
  then obtain k' u' where tt: "t = PShort k' u'"
    using short_not_full [OF c] "3.prems"(3) by (cases t) (metis canon.simps(1,2))+
  have eq: "lookup (PShort k u) = lookup (PShort k' u')" using "3.prems"(3) tt by blast
  have c': "canon (PShort k' u')" using t tt by blast
  have "length k = length k'"
    using short_key_le [OF c c' eq] short_key_le [OF c' c eq [symmetric]] by (rule le_antisym [rotated])
  moreover obtain x where x: "lookup (PShort k u) x \<noteq> None" using canon_nonempty c by blast
  then have "take (length k) x = k" by (rule lookup_PShort_prefix)
  moreover have "take (length k') x = k'" using x eq lookup_PShort_prefix by metis
  ultimately have k: "k' = k" by metis
  have lk: "lookup u = lookup u'"
  proof
    fix x
    show "lookup u x = lookup u' x"
      using eq k lookup_PShort_append [of k u x] lookup_PShort_append [of k u' x] by metis
  qed
  have "u = u'"
  proof (cases "is_val u")
    case True
    then obtain v where v: "u = PVal v" by (auto elim: is_val_cases)
    with lk have "lookup u' [] = Some v" by (metis lookup.simps(2))
    then have "u' = PVal v" using t tt by (cases u') auto
    with v show ?thesis by simp
  next
    case False
    then have f: "is_full u" "canon u" using c by auto
    have "\<not> is_val u'"
    proof
      assume "is_val u'"
      then have "lookup u' [] \<noteq> None" by (auto elim: is_val_cases)
      with lk lookup_canon_Nil [OF f(2)] show False by simp
    qed
    then have "canon u'" using t tt by auto
    with f 3(1) lk show ?thesis by (auto simp: canon_root_def)
  qed
  with tt k show ?case by simp
next
  case (4 cs)
  then have c: "canon (PFull cs)" by (simp add: canon_root_def)
  with "4.prems" have t: "canon t" using canon_lookup_eq by blast
  then obtain ds where tt: "t = PFull ds"
    using short_not_full [OF _ c] "4.prems"(3) by (cases t) (metis canon.simps(1,2))+
  have len: "length cs = 17" "length ds = 17" using c t tt by auto
  have lk: "lookup (cs ! i) x = lookup (ds ! i) x" if "i < 17" for i x
  proof -
    have "unat (of_nat i :: byte) = i" using that by (simp add: unat_of_nat)
    moreover have "lookup (PFull cs) (of_nat i # x) = lookup (PFull ds) (of_nat i # x)"
      using 4 tt by simp
    ultimately show ?thesis using len that by simp
  qed
  have "cs ! i = ds ! i" if i: "i < 17" for i
  proof (cases "i = 16")
    case True
    have "cs ! 16 = PNil \<or> is_val (cs ! 16)" "ds ! 16 = PNil \<or> is_val (ds ! 16)"
      using c t tt by simp_all
    with lk [of 16 "[]"] True show ?thesis by (auto elim!: is_val_cases)
  next
    case False
    with i have lt: "i < 16" by simp
    then have "cs ! i \<in> set (take 16 cs)" using len by (auto simp: in_set_conv_nth)
    moreover have "canon_root (cs ! i)" "canon_root (ds ! i)"
      using canon_PFull_nth lt c t tt by (auto simp: canon_root_def)
    moreover have "lookup (cs ! i) = lookup (ds ! i)" using lk [OF i] by blast
    ultimately show ?thesis using 4(1) by blast
  qed
  with len tt show ?case by (simp add: nth_equalityI)
qed


section \<open>The interface of a canonical finite map\<close>

text \<open>
  What the users of the trie rely on: the laws of a finite map, and extensionality, by which equal
  contents have equal representations.
\<close>

fun run_ops :: "('t \<Rightarrow> 'k \<Rightarrow> 'v \<Rightarrow> 't) \<Rightarrow> ('t \<Rightarrow> 'k \<Rightarrow> 't) \<Rightarrow> ('k \<times> 'v option) list \<Rightarrow> 't \<Rightarrow> 't" where
  "run_ops upd del [] t = t"
| "run_ops upd del ((k, Some v) # ops) t = run_ops upd del ops (upd t k v)"
| "run_ops upd del ((k, None) # ops) t = run_ops upd del ops (del t k)"

fun map_ops :: "('k \<times> 'v option) list \<Rightarrow> ('k \<rightharpoonup> 'v) \<Rightarrow> ('k \<rightharpoonup> 'v)" where
  "map_ops [] m = m"
| "map_ops ((k, v) # ops) m = map_ops ops (m(k := v))"

locale canonical_map =
  fixes inv :: "'t \<Rightarrow> bool" and key :: "'k \<Rightarrow> bool" and val :: "'v \<Rightarrow> bool"
    and look :: "'t \<Rightarrow> 'k \<Rightarrow> 'v option"
    and upd :: "'t \<Rightarrow> 'k \<Rightarrow> 'v \<Rightarrow> 't" and del :: "'t \<Rightarrow> 'k \<Rightarrow> 't" and empty :: 't
  assumes inv_empty: "inv empty"
    and inv_upd: "inv t \<Longrightarrow> key k \<Longrightarrow> val v \<Longrightarrow> inv (upd t k v)"
    and inv_del: "inv t \<Longrightarrow> key k \<Longrightarrow> inv (del t k)"
    and look_empty: "look empty k = None"
    and look_upd: "inv t \<Longrightarrow> key k \<Longrightarrow> val v \<Longrightarrow>
      look (upd t k v) j = (if j = k then Some v else look t j)"
    and look_del: "inv t \<Longrightarrow> key k \<Longrightarrow> look (del t k) j = (if j = k then None else look t j)"
    and ext: "inv s \<Longrightarrow> inv t \<Longrightarrow> (\<And>k. key k \<Longrightarrow> look s k = look t k) \<Longrightarrow> s = t"
begin

definition op_ok :: "'k \<times> 'v option \<Rightarrow> bool" where
  "op_ok = (\<lambda>(k, v). key k \<and> (case v of None \<Rightarrow> True | Some w \<Rightarrow> val w))"

lemma run_ops_inv: "inv t \<Longrightarrow> list_all op_ok ops \<Longrightarrow> inv (run_ops upd del ops t)"
proof (induction ops arbitrary: t)
  case (Cons op ops)
  then show ?case
    by (cases op; cases "snd op") (auto simp: op_ok_def inv_upd inv_del)
qed simp

lemma run_ops_look:
  "inv t \<Longrightarrow> list_all op_ok ops \<Longrightarrow> look (run_ops upd del ops t) = map_ops ops (look t)"
proof (induction ops arbitrary: t)
  case (Cons op ops)
  obtain k v where op: "op = (k, v)" by force
  show ?case
  proof (cases v)
    case None
    then have "look (del t k) = (look t)(k := v)"
      using Cons.prems op by (auto simp: op_ok_def look_del)
    with Cons None op show ?thesis by (simp add: op_ok_def inv_del)
  next
    case (Some w)
    then have "look (upd t k w) = (look t)(k := v)"
      using Cons.prems op by (auto simp: op_ok_def look_upd)
    with Cons Some op show ?thesis by (simp add: op_ok_def inv_upd)
  qed
qed simp

text \<open>Any two histories with the same net effect give the same representation.\<close>

lemma run_ops_unique:
  assumes "list_all op_ok ops" "list_all op_ok ops'"
    and "map_ops ops Map.empty = map_ops ops' Map.empty"
  shows "run_ops upd del ops empty = run_ops upd del ops' empty"
proof (rule ext)
  have e: "look empty = Map.empty" by (simp add: fun_eq_iff look_empty)
  show "look (run_ops upd del ops empty) k = look (run_ops upd del ops' empty) k" for k
    using assms by (simp add: run_ops_look inv_empty e)
qed (use assms in \<open>simp_all add: run_ops_inv inv_empty\<close>)

lemma del_fresh_upd:
  assumes "inv t" "key k" "val v" "look t k = None"
  shows "del (upd t k v) k = t"
  using assms by (intro ext) (auto simp: inv_upd inv_del look_upd look_del)

end

interpretation pt: canonical_map canon_root hexkey "\<lambda>v. v \<noteq> []" lookup
  "\<lambda>t k v. pinsert t k (PVal v)" pdelete PNil
proof
  fix t k v
  assume t: "canon_root t" "hexkey k"
  then have s: "slot t k" "k \<noteq> []" by (auto simp: slot_def)
  show "canon_root (pdelete t k)" using pdelete_correct [OF s(1)] s(2) by blast
  show "lookup (pdelete t k) j = (if j = k then None else lookup t j)" for j
    using pdelete_correct [OF s(1)] by blast
  show "canon_root (pinsert t k (PVal v))" if "v \<noteq> []"
    using canon_pinsert [OF s that] by (simp add: canon_root_def)
  show "lookup (pinsert t k (PVal v)) j = (if j = k then Some v else lookup t j)" for j
    using lookup_pinsert [OF s(1)] .
next
  fix s t
  assume st: "canon_root s" "canon_root t" "\<And>k. hexkey k \<Longrightarrow> lookup s k = lookup t k"
  have "lookup s k = lookup t k" for k
    using st canon_root_hexkey by metis
  then show "s = t" using canon_unique [OF st(1,2)] by blast
qed (auto simp: canon_root_def)

end
