(* ===== verification/Patricia_Trie.thy ===== *)
theory Patricia_Trie
  imports Trie_Node Trie_Spec
begin

text \<open>
  The Merkle Patricia trie of \<^verbatim>\<open>src/common/trie/trie.go\<close>: lookup, insertion and deletion on nodes that
  may still be references into the database.
\<close>

section \<open>Operations on nodes\<close>

type_synonym db = "bytes \<Rightarrow> bytes option"

text \<open>The missing-node error carries the hash that could not be loaded and the path to it.\<close>

datatype trie_error = MissingNode bytes bytes

definition newFlag :: "u16 \<Rightarrow> nodeFlag" where
  "newFlag cachegen = \<lparr>nf_hash = None, nf_gen = cachegen, nf_dirty = True\<rparr>"

definition resolveHash :: "db \<Rightarrow> u16 \<Rightarrow> bytes \<Rightarrow> bytes \<Rightarrow> (trie_error, node) res" where
  "resolveHash db gen n prefix =
     (case db n of
        None \<Rightarrow> Err (MissingNode (BytesToHash n) prefix)
      | Some enc \<Rightarrow> mustDecodeNode n enc gen)"

definition trie_resolve :: "db \<Rightarrow> u16 \<Rightarrow> node \<Rightarrow> bytes \<Rightarrow> (trie_error, node) res" where
  "trie_resolve db gen n prefix =
     (case n of HashN h \<Rightarrow> resolveHash db gen h prefix | _ \<Rightarrow> Ok n)"

fun tryGet :: "nat \<Rightarrow> db \<Rightarrow> u16 \<Rightarrow> node \<Rightarrow> bytes \<Rightarrow> nat
    \<Rightarrow> (trie_error, bytes option \<times> node \<times> bool) res" where
  "tryGet 0 db gen origNode key pos = Diverge"
| "tryGet (Suc fuel) db gen origNode key pos =
     (case origNode of
        NilN \<Rightarrow> Ok (None, NilN, False)
      | ValueN n \<Rightarrow> Ok (Some n, ValueN n, False)
      | ShortN k val fl \<Rightarrow>
          if length key - pos < length k \<or> k \<noteq> take (length k) (drop pos key)
          then Ok (None, origNode, False)
          else
            res_map (\<lambda>(value, newnode, didResolve).
                (value, if didResolve then ShortN k newnode (fl\<lparr>nf_gen := gen\<rparr>) else origNode, didResolve))
              (tryGet fuel db gen val key (pos + length k))
      | FullN cs fl \<Rightarrow>
          if pos \<ge> length key \<or> unat (key ! pos) \<ge> length cs then Panic
          else
            (let i = unat (key ! pos)
             in res_map (\<lambda>(value, newnode, didResolve).
                 (value, if didResolve then FullN (cs[i := newnode]) (fl\<lparr>nf_gen := gen\<rparr>) else origNode,
                  didResolve))
               (tryGet fuel db gen (cs ! i) key (pos + 1)))
      | HashN n \<Rightarrow>
          res_bind (resolveHash db gen n (take pos key)) (\<lambda>child.
            res_map (\<lambda>(value, newnode, _). (value, newnode, True)) (tryGet fuel db gen child key pos)))"

fun trie_insert :: "nat \<Rightarrow> db \<Rightarrow> u16 \<Rightarrow> node \<Rightarrow> bytes \<Rightarrow> bytes \<Rightarrow> node
    \<Rightarrow> (trie_error, bool \<times> node) res" where
  "trie_insert 0 db gen n prefix key value = Diverge"
| "trie_insert (Suc fuel) db gen n prefix key value =
     (if key = [] then
        (case n of
           ValueN v \<Rightarrow> (case value of ValueN v' \<Rightarrow> Ok (v \<noteq> v', value) | _ \<Rightarrow> Panic)
         | _ \<Rightarrow> Ok (True, value))
      else
        (case n of
           ShortN nk val fl \<Rightarrow>
             (let matchlen = prefixLen key nk
              in if matchlen = length nk then
                   res_map (\<lambda>(dirty, nn).
                       if \<not> dirty then (False, n) else (True, ShortN nk nn (newFlag gen)))
                     (trie_insert fuel db gen val (prefix @ take matchlen key) (drop matchlen key) value)
                 else if matchlen \<ge> length key \<or> unat (nk ! matchlen) \<ge> 17 \<or> unat (key ! matchlen) \<ge> 17
                 then Panic
                 else
                   res_bind (trie_insert fuel db gen NilN (prefix @ take (matchlen + 1) nk)
                       (drop (matchlen + 1) nk) val) (\<lambda>(_, old).
                   res_bind (trie_insert fuel db gen NilN (prefix @ take (matchlen + 1) key)
                       (drop (matchlen + 1) key) value) (\<lambda>(_, new).
                     let branch = FullN ((replicate 17 NilN)
                                    [unat (nk ! matchlen) := old, unat (key ! matchlen) := new]) (newFlag gen)
                     in if matchlen = 0 then Ok (True, branch)
                        else Ok (True, ShortN (take matchlen key) branch (newFlag gen)))))
         | FullN cs fl \<Rightarrow>
             (let i = unat (key ! 0)
              in if i \<ge> length cs then Panic
                 else
                   res_map (\<lambda>(dirty, nn).
                       if \<not> dirty then (False, n) else (True, FullN (cs[i := nn]) (newFlag gen)))
                     (trie_insert fuel db gen (cs ! i) (prefix @ [key ! 0]) (drop 1 key) value))
         | NilN \<Rightarrow> Ok (True, ShortN key value (newFlag gen))
         | HashN h \<Rightarrow>
             res_bind (resolveHash db gen h prefix) (\<lambda>rn.
               res_map (\<lambda>(dirty, nn). if \<not> dirty then (False, rn) else (True, nn))
                 (trie_insert fuel db gen rn prefix key value))
         | ValueN _ \<Rightarrow> Panic))"

text \<open>
  The scan of \<open>delete\<close> over the children: the index of the only non-nil child, \<open>-1\<close> when there is none
  and \<open>-2\<close> when there are two or more.
\<close>

fun remaining_child :: "int \<Rightarrow> int \<Rightarrow> node list \<Rightarrow> int" where
  "remaining_child i pos [] = pos"
| "remaining_child i pos (cld # cs) =
     (if cld \<noteq> NilN
      then if pos = -1 then remaining_child (i + 1) i cs else -2
      else remaining_child (i + 1) pos cs)"

fun trie_delete :: "nat \<Rightarrow> db \<Rightarrow> u16 \<Rightarrow> node \<Rightarrow> bytes \<Rightarrow> bytes
    \<Rightarrow> (trie_error, bool \<times> node) res" where
  "trie_delete 0 db gen n prefix key = Diverge"
| "trie_delete (Suc fuel) db gen n prefix key =
     (case n of
        ShortN nk val fl \<Rightarrow>
          (let matchlen = prefixLen key nk
           in if matchlen < length nk then Ok (False, n)
              else if matchlen = length key then Ok (True, NilN)
              else
                res_map (\<lambda>(dirty, child).
                    if \<not> dirty then (False, n)
                    else (case child of
                            ShortN ck cval _ \<Rightarrow> (True, ShortN (nk @ ck) cval (newFlag gen))
                          | _ \<Rightarrow> (True, ShortN nk child (newFlag gen))))
                  (trie_delete fuel db gen val (prefix @ take (length nk) key) (drop (length nk) key)))
      | FullN cs fl \<Rightarrow>
          if key = [] \<or> unat (key ! 0) \<ge> length cs then Panic
          else
            res_bind (trie_delete fuel db gen (cs ! unat (key ! 0)) (prefix @ [key ! 0]) (drop 1 key))
              (\<lambda>(dirty, nn).
                if \<not> dirty then Ok (False, n)
                else
                  let cs' = cs[unat (key ! 0) := nn];
                      pos = remaining_child 0 (-1) cs'
                  in if pos \<ge> 0 then
                       if pos \<noteq> 16 then
                         res_bind (trie_resolve db gen (cs' ! nat pos) prefix) (\<lambda>cnode.
                           case cnode of
                             ShortN ck cval _ \<Rightarrow>
                               Ok (True, ShortN (of_int pos # ck) cval (newFlag gen))
                           | _ \<Rightarrow> Ok (True, ShortN [of_int pos] (cs' ! nat pos) (newFlag gen)))
                       else Ok (True, ShortN [of_int pos] (cs' ! nat pos) (newFlag gen))
                     else Ok (True, FullN cs' (newFlag gen)))
      | ValueN _ \<Rightarrow> Ok (True, NilN)
      | NilN \<Rightarrow> Ok (False, NilN)
      | HashN h \<Rightarrow>
          res_bind (resolveHash db gen h prefix) (\<lambda>rn.
            res_map (\<lambda>(dirty, nn). if \<not> dirty then (False, rn) else (True, nn))
              (trie_delete fuel db gen rn prefix key)))"

section \<open>Loaded and stored tries\<close>

text \<open>
  \<open>expands F R big db n t\<close>: reading every database reference of \<open>n\<close> through \<open>db\<close> gives the tree \<open>t\<close>.
  The parameters say what is known of the cached hashes: \<open>F\<close> of the flags of a node for its tree, \<open>R\<close>
  of a reference for its tree, and \<open>big\<close> of the trees whose node carries a hash below the root.
\<close>

fun has_hash :: "node \<Rightarrow> bool" where
  "has_hash (HashN _) = True"
| "has_hash (ShortN _ _ fl) = (nf_hash fl \<noteq> None)"
| "has_hash (FullN _ fl) = (nf_hash fl \<noteq> None)"
| "has_hash _ = False"

inductive expands ::
  "(nodeFlag \<Rightarrow> ptree \<Rightarrow> bool) \<Rightarrow> (bytes \<Rightarrow> ptree \<Rightarrow> bool) \<Rightarrow> (ptree \<Rightarrow> bool) \<Rightarrow> db \<Rightarrow> node \<Rightarrow> ptree \<Rightarrow> bool"
  for F R big and db :: db where
  expands_Nil: "expands F R big db NilN PNil"
| expands_Value: "expands F R big db (ValueN v) (PVal v)"
| expands_Short: "expands F R big db n t \<Longrightarrow> (has_hash n \<longrightarrow> big t) \<Longrightarrow> F fl (PShort k t)
    \<Longrightarrow> expands F R big db (ShortN k n fl) (PShort k t)"
| expands_Full: "list_all2 (\<lambda>n t. expands F R big db n t \<and> (has_hash n \<longrightarrow> big t)) cs ts \<Longrightarrow> F fl (PFull ts)
    \<Longrightarrow> expands F R big db (FullN cs fl) (PFull ts)"
| expands_Hash: "(\<And>gen prefix. \<exists>n. resolveHash db gen h prefix = Ok n \<and> expands F R big db n t) \<Longrightarrow> R h t
    \<Longrightarrow> expands F R big db (HashN h) t"

inductive_cases expands_HashE: "expands F R big db (HashN h) t"
inductive_simps expands_simps [simp]:
  "expands F R big db NilN t" "expands F R big db (ValueN v) t"
  "expands F R big db (ShortN k n fl) t" "expands F R big db (FullN cs fl) t"

fun is_hash :: "node \<Rightarrow> bool" where
  "is_hash (HashN _) = True"
| "is_hash _ = False"

lemma decodeShort_shape: "decodeShort dn h e gen = Ok n \<Longrightarrow> \<exists>k v fl. n = ShortN k v fl"
  by (auto simp: decodeShort_def Let_def split: if_splits)

lemma decodeFull_shape: "decodeFull dn h e gen = Ok n \<Longrightarrow> \<exists>cs fl. n = FullN cs fl"
  by (auto simp: decodeFull_def)

fun is_inner :: "node \<Rightarrow> bool" where
  "is_inner (ShortN _ _ _) = True"
| "is_inner (FullN _ _) = True"
| "is_inner _ = False"

lemma decodeNode_fuel_inner: "decodeNode_fuel f h b gen = Ok n \<Longrightarrow> is_inner n"
proof (cases f)
  case (Suc f')
  assume "decodeNode_fuel f h b gen = Ok n"
  with Suc obtain elems r where "SplitList b = Ok (elems, r)"
    and "(case CountValues elems of
         Ok c \<Rightarrow> if c = 2 then decodeShort (\<lambda>h b. decodeNode_fuel f' h b gen) h elems gen
                 else if c = 17 then decodeFull (\<lambda>h b. decodeNode_fuel f' h b gen) h elems gen
                 else Err (InvalidElements c)
       | Err _ \<Rightarrow> Err (InvalidElements 0) | Panic \<Rightarrow> Panic | Diverge \<Rightarrow> Diverge) = Ok n"
    by (cases "SplitList b") (auto simp: Let_def split: if_splits)
  then show ?thesis
    by (cases "CountValues elems")
      (auto split: if_splits dest!: decodeShort_shape decodeFull_shape)
qed simp

lemma resolveHash_inner: "resolveHash db gen h p = Ok n \<Longrightarrow> is_inner n"
  by (auto simp: resolveHash_def mustDecodeNode_def decodeNode_def
      simp del: decodeNode_fuel.simps split: option.splits res.splits dest: decodeNode_fuel_inner)

lemma resolveHash_not_hash: "resolveHash db gen h p = Ok n \<Longrightarrow> \<not> is_hash n"
  using resolveHash_inner by (cases n) fastforce+

definition fuel_ok :: "nat \<Rightarrow> bytes \<Rightarrow> bool" where
  "fuel_ok fuel x \<longleftrightarrow> 2 * length x + 2 \<le> fuel"

lemma trie_insert_nil:
  "trie_insert (Suc f) db gen NilN prefix k val = Ok (True, if k = [] then val else ShortN k val (newFlag gen))"
  by simp

text \<open>Reducing a branch with one child left, in the code and on trees.\<close>

definition collapse :: "db \<Rightarrow> u16 \<Rightarrow> bytes \<Rightarrow> node list \<Rightarrow> (trie_error, bool \<times> node) res" where
  "collapse db gen prefix cs' =
     (let pos = remaining_child 0 (-1) cs'
      in if pos \<ge> 0 then
           if pos \<noteq> 16 then
             res_bind (trie_resolve db gen (cs' ! nat pos) prefix) (\<lambda>cnode.
               case cnode of
                 ShortN ck cval _ \<Rightarrow> Ok (True, ShortN (of_int pos # ck) cval (newFlag gen))
               | _ \<Rightarrow> Ok (True, ShortN [of_int pos] (cs' ! nat pos) (newFlag gen)))
           else Ok (True, ShortN [of_int pos] (cs' ! nat pos) (newFlag gen))
         else Ok (True, FullN cs' (newFlag gen)))"

lemma premaining_bound:
  "0 \<le> i \<Longrightarrow> pos < i + int (length ts) \<Longrightarrow> premaining i pos ts < i + int (length ts)"
proof (induction ts arbitrary: i pos)
  case (Cons c ts)
  from Cons.IH [of "i + 1" i] Cons.IH [of "i + 1" pos] Cons.prems show ?case by auto
qed simp

section \<open>The trie\<close>

text \<open>
  The trie object; its database is the parameter \<open>db\<close> of the operations.  \<open>Get\<close>, \<open>Update\<close> and \<open>Delete\<close>
  log an error of the corresponding \<open>Try\<close> operation and return as if nothing had happened.
\<close>

record Trie =
  tr_root :: node
  tr_originalRoot :: hash
  tr_cachegen :: u16
  tr_cachelimit :: u16

definition emptyRoot :: hash where
  "emptyRoot =
    [0x56, 0xe8, 0x1f, 0x17, 0x1b, 0xcc, 0x55, 0xa6, 0xff, 0x83, 0x45, 0xe6, 0x92, 0xc0, 0xf8, 0x6e,
     0x5b, 0x48, 0xe0, 0x1b, 0x99, 0x6c, 0xad, 0xc0, 0x01, 0x62, 0x2f, 0xb5, 0xe3, 0x63, 0xb4, 0x21]"

definition SetCacheLimit :: "u16 \<Rightarrow> Trie \<Rightarrow> Trie" where
  "SetCacheLimit l t = t\<lparr>tr_cachelimit := l\<rparr>"

definition Trie_New :: "hash \<Rightarrow> db option \<Rightarrow> (trie_error, Trie) res" where
  "Trie_New root db =
     (let trie = \<lparr>tr_root = NilN, tr_originalRoot = root, tr_cachegen = 0, tr_cachelimit = 0\<rparr>
      in if root \<noteq> zeroHash \<and> root \<noteq> emptyRoot then
           (case db of
              None \<Rightarrow> Panic
            | Some d \<Rightarrow> res_map (\<lambda>rootnode. trie\<lparr>tr_root := rootnode\<rparr>) (resolveHash d 0 root []))
         else Ok trie)"

definition TryGet :: "nat \<Rightarrow> db \<Rightarrow> Trie \<Rightarrow> bytes \<Rightarrow> (trie_error, bytes option \<times> Trie) res" where
  "TryGet fuel db t key =
     res_map (\<lambda>(value, newroot, didResolve). (value, if didResolve then t\<lparr>tr_root := newroot\<rparr> else t))
       (tryGet fuel db (tr_cachegen t) (tr_root t) (keybytesToHex key) 0)"

definition TryUpdate :: "nat \<Rightarrow> db \<Rightarrow> Trie \<Rightarrow> bytes \<Rightarrow> bytes \<Rightarrow> (trie_error, Trie) res" where
  "TryUpdate fuel db t key value =
     (let k = keybytesToHex key
      in if length value \<noteq> 0 then
           res_map (\<lambda>(_, n). t\<lparr>tr_root := n\<rparr>)
             (trie_insert fuel db (tr_cachegen t) (tr_root t) [] k (ValueN value))
         else
           res_map (\<lambda>(_, n). t\<lparr>tr_root := n\<rparr>)
             (trie_delete fuel db (tr_cachegen t) (tr_root t) [] k))"

definition TryDelete :: "nat \<Rightarrow> db \<Rightarrow> Trie \<Rightarrow> bytes \<Rightarrow> (trie_error, Trie) res" where
  "TryDelete fuel db t key =
     res_map (\<lambda>(_, n). t\<lparr>tr_root := n\<rparr>)
       (trie_delete fuel db (tr_cachegen t) (tr_root t) [] (keybytesToHex key))"

definition Trie_Get :: "nat \<Rightarrow> db \<Rightarrow> Trie \<Rightarrow> bytes \<Rightarrow> (trie_error, bytes option \<times> Trie) res" where
  "Trie_Get fuel db t key = (case TryGet fuel db t key of Err e \<Rightarrow> Ok (None, t) | r \<Rightarrow> r)"

definition Trie_Update :: "nat \<Rightarrow> db \<Rightarrow> Trie \<Rightarrow> bytes \<Rightarrow> bytes \<Rightarrow> (trie_error, Trie) res" where
  "Trie_Update fuel db t key value = (case TryUpdate fuel db t key value of Err e \<Rightarrow> Ok t | r \<Rightarrow> r)"

definition Trie_Delete :: "nat \<Rightarrow> db \<Rightarrow> Trie \<Rightarrow> bytes \<Rightarrow> (trie_error, Trie) res" where
  "Trie_Delete fuel db t key = (case TryDelete fuel db t key of Err e \<Rightarrow> Ok t | r \<Rightarrow> r)"

definition content :: "ptree \<Rightarrow> bytes \<Rightarrow> bytes option" where
  "content p key = lookup p (keybytesToHex key)"

definition enough :: "nat \<Rightarrow> bytes \<Rightarrow> bool" where
  "enough fuel key \<longleftrightarrow> 4 * length key + 4 \<le> fuel"

lemma enough_fuel_ok: "enough fuel key \<Longrightarrow> fuel_ok fuel (keybytesToHex key)"
  by (simp add: enough_def fuel_ok_def length_keybytesToHex)

lemma slot_keybytes: "canon_root p \<Longrightarrow> slot p (keybytesToHex key)"
  by (simp add: slot_def hexkey_keybytesToHex)

text \<open>A sequence of updates, each starting from the trie the previous one left.\<close>

fun run_updates :: "nat \<Rightarrow> db \<Rightarrow> Trie \<Rightarrow> (bytes \<times> bytes) list \<Rightarrow> (trie_error, Trie) res" where
  "run_updates fuel db t [] = Ok t"
| "run_updates fuel db t ((k, v) # ops) =
     res_bind (TryUpdate fuel db t k v) (\<lambda>t'. run_updates fuel db t' ops)"

definition map_op :: "bytes \<times> bytes \<Rightarrow> bytes \<times> bytes option" where
  "map_op = (\<lambda>(k, v). (k, if v = [] then None else Some v))"

definition hex_op :: "bytes \<times> bytes \<Rightarrow> bytes \<times> bytes option" where
  "hex_op = (\<lambda>(k, v). (keybytesToHex k, if v = [] then None else Some v))"

definition ptree_ops :: "(bytes \<times> bytes) list \<Rightarrow> ptree \<Rightarrow> ptree" where
  "ptree_ops ops = run_ops (\<lambda>t k v. pinsert t k (PVal v)) pdelete (map hex_op ops)"

lemma ptree_ops_Cons: "ptree_ops (op # ops) p = ptree_ops ops (ptree_ops [op] p)"
  by (cases op; cases "snd op = []") (auto simp: ptree_ops_def hex_op_def)

lemma content_pdelete:
  "canon_root p \<Longrightarrow> content (pdelete p (keybytesToHex key)) = (content p)(key := None)"
  by (rule ext) (simp add: content_def pt.look_del hexkey_keybytesToHex keybytesToHex_inj)

lemma content_pinsert:
  "canon_root p \<Longrightarrow> v \<noteq> [] \<Longrightarrow>
   content (pinsert p (keybytesToHex key) (PVal v)) = (content p)(key := Some v)"
  by (rule ext) (simp add: content_def pt.look_upd hexkey_keybytesToHex keybytesToHex_inj)

lemma hex_ops_ok: "list_all pt.op_ok (map hex_op ops)"
  by (auto simp: list_all_iff pt.op_ok_def hex_op_def hexkey_keybytesToHex)

definition hexed :: "(bytes \<rightharpoonup> bytes) \<Rightarrow> (bytes \<rightharpoonup> bytes)" where
  "hexed m x = (if x \<in> range keybytesToHex then m (the_inv keybytesToHex x) else None)"

lemma hexed_upd: "(hexed m)(keybytesToHex k := w) = hexed (m(k := w))"
proof -
  have "inj keybytesToHex" by (simp add: inj_def keybytesToHex_inj)
  from the_inv_f_f [OF this] show ?thesis by (auto simp: hexed_def fun_eq_iff)
qed

lemma map_ops_hex: "map_ops (map hex_op ops) (hexed m) = hexed (map_ops (map map_op ops) m)"
proof (induction ops arbitrary: m)
  case (Cons op ops)
  obtain k v where op: "op = (k, v)" by force
  let ?w = "if v = [] then None else Some v"
  have "map_ops (map hex_op (op # ops)) (hexed m) = map_ops (map hex_op ops) ((hexed m)(keybytesToHex k := ?w))"
    using op by (simp add: hex_op_def)
  also have "\<dots> = hexed (map_ops (map map_op ops) (m(k := ?w)))"
    unfolding hexed_upd Cons.IH ..
  finally show ?case using op by (simp add: map_op_def)
qed simp

lemma ptree_ops_unique:
  assumes "map_ops (map map_op ops) Map.empty = map_ops (map map_op ops') Map.empty"
  shows "ptree_ops ops PNil = ptree_ops ops' PNil"
  unfolding ptree_ops_def
proof (rule pt.run_ops_unique [OF hex_ops_ok hex_ops_ok])
  have e: "Map.empty = hexed Map.empty" by (auto simp: hexed_def)
  show "map_ops (map hex_op ops) Map.empty = map_ops (map hex_op ops') Map.empty"
    using map_ops_hex [of ops Map.empty] map_ops_hex [of ops' Map.empty] assms
    by (simp flip: e)
qed

section \<open>The operations on tries and on trees\<close>

text \<open>
  What the operations need of the constraint on flags: new nodes satisfy it, and it does not depend on
  the cache generation.
\<close>

locale cache_inv =
  fixes F :: "nodeFlag \<Rightarrow> ptree \<Rightarrow> bool" and R :: "bytes \<Rightarrow> ptree \<Rightarrow> bool" and big :: "ptree \<Rightarrow> bool"
  assumes F_new: "F (newFlag gen) t"
    and F_gen: "F fl t \<Longrightarrow> F (fl\<lparr>nf_gen := gen\<rparr>) t"
begin

abbreviation expn :: "db \<Rightarrow> node \<Rightarrow> ptree \<Rightarrow> bool" where
  "expn \<equiv> expands F R big"

abbreviation child :: "db \<Rightarrow> node \<Rightarrow> ptree \<Rightarrow> bool" where
  "child db n t \<equiv> expn db n t \<and> (has_hash n \<longrightarrow> big t)"

text \<open>
  \<open>updates db r t ch\<close>: the update returned a node that expands to \<open>t\<close>, with dirty flag \<open>ch\<close>; a changed
  node has no cached hash.
\<close>

definition updates :: "db \<Rightarrow> (trie_error, bool \<times> node) res \<Rightarrow> ptree \<Rightarrow> bool \<Rightarrow> bool" where
  "updates db r t ch \<longleftrightarrow> (\<exists>n. r = Ok (ch, n) \<and> expn db n t \<and> (ch \<longrightarrow> \<not> has_hash n))"

text \<open>\<open>gets db r v t h\<close>: the lookup returned \<open>v\<close> and a node that expands to \<open>t\<close>, with a hash only if \<open>h\<close>.\<close>

definition gets :: "db \<Rightarrow> (trie_error, bytes option \<times> node \<times> bool) res \<Rightarrow> bytes option \<Rightarrow> ptree \<Rightarrow> bool \<Rightarrow> bool" where
  "gets db r v t h \<longleftrightarrow> (\<exists>n d. r = Ok (v, n, d) \<and> expn db n t \<and> (has_hash n \<longrightarrow> h))"

declare F_new [simp] F_gen [simp]

lemma has_hash_newFlag [simp]: "nf_hash (newFlag gen) = None"
  by (simp add: newFlag_def)

lemma expands_Hash_inner: "expn db (HashN h) t \<Longrightarrow> t \<noteq> PNil \<and> (\<forall>v. t \<noteq> PVal v)"
proof (elim expands_HashE)
  assume "\<And>gen prefix. \<exists>n. resolveHash db gen h prefix = Ok n \<and> expn db n t"
  then obtain n where n: "resolveHash db 0 h [] = Ok n" "expn db n t" by blast
  from resolveHash_inner [OF n(1)] n(2) show ?thesis by (cases n) auto
qed

lemma expands_HashD:
  "expn db (HashN h) t \<Longrightarrow> \<exists>n. resolveHash db gen h p = Ok n \<and> expn db n t \<and> \<not> is_hash n"
  using resolveHash_not_hash by (elim expands_HashE) blast

section \<open>Lookup\<close>


text \<open>
  Two units of fuel per nibble are enough: a database reference and the node it leads to.  The
  induction step for every operation is the same: a reference costs one unit and leads to a loaded node.
\<close>

lemma tryGet_hash:
  assumes "expn db (HashN h) t" "fuel_ok fuel x"
    and "\<And>n f. expn db n t \<Longrightarrow> \<not> is_hash n \<Longrightarrow> 2 * length x + 1 \<le> f \<Longrightarrow>
      gets db (tryGet f db gen n key pos) v t (has_hash n)"
  shows "gets db (tryGet fuel db gen (HashN h) key pos) v t (has_hash (HashN h))"
proof -
  obtain f where f: "fuel = Suc f" "2 * length x + 1 \<le> f"
    using assms(2) by (cases fuel) (auto simp: fuel_ok_def)
  from expands_HashD [OF assms(1)] obtain n
    where n: "resolveHash db gen h (take pos key) = Ok n" "expn db n t" "\<not> is_hash n" by blast
  from assms(3) [OF n(2,3) f(2)] n(1) f(1) show ?thesis by (auto simp: gets_def)
qed

lemma tryGet_step:
  assumes "\<And>n f. expn db n t \<Longrightarrow> \<not> is_hash n \<Longrightarrow> 2 * length x + 1 \<le> f \<Longrightarrow>
      gets db (tryGet f db gen n key pos) v t (has_hash n)"
    and "expn db n t" "fuel_ok fuel x"
  shows "gets db (tryGet fuel db gen n key pos) v t (has_hash n)"
proof (cases "is_hash n")
  case True
  then obtain h where "n = HashN h" by (cases n) auto
  with tryGet_hash [OF _ assms(3,1)] assms(2) show ?thesis by blast
next
  case False
  with assms show ?thesis by (auto simp: fuel_ok_def)
qed

lemma tryGet_correct:
  "expn db n t \<Longrightarrow> slot t (drop pos key) \<Longrightarrow> fuel_ok fuel (drop pos key) \<Longrightarrow>
   gets db (tryGet fuel db gen n key pos) (lookup t (drop pos key)) t (has_hash n)"
proof (induction t arbitrary: n pos fuel)
  case (PNil n pos fuel)
  have nh: "gets db (tryGet f db gen m key pos) (lookup PNil (drop pos key)) PNil (has_hash m)"
    if "expn db m PNil" "\<not> is_hash m" "2 * length (drop pos key) + 1 \<le> f" for m f
    using that by (cases m; cases f) (auto simp: gets_def)
  show ?case by (rule tryGet_step [OF nh PNil(1,3)])
next
  case (PVal v n pos fuel)
  then have x: "drop pos key = []" by (auto simp: slot_def canon_root_def split: if_splits)
  have nh: "gets db (tryGet f db gen m key pos) (lookup (PVal v) (drop pos key)) (PVal v) (has_hash m)"
    if "expn db m (PVal v)" "\<not> is_hash m" "2 * length (drop pos key) + 1 \<le> f" for m f
    using that x by (cases m; cases f) (auto simp: gets_def)
  show ?case by (rule tryGet_step [OF nh PVal(1,3)])
next
  case (PShort k t n pos fuel)
  have k: "k \<noteq> []"
    using PShort.prems(2) by (auto simp: slot_def canon_root_def split: if_splits)
  have nh: "gets db (tryGet f db gen m key pos) (lookup (PShort k t) (drop pos key)) (PShort k t) (has_hash m)"
    if m: "expn db m (PShort k t)" "\<not> is_hash m" and f: "2 * length (drop pos key) + 1 \<le> f" for m f
  proof -
    from m obtain c fl where mm: "m = ShortN k c fl" "expn db c t" "has_hash c \<longrightarrow> big t"
      "F fl (PShort k t)" by (cases m) auto
    from f obtain f' where f': "f = Suc f'" by (cases f) auto
    show ?thesis
    proof (cases "take (length k) (drop pos key) = k")
      case True
      then have "length k \<le> length (drop pos key)" by (metis length_take min.cobounded1 min.commute)
      with k f f' have "fuel_ok f' (drop (length k) (drop pos key))"
        by (cases k) (auto simp: fuel_ok_def)
      then have "fuel_ok f' (drop (pos + length k) key)" by (simp add: add.commute)
      moreover have "slot t (drop (pos + length k) key)"
        using slot_PShort [OF PShort.prems(2) True] by (simp add: add.commute)
      ultimately obtain n' d where
        "tryGet f' db gen c key (pos + length k) = Ok (lookup t (drop (pos + length k) key), n', d)"
        "expn db n' t" "has_hash n' \<longrightarrow> has_hash c"
        using PShort.IH [OF mm(2)] unfolding gets_def by blast
      with True mm f' \<open>length k \<le> _\<close> show ?thesis by (auto simp: add.commute gets_def)
    next
      case False
      with mm f' show ?thesis by (auto simp: gets_def)
    qed
  qed
  show ?case by (rule tryGet_step [OF nh PShort.prems(1,3)])
next
  case (PFull ts n pos fuel)
  then obtain a y where x: "drop pos key = a # y" by (cases "drop pos key") (auto simp: slot_def)
  note sl = slot_PFull [OF PFull.prems(2) [unfolded x]]
  have key: "pos < length key" "key ! pos = a" "drop (pos + 1) key = y"
    using x by (metis drop_all list.discI not_le, metis drop_all list.discI not_le nth_via_drop,
      metis Suc_eq_plus1 drop_Suc list.sel(3) tl_drop)
  have nh: "gets db (tryGet f db gen m key pos) (lookup (PFull ts) (drop pos key)) (PFull ts) (has_hash m)"
    if m: "expn db m (PFull ts)" "\<not> is_hash m" and f: "2 * length (drop pos key) + 1 \<le> f" for m f
  proof -
    from m obtain cs fl where mm: "m = FullN cs fl" "list_all2 (child db) cs ts" "F fl (PFull ts)"
      by (cases m) auto
    from f x obtain f' where f': "f = Suc f'" "fuel_ok f' y" by (cases f) (auto simp: fuel_ok_def)
    let ?i = "unat a"
    have i: "?i < length cs" "?i < length ts" using sl mm(2) by (auto dest: list_all2_lengthD)
    have ch: "child db (cs ! ?i) (ts ! ?i)" using mm(2) i(1) by (rule list_all2_nthD)
    with PFull.IH [of "ts ! ?i" "cs ! ?i" "pos + 1" f'] sl(3) f'(2) key(3) i(2) obtain n' d
      where n': "tryGet f' db gen (cs ! ?i) key (pos + 1) = Ok (lookup (ts ! ?i) y, n', d)"
        "expn db n' (ts ! ?i)" "has_hash n' \<longrightarrow> has_hash (cs ! ?i)" by (auto simp: gets_def)
    then have "list_all2 (child db) (cs[?i := n']) ts"
      using mm(2) ch list_all2_update_cong [of "child db" cs ts n' "ts ! ?i" ?i] by simp
    with n' show ?thesis using mm key i x f'(1) by (auto simp: sl(2) Let_def gets_def)
  qed
  show ?case by (rule tryGet_step [OF nh PFull.prems(1,3)])
qed

section \<open>Insertion\<close>

lemma expands_leaf:
  "child db val t \<Longrightarrow> child db (if k = [] then val else ShortN k val (newFlag gen)) (pleaf k t)"
  by (simp add: pleaf_def)

lemma expands_branch:
  assumes "child db old s" "child db new t"
  shows "expn db (FullN ((replicate 17 NilN)[i := old, j := new]) (newFlag gen))
    (PFull ((replicate 17 PNil)[i := s, j := t]))"
proof -
  have "list_all2 (child db) (replicate 17 NilN) (replicate 17 PNil)"
    by (simp add: list_all2_conv_all_nth)
  with assms show ?thesis by (simp add: list_all2_update_cong)
qed

lemma trie_insert_hash:
  assumes "expn db (HashN h) t" "key \<noteq> []" "fuel_ok fuel key" "\<not> ch \<Longrightarrow> t' = t"
    and "\<And>n f. expn db n t \<Longrightarrow> \<not> is_hash n \<Longrightarrow> 2 * length key + 1 \<le> f \<Longrightarrow>
      updates db (trie_insert f db gen n prefix key value) t' ch"
  shows "updates db (trie_insert fuel db gen (HashN h) prefix key value) t' ch"
proof -
  obtain f where f: "fuel = Suc f" "2 * length key + 1 \<le> f"
    using assms(3) by (cases fuel) (auto simp: fuel_ok_def)
  from expands_HashD [OF assms(1)] obtain n
    where n: "resolveHash db gen h prefix = Ok n" "expn db n t" "\<not> is_hash n" by blast
  from assms(5) [OF n(2,3) f(2)] n(1,2) f(1) assms(2,4) show ?thesis
    by (cases ch) (auto simp: updates_def)
qed

lemma trie_insert_step:
  assumes "\<And>n f. expn db n t \<Longrightarrow> \<not> is_hash n \<Longrightarrow> 2 * length key + 1 \<le> f \<Longrightarrow>
      updates db (trie_insert f db gen n prefix key value) t' ch"
    and "expn db n t" "fuel_ok fuel key" "key \<noteq> []" "\<not> ch \<Longrightarrow> t' = t"
  shows "updates db (trie_insert fuel db gen n prefix key value) t' ch"
proof (cases "is_hash n")
  case True
  then obtain h where "n = HashN h" by (cases n) auto
  with trie_insert_hash [OF _ assms(4,3) assms(5,1)] assms(2) show ?thesis by blast
next
  case False
  with assms(1-3) show ?thesis by (auto simp: fuel_ok_def)
qed

lemma trie_insert_value:
  assumes "expn db n t" "slot t []" "fuel_ok fuel []"
  shows "updates db (trie_insert fuel db gen n prefix [] (ValueN v)) (PVal v) (lookup t [] \<noteq> Some v)"
proof -
  obtain f where f: "fuel = Suc f" using assms(3) by (cases fuel) (auto simp: fuel_ok_def)
  have "t = PNil \<or> (\<exists>u. t = PVal u)" using assms(2) by (auto simp: slot_def elim: is_val_cases)
  then show ?thesis
    using assms(1) f expands_Hash_inner by (cases n) (auto simp: updates_def)
qed

lemma trie_insert_correct:
  "expn db n t \<Longrightarrow> slot t key \<Longrightarrow> fuel_ok fuel key \<Longrightarrow>
   updates db (trie_insert fuel db gen n prefix key (ValueN v))
     (pinsert t key (PVal v)) (lookup t key \<noteq> Some v)"
proof (induction t arbitrary: n key fuel prefix)
  case (PNil n key fuel prefix)
  then obtain f where f: "fuel = Suc f" by (cases fuel) (auto simp: fuel_ok_def)
  from PNil expands_Hash_inner have "n = NilN" by (cases n) auto
  with f show ?case by (auto simp: updates_def pleaf_def)
next
  case (PVal u n key fuel prefix)
  then have "key = []" by (auto simp: slot_def canon_root_def split: if_splits)
  with trie_insert_value PVal.prems show ?case by fastforce
next
  case (PShort nk t n key fuel prefix)
  let ?t = "PShort nk t" and ?ch = "lookup (PShort nk t) key \<noteq> Some v"
  have k: "hexkey key" "key \<noteq> []" "canon ?t"
    using PShort.prems(2) by (auto simp: slot_def canon_root_def split: if_splits)
  then have nk: "stored_key nk" "t \<noteq> PNil" "nk \<noteq> []" using canon_PShort_stored by blast+
  have nh: "updates db (trie_insert f db gen m prefix key (ValueN v)) (pinsert ?t key (PVal v)) ?ch"
    if m: "expn db m ?t" "\<not> is_hash m" and f: "2 * length key + 1 \<le> f" for m f
  proof -
    from m obtain c fl where mm: "m = ShortN nk c fl" "expn db c t" "has_hash c \<longrightarrow> big t"
      "F fl (PShort nk t)" by (cases m) auto
    from f k(2) obtain f' where f': "f = Suc (Suc f')" "2 * length key \<le> Suc f'"
      by (cases f; cases "f - 1") auto
    show ?thesis
    proof (cases "prefixLen key nk = length nk")
      case True
      then have t: "take (length nk) key = nk" by (simp add: prefixLen_full)
      have "length nk \<le> length key" using True prefixLen_le(1) [of key nk] by simp
      with nk(3) f'(2) have "fuel_ok (Suc f') (drop (length nk) key)"
        by (cases nk) (auto simp: fuel_ok_def)
      from PShort.IH [OF mm(2) slot_PShort [OF PShort.prems(2) t] this]
      have "updates db (trie_insert (Suc f') db gen c (prefix @ take (length nk) key)
          (drop (length nk) key) (ValueN v)) (pinsert t (drop (length nk) key) (PVal v))
          (lookup t (drop (length nk) key) \<noteq> Some v)" .
      with True t mm f'(1) k(2) pinsert_same [OF slot_PShort [OF PShort.prems(2) t], of v] show ?thesis
        by (auto simp: updates_def simp del: trie_insert.simps(2) [of "Suc f'"])
    next
      case False
      then have lt: "prefixLen key nk < length nk" using prefixLen_le(2) [of key nk] by simp
      note lk = prefixLen_hexkey [OF k(1) nk(1) lt]
      let ?m = "prefixLen key nk"
      have b17: "unat (key ! ?m) < 17"
      proof -
        have "hexkey (key ! ?m # drop (Suc ?m) key)"
          using hexkey_drop [OF k(1) lk] by (simp add: Cons_nth_drop_Suc lk)
        then show ?thesis by (rule hexkey_Cons_lt)
      qed
      have a17: "unat (nk ! ?m) < 17"
      proof -
        have "stored_key (nk ! ?m # drop (Suc ?m) nk)"
          using stored_key_append [of "take ?m nk" "drop ?m nk"] nk(1) lt
          by (simp add: Cons_nth_drop_Suc)
        then show ?thesis using hexkey_Cons_lt by (auto simp: stored_key_def unat_nibble)
      qed
      have ch: "?ch" using False by (simp add: prefixLen_full)
      let ?old = "if drop (?m + 1) nk = [] then c else ShortN (drop (?m + 1) nk) c (newFlag gen)"
      let ?new = "if drop (?m + 1) key = [] then ValueN v else ShortN (drop (?m + 1) key) (ValueN v) (newFlag gen)"
      define br where "br = FullN ((replicate 17 NilN)[unat (nk ! ?m) := ?old, unat (key ! ?m) := ?new]) (newFlag gen)"
      define pb where "pb = pbranch (nk ! ?m) (pleaf (drop (?m + 1) nk) t) (key ! ?m)
          (pleaf (drop (?m + 1) key) (PVal v))"
      have br: "expn db br pb"
        unfolding br_def pb_def pbranch_def using mm(2,3) by (intro expands_branch expands_leaf) simp_all
      have "trie_insert f db gen m prefix key (ValueN v) =
          Ok (True, if ?m = 0 then br else ShortN (take ?m key) br (newFlag gen))"
        unfolding br_def using f'(1) mm(1) k(2) False lk a17 b17
        by (simp only: trie_insert.simps(2) [of "Suc f'"] trie_insert_nil) (simp add: Let_def)
      moreover have "take ?m key = [] \<longleftrightarrow> ?m = 0" using k(2) by simp
      moreover have "pinsert ?t key (PVal v) = pleaf (take ?m key) pb"
        unfolding pb_def using k(2) False by (simp add: Let_def)
      moreover have "\<not> has_hash br" by (simp add: br_def)
      ultimately show ?thesis
        using ch br unfolding updates_def by (simp add: pleaf_def)
    qed
  qed
  have same: "\<not> ?ch \<Longrightarrow> pinsert ?t key (PVal v) = ?t" using pinsert_same [OF PShort.prems(2)] by blast
  show ?case by (rule trie_insert_step [OF nh PShort.prems(1,3) k(2) same])
next
  case (PFull ts n key fuel prefix)
  then obtain a y where x: "key = a # y" by (cases key) (auto simp: slot_def)
  let ?t = "PFull ts" and ?ch = "lookup (PFull ts) key \<noteq> Some v"
  note sl = slot_PFull [OF PFull.prems(2) [unfolded x]]
  have nh: "updates db (trie_insert f db gen m prefix key (ValueN v)) (pinsert ?t key (PVal v)) ?ch"
    if m: "expn db m ?t" "\<not> is_hash m" and f: "2 * length key + 1 \<le> f" for m f
  proof -
    from m obtain cs fl where mm: "m = FullN cs fl" "list_all2 (child db) cs ts" "F fl (PFull ts)"
      by (cases m) auto
    from f x obtain f' where f': "f = Suc f'" "fuel_ok f' y" by (cases f) (auto simp: fuel_ok_def)
    let ?i = "unat a"
    have i: "?i < length cs" "?i < length ts" using sl mm(2) by (auto dest: list_all2_lengthD)
    have ci: "child db (cs ! ?i) (ts ! ?i)" using mm(2) i(1) by (rule list_all2_nthD)
    with PFull.IH [of "ts ! ?i" "cs ! ?i" y f'] sl(3) f'(2) i(2) obtain n'
      where n': "trie_insert f' db gen (cs ! ?i) (prefix @ [a]) y (ValueN v) =
          Ok (lookup (ts ! ?i) y \<noteq> Some v, n')"
        "expn db n' (pinsert (ts ! ?i) y (PVal v))"
        "lookup (ts ! ?i) y \<noteq> Some v \<longrightarrow> \<not> has_hash n'" by (force simp: updates_def)
    then have "list_all2 (child db) (cs[?i := n']) (ts[?i := pinsert (ts ! ?i) y (PVal v)])"
      if "lookup (ts ! ?i) y \<noteq> Some v"
      using mm(2) that by (intro list_all2_update_cong) auto
    with n' mm x i f'(1) pinsert_same [OF sl(3), of v] show ?thesis
      by (auto simp: updates_def Let_def)
  qed
  have ne: "key \<noteq> []" using x by simp
  have same: "\<not> ?ch \<Longrightarrow> pinsert ?t key (PVal v) = ?t" using pinsert_same [OF PFull.prems(2)] by blast
  show ?case by (rule trie_insert_step [OF nh PFull.prems(1,3) ne same])
qed

section \<open>Deletion\<close>

lemma expands_PNil_iff: "expn db n t \<Longrightarrow> t = PNil \<longleftrightarrow> n = NilN"
  using expands_Hash_inner by (cases n) auto

lemma remaining_child_premaining:
  "list_all2 (child db) cs ts \<Longrightarrow> remaining_child i pos cs = premaining i pos ts"
  by (induction cs ts arbitrary: i pos rule: list_all2_induct) (auto dest: expands_PNil_iff)

lemma trie_resolve_expands:
  assumes "expn db n t"
  shows "\<exists>n'. trie_resolve db gen n prefix = Ok n' \<and> expn db n' t \<and> \<not> is_hash n'"
  using assms by (cases n) (auto simp: trie_resolve_def intro: expands_HashD simp del: expands_simps)

lemma trie_delete_hash:
  assumes "expn db (HashN h) t" "fuel_ok fuel key" "\<not> ch \<Longrightarrow> t' = t"
    and "\<And>n f. expn db n t \<Longrightarrow> \<not> is_hash n \<Longrightarrow> 2 * length key + 1 \<le> f \<Longrightarrow>
      updates db (trie_delete f db gen n prefix key) t' ch"
  shows "updates db (trie_delete fuel db gen (HashN h) prefix key) t' ch"
proof -
  obtain f where f: "fuel = Suc f" "2 * length key + 1 \<le> f"
    using assms(2) by (cases fuel) (auto simp: fuel_ok_def)
  from expands_HashD [OF assms(1)] obtain n
    where n: "resolveHash db gen h prefix = Ok n" "expn db n t" "\<not> is_hash n" by blast
  from assms(4) [OF n(2,3) f(2)] n(1,2) f(1) assms(3) show ?thesis
    by (cases ch) (auto simp: updates_def)
qed

lemma trie_delete_step:
  assumes "\<And>n f. expn db n t \<Longrightarrow> \<not> is_hash n \<Longrightarrow> 2 * length key + 1 \<le> f \<Longrightarrow>
      updates db (trie_delete f db gen n prefix key) t' ch"
    and "expn db n t" "fuel_ok fuel key" "\<not> ch \<Longrightarrow> t' = t"
  shows "updates db (trie_delete fuel db gen n prefix key) t' ch"
proof (cases "is_hash n")
  case True
  then obtain h where "n = HashN h" by (cases n) auto
  with trie_delete_hash [OF _ assms(3) assms(4,1)] assms(2) show ?thesis by blast
next
  case False
  with assms(1-3) show ?thesis by (auto simp: fuel_ok_def)
qed

lemma collapse_correct:
  assumes "list_all2 (child db) cs ts"
  shows "updates db (collapse db gen prefix cs) (pcollapse ts) True"
proof -
  let ?pos = "premaining 0 (-1) ts"
  have pos: "remaining_child 0 (-1) cs = ?pos" using assms by (rule remaining_child_premaining)
  show ?thesis
  proof (cases "?pos \<ge> 0")
    case False
    with assms pos show ?thesis by (simp add: collapse_def pcollapse_def updates_def Let_def)
  next
    case True
    have "nat ?pos < length ts" using premaining_bound [of 0 "-1" ts] True by simp
    then have c: "child db (cs ! nat ?pos) (ts ! nat ?pos)"
      using assms list_all2_lengthD [OF assms] list_all2_nthD [OF assms, of "nat ?pos"] by simp
    from trie_resolve_expands [of db "cs ! nat ?pos" "ts ! nat ?pos" gen prefix] c obtain n'
      where n': "trie_resolve db gen (cs ! nat ?pos) prefix = Ok n'" "expn db n' (ts ! nat ?pos)"
        "\<not> is_hash n'" by blast
    from n'(2,3) c True pos n'(1) show ?thesis
      unfolding collapse_def pcollapse_def updates_def Let_def pos by (cases n') auto
  qed
qed

lemma trie_delete_PFull:
  assumes "unat a < length cs" "trie_delete f db gen (cs ! unat a) (prefix @ [a]) y = Ok (d, nn)"
  shows "trie_delete (Suc f) db gen (FullN cs fl) prefix (a # y) =
    (if d then collapse db gen prefix (cs[unat a := nn]) else Ok (False, FullN cs fl))"
  using assms by (simp add: collapse_def Let_def)

lemma pmerge_expands:
  assumes "expn db c t" "\<not> has_hash c"
  shows "expn db (case c of ShortN ck cval _ \<Rightarrow> ShortN (nk @ ck) cval (newFlag gen) | _ \<Rightarrow> ShortN nk c (newFlag gen))
    (pmerge nk t)"
  using assms by (cases c) (auto simp: pmerge_def)


lemma trie_delete_correct:
  "expn db n t \<Longrightarrow> slot t key \<Longrightarrow> fuel_ok fuel key \<Longrightarrow>
   updates db (trie_delete fuel db gen n prefix key) (pdelete t key) (lookup t key \<noteq> None)"
proof (induction t arbitrary: n key fuel prefix)
  case (PNil n key fuel prefix)
  then obtain f where f: "fuel = Suc f" by (cases fuel) (auto simp: fuel_ok_def)
  from PNil expands_PNil_iff have "n = NilN" by blast
  with f show ?case by (auto simp: updates_def)
next
  case (PVal u n key fuel prefix)
  then have "key = []" by (auto simp: slot_def canon_root_def split: if_splits)
  moreover from PVal obtain f where f: "fuel = Suc f" by (cases fuel) (auto simp: fuel_ok_def)
  moreover from PVal expands_Hash_inner have "n = ValueN u" by (cases n) auto
  ultimately show ?case by (simp add: updates_def)
next
  case (PShort nk t n key fuel prefix)
  let ?t = "PShort nk t" and ?ch = "lookup (PShort nk t) key \<noteq> None"
  have k: "hexkey key" "key \<noteq> []" "canon ?t"
    using PShort.prems(2) by (auto simp: slot_def canon_root_def split: if_splits)
  then have nk: "stored_key nk" "t \<noteq> PNil" "nk \<noteq> []" using canon_PShort_stored by blast+
  have nh: "updates db (trie_delete f db gen m prefix key) (pdelete ?t key) ?ch"
    if m: "expn db m ?t" "\<not> is_hash m" and f: "2 * length key + 1 \<le> f" for m f
  proof -
    from m obtain c fl where mm: "m = ShortN nk c fl" "expn db c t" "has_hash c \<longrightarrow> big t"
      "F fl (PShort nk t)" by (cases m) auto
    from f obtain f' where f': "f = Suc f'" "2 * length key \<le> f'" by (cases f) auto
    consider "prefixLen key nk < length nk" | "prefixLen key nk = length nk" "length nk = length key"
      | "prefixLen key nk = length nk" "length nk < length key"
      using prefixLen_le [of key nk] by linarith
    then show ?thesis
    proof cases
      case 1
      then have "take (length nk) key \<noteq> nk" using prefixLen_full [of key nk] by simp
      with 1 mm f' show ?thesis by (simp add: updates_def)
    next
      case 2
      then have kn: "key = nk" using prefixLen_full [of key nk] by (metis order_refl take_all)
      then have "is_val t" using k nibbles_not_hexkey by auto
      then obtain v where "t = PVal v" by (auto elim: is_val_cases)
      with 2(1) mm(1) f'(1) show ?thesis unfolding kn by (simp add: updates_def)
    next
      case 3
      then have t: "take (length nk) key = nk" by (simp add: prefixLen_full)
      note sl = slot_PShort [OF PShort.prems(2) t]
      from 3 nk(3) f'(2) have "fuel_ok f' (drop (length nk) key)"
        by (cases nk) (auto simp: fuel_ok_def)
      from PShort.IH [OF mm(2) sl this] obtain c'
        where c': "trie_delete f' db gen c (prefix @ take (length nk) key) (drop (length nk) key)
            = Ok (lookup t (drop (length nk) key) \<noteq> None, c')"
          "expn db c' (pdelete t (drop (length nk) key))"
          "lookup t (drop (length nk) key) \<noteq> None \<longrightarrow> \<not> has_hash c'"
        by (auto simp: updates_def)
      show ?thesis
      proof (cases "lookup t (drop (length nk) key) = None")
        case True
        with pdelete_same [OF PShort.prems(2)] t have "pdelete ?t key = ?t" by simp
        with True c' mm 3 t f'(1) show ?thesis by (simp add: updates_def)
      next
        case False
        then have nc: "\<not> has_hash c'" using c'(3) by simp
        note me = pmerge_expands [OF c'(2) this, of nk gen]
        have "trie_delete f db gen m prefix key = Ok (True,
            case c' of ShortN ck cval _ \<Rightarrow> ShortN (nk @ ck) cval (newFlag gen) | _ \<Rightarrow> ShortN nk c' (newFlag gen))"
          using False c'(1) mm(1) 3 f'(1) by (simp split: node.split)
        moreover have "pdelete ?t key = pmerge nk (pdelete t (drop (length nk) key))" using 3 by simp
        moreover have "\<not> has_hash (case c' of ShortN ck cval _ \<Rightarrow> ShortN (nk @ ck) cval (newFlag gen)
            | _ \<Rightarrow> ShortN nk c' (newFlag gen))" by (simp split: node.split)
        ultimately show ?thesis using me False t by (simp add: updates_def)
      qed
    qed
  qed
  have same: "\<not> ?ch \<Longrightarrow> pdelete ?t key = ?t" using pdelete_same [OF PShort.prems(2)] by blast
  show ?case by (rule trie_delete_step [OF nh PShort.prems(1,3) same])
next
  case (PFull ts n key fuel prefix)
  then obtain a y where x: "key = a # y" by (cases key) (auto simp: slot_def)
  let ?t = "PFull ts" and ?ch = "lookup (PFull ts) key \<noteq> None"
  note sl = slot_PFull [OF PFull.prems(2) [unfolded x]]
  have nh: "updates db (trie_delete f db gen m prefix key) (pdelete ?t key) ?ch"
    if m: "expn db m ?t" "\<not> is_hash m" and f: "2 * length key + 1 \<le> f" for m f
  proof -
    from m obtain cs fl where mm: "m = FullN cs fl" "list_all2 (child db) cs ts" "F fl (PFull ts)"
      by (cases m) auto
    from f x obtain f' where f': "f = Suc f'" "fuel_ok f' y" by (cases f) (auto simp: fuel_ok_def)
    let ?i = "unat a"
    have i: "?i < length cs" "?i < length ts" using sl mm(2) by (auto dest: list_all2_lengthD)
    have ci: "child db (cs ! ?i) (ts ! ?i)" using mm(2) i(1) by (rule list_all2_nthD)
    with PFull.IH [of "ts ! ?i" "cs ! ?i" y f'] sl(3) f'(2) i(2) obtain n'
      where n': "trie_delete f' db gen (cs ! ?i) (prefix @ [a]) y = Ok (lookup (ts ! ?i) y \<noteq> None, n')"
        "expn db n' (pdelete (ts ! ?i) y)" "lookup (ts ! ?i) y \<noteq> None \<longrightarrow> \<not> has_hash n'"
      by (force simp: updates_def)
    then have l2: "list_all2 (child db) (cs[?i := n']) (ts[?i := pdelete (ts ! ?i) y])"
      if "lookup (ts ! ?i) y \<noteq> None"
      using mm(2) that by (intro list_all2_update_cong) auto
    have ch: "?ch \<longleftrightarrow> lookup (ts ! ?i) y \<noteq> None" using x i by simp
    show ?thesis
    proof (cases ?ch)
      case False
      with pdelete_same [OF PFull.prems(2)] have "pdelete ?t key = ?t" by blast
      with False ch trie_delete_PFull [OF i(1) n'(1), of fl] m mm(1) f'(1) x show ?thesis
        by (simp add: updates_def del: trie_delete.simps)
    next
      case True
      with ch trie_delete_PFull [OF i(1) n'(1), of fl] collapse_correct [OF l2, of gen prefix] mm(1) f'(1) x i
      show ?thesis by (simp del: trie_delete.simps)
    qed
  qed
  have same: "\<not> ?ch \<Longrightarrow> pdelete ?t key = ?t" using pdelete_same [OF PFull.prems(2)] by blast
  show ?case by (rule trie_delete_step [OF nh PFull.prems(1,3) same])
qed

section \<open>Tries\<close>

definition reps :: "db \<Rightarrow> Trie \<Rightarrow> ptree \<Rightarrow> bool" where
  "reps db t p \<longleftrightarrow> expn db (tr_root t) p \<and> canon_root p"

lemma TryGet_reps:
  assumes "reps db t p" "enough fuel key"
  shows "\<exists>t'. TryGet fuel db t key = Ok (content p key, t') \<and> reps db t' p"
proof -
  from assms(1) have r: "expn db (tr_root t) p" "canon_root p" by (auto simp: reps_def)
  from tryGet_correct [OF r(1), of 0 "keybytesToHex key" fuel "tr_cachegen t"]
  obtain n d where "tryGet fuel db (tr_cachegen t) (tr_root t) (keybytesToHex key) 0 =
      Ok (lookup p (keybytesToHex key), n, d)" "expn db n p"
    using slot_keybytes [OF r(2)] enough_fuel_ok [OF assms(2)] by (auto simp: gets_def)
  with r show ?thesis by (auto simp: TryGet_def reps_def content_def)
qed

lemma TryDelete_reps:
  assumes "reps db t p" "enough fuel key"
  shows "\<exists>t'. TryDelete fuel db t key = Ok t' \<and> reps db t' (pdelete p (keybytesToHex key))"
proof -
  let ?k = "keybytesToHex key"
  from assms(1) have r: "expn db (tr_root t) p" "canon_root p" by (auto simp: reps_def)
  have k: "hexkey ?k" by (rule hexkey_keybytesToHex)
  from trie_delete_correct [OF r(1) slot_keybytes [OF r(2)] enough_fuel_ok [OF assms(2)],
      of "tr_cachegen t" "[]"] obtain n
    where "trie_delete fuel db (tr_cachegen t) (tr_root t) [] ?k = Ok (lookup p ?k \<noteq> None, n)"
      "expn db n (pdelete p ?k)" unfolding updates_def by blast
  with pt.inv_del [OF r(2) k] show ?thesis by (simp add: TryDelete_def reps_def)
qed

lemma TryUpdate_reps:
  assumes "reps db t p" "enough fuel (fst op)"
  shows "\<exists>t'. TryUpdate fuel db t (fst op) (snd op) = Ok t' \<and> reps db t' (ptree_ops [op] p)"
proof -
  obtain key v where op: "op = (key, v)" by force
  let ?k = "keybytesToHex key"
  from assms(1) have r: "expn db (tr_root t) p" "canon_root p" by (auto simp: reps_def)
  have k: "hexkey ?k" by (rule hexkey_keybytesToHex)
  have f: "fuel_ok fuel ?k" using enough_fuel_ok assms(2) op by simp
  show ?thesis
  proof (cases "v = []")
    case True
    have "TryUpdate fuel db t key [] = TryDelete fuel db t key" by (simp add: TryUpdate_def TryDelete_def)
    with True op TryDelete_reps [OF assms(1), of fuel key] assms(2) show ?thesis
      by (simp add: ptree_ops_def hex_op_def)
  next
    case False
    from trie_insert_correct [OF r(1) slot_keybytes [OF r(2)] f, of "tr_cachegen t" "[]" v] obtain n
      where "trie_insert fuel db (tr_cachegen t) (tr_root t) [] ?k (ValueN v) = Ok (lookup p ?k \<noteq> Some v, n)"
        "expn db n (pinsert p ?k (PVal v))" unfolding updates_def by blast
    with False op pt.inv_upd [OF r(2) k False] show ?thesis
      by (simp add: TryUpdate_def reps_def ptree_ops_def hex_op_def)
  qed
qed

lemma run_updates_reps:
  "reps db t p \<Longrightarrow> list_all (\<lambda>op. enough fuel (fst op)) ops \<Longrightarrow>
   \<exists>t'. run_updates fuel db t ops = Ok t' \<and> reps db t' (ptree_ops ops p)"
proof (induction ops arbitrary: t p)
  case Nil
  then show ?case by (simp add: ptree_ops_def)
next
  case (Cons op ops)
  from TryUpdate_reps [OF Cons.prems(1), of fuel op] Cons.prems(2) obtain t1
    where t1: "TryUpdate fuel db t (fst op) (snd op) = Ok t1" "reps db t1 (ptree_ops [op] p)" by auto
  from Cons.IH [OF t1(2)] Cons.prems(2) obtain t2
    where "run_updates fuel db t1 ops = Ok t2" "reps db t2 (ptree_ops (op # ops) p)"
    unfolding ptree_ops_Cons [of op ops p] by auto
  with t1 show ?case by (cases op) simp
qed

end

text \<open>
  With nothing asked of the caches: \<open>represents db t p\<close> says that the trie, read through the database,
  is the canonical tree \<open>p\<close>.
\<close>

interpretation plain: cache_inv "\<lambda>_ _. True" "\<lambda>_ _. True" "\<lambda>_. True"
  by unfold_locales auto

definition represents :: "db \<Rightarrow> Trie \<Rightarrow> ptree \<Rightarrow> bool" where
  "represents db t p \<longleftrightarrow>
     expands (\<lambda>_ _. True) (\<lambda>_ _. True) (\<lambda>_. True) db (tr_root t) p \<and> canon_root p"

lemma represents_reps: "represents = plain.reps"
  by (simp add: fun_eq_iff represents_def plain.reps_def)

section \<open>Properties of the trie\<close>

text \<open>
  C1: Reading.  On every trie that represents a canonical tree, loaded or still in the database,
  \<^verbatim>\<open>TryGet\<close> returns the stored value, and the trie it leaves behind (with nodes loaded on the way)
  represents the same tree.
\<close>

theorem TryGet_correct:
  assumes "represents db t p" and "enough fuel key"
  shows "\<exists>t'. TryGet fuel db t key = Ok (content p key, t') \<and> represents db t' p"
  using plain.TryGet_reps assms unfolding represents_reps .

theorem TryGet_correct_witness:
  "\<exists>t'. TryGet 8 (\<lambda>_. None)
      \<lparr>tr_root = ShortN [6, 1, 16] (ValueN [5]) (newFlag 0), tr_originalRoot = [], tr_cachegen = 0, tr_cachelimit = 0\<rparr>
      [0x61] = Ok (Some [5], t')"
  using TryGet_correct [of "\<lambda>_. None"
      "\<lparr>tr_root = ShortN [6, 1, 16] (ValueN [5]) (newFlag 0), tr_originalRoot = [], tr_cachegen = 0, tr_cachelimit = 0\<rparr>"
      "PShort [6, 1, 16] (PVal [5])" 8 "[0x61]"]
  by (auto simp: represents_def enough_def canon_root_def hexkey_def nibble_def content_def)

text \<open>
  C2: Writing.  \<^verbatim>\<open>TryUpdate\<close> always returns, keeps the trie canonical, and changes exactly the binding of
  its key: to the value, or to nothing when the value is empty.
\<close>

theorem TryUpdate_correct:
  assumes "represents db t p" and "enough fuel key"
  shows "\<exists>t' p'. TryUpdate fuel db t key value = Ok t' \<and> represents db t' p'
    \<and> content p' = (content p)(key := if value = [] then None else Some value)"
proof -
  have c: "canon_root p" using assms(1) by (simp add: represents_def)
  from plain.TryUpdate_reps [of db t p fuel "(key, value)"] assms show ?thesis
    unfolding represents_reps using content_pdelete [OF c, of key] content_pinsert [OF c, of "value" key]
    by (cases "value = []") (auto simp: ptree_ops_def hex_op_def)
qed

theorem TryUpdate_correct_witness:
  "\<exists>t' p'. TryUpdate 8 (\<lambda>_. None)
      \<lparr>tr_root = ShortN [6, 1, 16] (ValueN [5]) (newFlag 0), tr_originalRoot = [], tr_cachegen = 0, tr_cachelimit = 0\<rparr>
      [0x62] [7] = Ok t' \<and> represents (\<lambda>_. None) t' p' \<and> content p' [0x62] = Some [7] \<and> content p' [0x61] = Some [5]"
proof -
  let ?t = "\<lparr>tr_root = ShortN [6, 1, 16] (ValueN [5]) (newFlag 0), tr_originalRoot = [], tr_cachegen = 0, tr_cachelimit = 0\<rparr>"
  have "represents (\<lambda>_. None) ?t (PShort [6, 1, 16] (PVal [5]))"
    by (simp add: represents_def canon_root_def hexkey_def nibble_def)
  from TryUpdate_correct [OF this, of 8 "[0x62]" "[7]"] obtain t' p'
    where "TryUpdate 8 (\<lambda>_. None) ?t [0x62] [7] = Ok t'" "represents (\<lambda>_. None) t' p'"
      "content p' = (content (PShort [6, 1, 16] (PVal [5])))([0x62] := Some [7])"
    by (auto simp: enough_def)
  then show ?thesis by (intro exI [of _ t'] exI [of _ p']) (simp add: content_def)
qed

text \<open>
  C3: Deleting.  \<^verbatim>\<open>TryDelete\<close> always returns, keeps the trie canonical and removes exactly its key.
\<close>

theorem TryDelete_correct:
  assumes "represents db t p" and "enough fuel key"
  shows "\<exists>t' p'. TryDelete fuel db t key = Ok t' \<and> represents db t' p'
    \<and> content p' = (content p)(key := None)"
proof -
  have "canon_root p" using assms(1) by (simp add: represents_def)
  from content_pdelete [OF this, of key] plain.TryDelete_reps [of db t p fuel key] assms show ?thesis
    unfolding represents_reps by blast
qed


theorem TryDelete_correct_witness:
  "\<exists>t' p'. TryDelete 8 (\<lambda>_. None)
      \<lparr>tr_root = ShortN [6, 1, 16] (ValueN [5]) (newFlag 0), tr_originalRoot = [], tr_cachegen = 0, tr_cachelimit = 0\<rparr>
      [0x61] = Ok t' \<and> represents (\<lambda>_. None) t' p' \<and> content p' [0x61] = None"
proof -
  let ?t = "\<lparr>tr_root = ShortN [6, 1, 16] (ValueN [5]) (newFlag 0), tr_originalRoot = [], tr_cachegen = 0, tr_cachelimit = 0\<rparr>"
  have "represents (\<lambda>_. None) ?t (PShort [6, 1, 16] (PVal [5]))"
    by (simp add: represents_def canon_root_def hexkey_def nibble_def)
  from TryDelete_correct [OF this, of 8 "[0x61]"] obtain t' p'
    where "TryDelete 8 (\<lambda>_. None) ?t [0x61] = Ok t'" "represents (\<lambda>_. None) t' p'"
      "content p' = (content (PShort [6, 1, 16] (PVal [5])))([0x61] := None)"
    by (auto simp: enough_def)
  then show ?thesis by (intro exI [of _ t'] exI [of _ p']) simp
qed

text \<open>
  C4: The trie is a function of its content: any two sequences of updates of an empty trie that leave
  the same key-value map, whatever their order and whatever was written and deleted in between, both
  return and give tries that represent one and the same tree.
\<close>

theorem updates_order_independent:
  assumes "tr_root t = NilN"
    and "list_all (\<lambda>op. enough fuel (fst op)) ops" and "list_all (\<lambda>op. enough fuel (fst op)) ops'"
    and "map_ops (map map_op ops) Map.empty = map_ops (map map_op ops') Map.empty"
  shows "\<exists>t1 t2 p. run_updates fuel db t ops = Ok t1 \<and> run_updates fuel db t ops' = Ok t2
    \<and> represents db t1 p \<and> represents db t2 p"
proof -
  have "represents db t PNil" using assms(1) by (simp add: represents_def canon_root_def)
  then have "plain.reps db t PNil" by (simp add: represents_reps)
  from plain.run_updates_reps [OF this assms(2)] plain.run_updates_reps [OF this assms(3)]
  show ?thesis unfolding ptree_ops_unique [OF assms(4)] represents_reps by blast
qed

theorem updates_order_independent_witness:
  "\<exists>t1 t2 p.
     run_updates 8 (\<lambda>_. None) \<lparr>tr_root = NilN, tr_originalRoot = [], tr_cachegen = 0, tr_cachelimit = 0\<rparr>
       [([1], [5]), ([2], [6])] = Ok t1
   \<and> run_updates 8 (\<lambda>_. None) \<lparr>tr_root = NilN, tr_originalRoot = [], tr_cachegen = 0, tr_cachelimit = 0\<rparr>
       [([2], [9]), ([3], [4]), ([2], [6]), ([1], [5]), ([3], [])] = Ok t2
   \<and> represents (\<lambda>_. None) t1 p \<and> represents (\<lambda>_. None) t2 p"
  by (rule updates_order_independent) (auto simp: enough_def map_op_def)

end
