(* ===== verification/Trie_Hasher.thy ===== *)
theory Trie_Hasher
  imports Patricia_Trie Mem_Database
begin

text \<open>
  Hashing and committing a trie, from \<^verbatim>\<open>src/common/trie/hasher.go\<close> and the second half of \<^verbatim>\<open>trie.go\<close>.  The hash
  function (Keccak-256, a library) is the parameter \<open>kec\<close>; the store is the parameter \<open>put\<close>, and a missing
  writer is \<open>None\<close>.
\<close>

section \<open>The hasher\<close>

text \<open>The value \<open>rlp.Encode\<close> sees for a node: flags are unexported fields and not encoded.\<close>

fun node_rval :: "node \<Rightarrow> rval" where
  "node_rval NilN = NilInterfaceV"
| "node_rval (FullN cs _) = ListV (map node_rval cs)"
| "node_rval (ShortN k v _) = ListV [BytesV k, node_rval v]"
| "node_rval (HashN h) = BytesV h"
| "node_rval (ValueN v) = BytesV v"

type_synonym ('e, 'd) putter = "'d \<Rightarrow> bytes \<Rightarrow> bytes \<Rightarrow> ('e, 'd) res"

definition hasher_store ::
  "(bytes \<Rightarrow> bytes) \<Rightarrow> ('e, 'd) putter \<Rightarrow> node \<Rightarrow> 'd option \<Rightarrow> bool \<Rightarrow> ('e, node \<times> 'd option) res" where
  "hasher_store kec put n db force =
     (case n of
        HashN _ \<Rightarrow> Ok (n, db)
      | NilN \<Rightarrow> Ok (n, db)
      | _ \<Rightarrow>
          (case rlp_Encode (node_rval n) of
             Ok ws \<Rightarrow>
               (let tmp = concat ws
                in if length tmp < 32 \<and> \<not> force then Ok (n, db)
                   else
                     (let hash = (case fst (node_cache n) of None \<Rightarrow> kec tmp | Some h \<Rightarrow> h)
                      in case db of
                           None \<Rightarrow> Ok (HashN hash, None)
                         | Some d \<Rightarrow> res_map (\<lambda>d'. (HashN hash, Some d')) (put d hash tmp)))
           | Err _ \<Rightarrow> Panic
           | Panic \<Rightarrow> Panic
           | Diverge \<Rightarrow> Diverge))"

definition set_cached :: "node \<Rightarrow> node \<Rightarrow> bool \<Rightarrow> node" where
  "set_cached hashed cached stored =
     (let cachedHash = (case hashed of HashN h \<Rightarrow> Some h | _ \<Rightarrow> None);
          upd = (\<lambda>fl. fl\<lparr>nf_hash := cachedHash, nf_dirty := (if stored then False else nf_dirty fl)\<rparr>)
      in case cached of
           ShortN k v fl \<Rightarrow> ShortN k v (upd fl)
         | FullN cs fl \<Rightarrow> FullN cs (upd fl)
         | _ \<Rightarrow> cached)"

fun hasher_hash ::
  "(bytes \<Rightarrow> bytes) \<Rightarrow> ('e, 'd) putter \<Rightarrow> u16 \<Rightarrow> u16 \<Rightarrow> node \<Rightarrow> 'd option \<Rightarrow> bool
    \<Rightarrow> ('e, node \<times> node \<times> 'd option) res"
  and hashChildren ::
  "(bytes \<Rightarrow> bytes) \<Rightarrow> ('e, 'd) putter \<Rightarrow> u16 \<Rightarrow> u16 \<Rightarrow> node \<Rightarrow> 'd option
    \<Rightarrow> ('e, node \<times> node \<times> 'd option) res"
  and hashChildren_loop ::
  "(bytes \<Rightarrow> bytes) \<Rightarrow> ('e, 'd) putter \<Rightarrow> u16 \<Rightarrow> u16 \<Rightarrow> nat \<Rightarrow> node list \<Rightarrow> 'd option
    \<Rightarrow> ('e, node list \<times> node list \<times> 'd option) res" where
  "hasher_hash kec put gen limit n db force =
     (let go = (\<lambda>_. res_bind (hashChildren kec put gen limit n db) (\<lambda>(collapsed, cached, db').
              res_map (\<lambda>(hashed, db''). (hashed, set_cached hashed cached (db \<noteq> None), db''))
                (hasher_store kec put collapsed db' force)))
      in if n = NilN then Panic
         else case node_cache n of
                (Some hash, dirty) \<Rightarrow>
                  if db = None then Ok (HashN hash, n, db)
                  else if node_canUnload n gen limit then Ok (HashN hash, HashN hash, db)
                  else if \<not> dirty then Ok (HashN hash, n, db)
                  else go ()
              | (None, _) \<Rightarrow> go ())"
| "hashChildren kec put gen limit (ShortN k v fl) db =
     res_bind (hexToCompact k) (\<lambda>ck.
       res_map (\<lambda>(collapsedVal, cachedVal, db').
           (ShortN ck (if collapsedVal = NilN then ValueN [] else collapsedVal) fl, ShortN k cachedVal fl, db'))
         (case v of
            ValueN _ \<Rightarrow> Ok (v, v, db)
          | _ \<Rightarrow> hasher_hash kec put gen limit v db False))"
| "hashChildren kec put gen limit (FullN cs fl) db =
     res_map (\<lambda>(collapsedCs, cachedCs, db').
         (FullN (collapsedCs @ [if cs ! 16 = NilN then ValueN [] else cs ! 16]) fl,
          FullN (cachedCs @ [cs ! 16]) fl, db'))
       (hashChildren_loop kec put gen limit 16 cs db)"
| "hashChildren kec put gen limit n db = Ok (n, n, db)"
| "hashChildren_loop kec put gen limit (Suc i) (c # cs) db =
     res_bind (if c \<noteq> NilN then hasher_hash kec put gen limit c db False else Ok (ValueN [], NilN, db))
       (\<lambda>(collapsed, cached, db').
         res_map (\<lambda>(collapsedCs, cachedCs, db''). (collapsed # collapsedCs, cached # cachedCs, db''))
           (hashChildren_loop kec put gen limit i cs db'))"
| "hashChildren_loop kec put gen limit _ _ db = Ok ([], [], db)"

definition hashRoot ::
  "(bytes \<Rightarrow> bytes) \<Rightarrow> ('e, 'd) putter \<Rightarrow> Trie \<Rightarrow> 'd option \<Rightarrow> ('e, node \<times> node \<times> 'd option) res" where
  "hashRoot kec put t db =
     (if tr_root t = NilN then Ok (HashN emptyRoot, NilN, db)
      else hasher_hash kec put (tr_cachegen t) (tr_cachelimit t) (tr_root t) db True)"

text \<open>With no writer the store is never used; any one instance of its type serves.\<close>

definition Trie_Hash :: "(bytes \<Rightarrow> bytes) \<Rightarrow> Trie \<Rightarrow> (trie_error, hash \<times> Trie) res" where
  "Trie_Hash kec t =
     (case hashRoot kec (MemDatabase_Put :: (unit, MemDatabase) putter) t None of
        Ok (HashN h, cached, _) \<Rightarrow> Ok (BytesToHash h, t\<lparr>tr_root := cached\<rparr>)
      | Ok (_, _, _) \<Rightarrow> Panic
      | Err _ \<Rightarrow> Ok (BytesToHash [], t)
      | Panic \<Rightarrow> Panic
      | Diverge \<Rightarrow> Diverge)"

definition CommitTo ::
  "(bytes \<Rightarrow> bytes) \<Rightarrow> ('e, 'd) putter \<Rightarrow> Trie \<Rightarrow> 'd \<Rightarrow> ('e, hash \<times> Trie \<times> 'd) res" where
  "CommitTo kec put t db =
     res_bind (hashRoot kec put t (Some db)) (\<lambda>(hash, cached, db').
       case (hash, db') of
         (HashN h, Some d) \<Rightarrow>
           Ok (BytesToHash h, t\<lparr>tr_root := cached, tr_cachegen := tr_cachegen t + 1\<rparr>, d)
       | _ \<Rightarrow> Panic)"

definition Commit ::
  "(bytes \<Rightarrow> bytes) \<Rightarrow> ('e, 'd) putter \<Rightarrow> Trie \<Rightarrow> 'd option \<Rightarrow> ('e, hash \<times> Trie \<times> 'd) res" where
  "Commit kec put t db = (case db of None \<Rightarrow> Panic | Some d \<Rightarrow> CommitTo kec put t d)"

section \<open>The reference: encodings of trees\<close>

text \<open>
  \<open>pval\<close> is the RLP value of a tree's node, \<open>pref\<close> what its parent holds: the node itself when its encoding
  is shorter than a hash, and the hash of the encoding otherwise.
\<close>

fun pack :: "bytes \<Rightarrow> bytes" where
  "pack (a # b # k) = (push_bit 4 a OR b) # pack k"
| "pack _ = []"

definition compact :: "bytes \<Rightarrow> bytes" where
  "compact k =
     (let t = of_bool (hasTerm k) :: byte; k' = (if hasTerm k then butlast k else k)
      in if odd (length k') then (push_bit 5 t OR push_bit 4 1 OR hd k') # pack (tl k')
         else push_bit 5 t # pack k')"

lemma decodeNibbles_pack: "even (length k) \<Longrightarrow> decodeNibbles k = Ok (pack k)"
  by (induction k rule: decodeNibbles.induct) simp_all

lemma hexToCompact_compact: "hexToCompact k = Ok (compact k)"
  by (simp add: hexToCompact_def compact_def Let_def decodeNibbles_pack)

lemma compactToHex_compact:
  assumes "stored_key k"
  shows "compactToHex (compact k) = (Ok k :: ('e, bytes) res)"
  using compact_roundtrip [OF assms, where 'e = 'e] by (simp add: hexToCompact_compact)

fun pval :: "(bytes \<Rightarrow> bytes) \<Rightarrow> ptree \<Rightarrow> rval" where
  "pval kec PNil = BytesV []"
| "pval kec (PVal v) = BytesV v"
| "pval kec (PShort k t) =
     ListV [BytesV (compact k),
       if (case t of PVal _ \<Rightarrow> True | PNil \<Rightarrow> True | _ \<Rightarrow> length (enc_rval (pval kec t)) < 32) then pval kec t
       else BytesV (kec (enc_rval (pval kec t)))]"
| "pval kec (PFull cs) =
     ListV (map (\<lambda>t. if (case t of PVal _ \<Rightarrow> True | PNil \<Rightarrow> True | _ \<Rightarrow> length (enc_rval (pval kec t)) < 32) then pval kec t
       else BytesV (kec (enc_rval (pval kec t)))) cs)"

definition penc :: "(bytes \<Rightarrow> bytes) \<Rightarrow> ptree \<Rightarrow> bytes" where
  "penc kec t = enc_rval (pval kec t)"

fun inner :: "ptree \<Rightarrow> bool" where
  "inner (PShort _ _) = True"
| "inner (PFull _) = True"
| "inner _ = False"

definition large :: "(bytes \<Rightarrow> bytes) \<Rightarrow> ptree \<Rightarrow> bool" where
  "large kec t \<longleftrightarrow> inner t \<and> 32 \<le> length (penc kec t)"

definition pref :: "(bytes \<Rightarrow> bytes) \<Rightarrow> ptree \<Rightarrow> rval" where
  "pref kec t = (if large kec t then BytesV (kec (penc kec t)) else pval kec t)"

lemma pval_inner:
  "pval kec (PShort k t) = ListV [BytesV (compact k), pref kec t]"
  "pval kec (PFull cs) = ListV (map (pref kec) cs)"
proof -
  have *: "(if (case t of PVal _ \<Rightarrow> True | PNil \<Rightarrow> True | _ \<Rightarrow> length (enc_rval (pval kec t)) < 32) then pval kec t
       else BytesV (kec (enc_rval (pval kec t)))) = pref kec t" for t
    by (cases t) (auto simp: pref_def large_def penc_def simp del: pval.simps)
  show "pval kec (PShort k t) = ListV [BytesV (compact k), pref kec t]"
    and "pval kec (PFull cs) = ListV (map (pref kec) cs)"
    by (simp_all only: pval.simps *)
qed

declare pval.simps(3,4) [simp del]

text \<open>All encodings along a tree fit into 64-bit lengths.\<close>

fun fits :: "(bytes \<Rightarrow> bytes) \<Rightarrow> ptree \<Rightarrow> bool" where
  "fits kec (PShort k t) \<longleftrightarrow> length (penc kec (PShort k t)) < 2 ^ 64 \<and> fits kec t"
| "fits kec (PFull cs) \<longleftrightarrow> length (penc kec (PFull cs)) < 2 ^ 64 \<and> list_all (fits kec) cs"
| "fits kec t \<longleftrightarrow> length (penc kec t) < 2 ^ 64"

lemma fits_length: "fits kec t \<Longrightarrow> length (penc kec t) < 2 ^ 64"
  by (cases t) auto

section \<open>Decoding what was encoded\<close>

fun simple_item :: "rval \<Rightarrow> item" where
  "simple_item (BytesV b) = Str b"
| "simple_item (ListV vs) = Lst (map simple_item vs)"
| "simple_item _ = Str []"

fun simple :: "rval \<Rightarrow> bool" where
  "simple (BytesV b) = True"
| "simple (ListV vs) = list_all simple vs"
| "simple _ = False"

lemma simple_enc: "simple v \<Longrightarrow> enc_rval v = rlp_enc (simple_item v)"
proof (induction v rule: simple.induct)
  case (2 vs)
  then have m: "map enc_rval vs = map rlp_enc (map simple_item vs)" by (simp add: list_all_iff)
  show ?case unfolding enc_rval.simps simple_item.simps rlp_enc.simps m ..
qed auto

lemma simple_pval: "simple (pval kec t)" and simple_pref: "simple (pref kec t)"
proof -
  show s: "simple (pval kec t)" for t
    by (induction t) (auto simp: pval_inner pref_def list_all_iff)
  show "simple (pref kec t)" by (simp add: pref_def s)
qed

lemma CountValues_simple:
  assumes "list_all simple vs" "length (concat (map enc_rval vs)) < 2 ^ 64"
  shows "CountValues (concat (map enc_rval vs)) = Ok (length vs)"
proof -
  have e: "map enc_rval vs = map rlp_enc (map simple_item vs)"
    using assms(1) simple_enc by (simp add: list_all_iff)
  have "length (concat (map rlp_enc (map simple_item vs))) < 2 ^ 64" using assms(2) unfolding e .
  from CountValues_loop_items [OF this, of 0] show ?thesis
    unfolding e CountValues_def by simp
qed

lemma SplitList_rlp_list:
  assumes "length (rlp_list c @ rest) < 2 ^ 64"
  shows "SplitList (rlp_list c @ rest) = Ok (c, rest)"
  using Split_Ok_iff [OF assms, of KList c rest] by (simp add: SplitList_def frame_def kind_ok_def)

lemma SplitString_rlp_str:
  assumes "length (rlp_str c @ rest) < 2 ^ 64"
  shows "SplitString (rlp_str c @ rest) = Ok (c, rest)"
  using Split_Ok_iff [OF assms, of KByte c rest] Split_Ok_iff [OF assms, of KString c rest]
  by (cases "is_byte c") (simp_all add: SplitString_def frame_def kind_ok_def)

text \<open>The node that decoding gives back: large children are references again.\<close>

fun shallow :: "(bytes \<Rightarrow> bytes) \<Rightarrow> u16 \<Rightarrow> bytes option \<Rightarrow> ptree \<Rightarrow> node" where
  "shallow kec gen h PNil = NilN"
| "shallow kec gen h (PVal v) = ValueN v"
| "shallow kec gen h (PShort k t) =
     ShortN k (if large kec t then HashN (kec (penc kec t)) else shallow kec gen None t)
       \<lparr>nf_hash = h, nf_gen = gen, nf_dirty = False\<rparr>"
| "shallow kec gen h (PFull cs) =
     FullN (map (\<lambda>t. if large kec t then HashN (kec (penc kec t)) else shallow kec gen None t) cs)
       \<lparr>nf_hash = h, nf_gen = gen, nf_dirty = False\<rparr>"

definition shallow_ref :: "(bytes \<Rightarrow> bytes) \<Rightarrow> u16 \<Rightarrow> ptree \<Rightarrow> node" where
  "shallow_ref kec gen t = (if large kec t then HashN (kec (penc kec t)) else shallow kec gen None t)"

lemma inner_canon: "canon t \<Longrightarrow> inner t"
  by (cases t) auto

lemma length_concat_enc: "x \<in> set xs \<Longrightarrow> length (f x) \<le> length (concat (map f xs))"
  by (induction xs) auto

lemma decodeRef_pref:
  assumes kl: "\<And>x. length (kec x) = 32"
    and t: "t = PNil \<or> canon t"
    and len: "length (enc_rval (pref kec t) @ rest) < 2 ^ 64"
    and dn: "\<not> large kec t \<Longrightarrow> canon t \<Longrightarrow> dn None (penc kec t @ rest) = Ok (shallow kec gen None t)"
  shows "decodeRef dn (enc_rval (pref kec t) @ rest) = Ok (shallow_ref kec gen t, rest)"
proof -
  have str: "decodeRef dn (rlp_str b @ rest) =
      (if length b = 0 then Ok (NilN, rest) else if length b = 32 then Ok (HashN b, rest)
       else Err (InvalidStringSize (length b)))" if "length (rlp_str b @ rest) < 2 ^ 64" "\<not> is_byte b" for b
    using Split_Ok_iff [OF that(1), of KString b rest] that(2)
    by (simp add: decodeRef_def frame_def kind_ok_def)
  consider "t = PNil" | "large kec t" | "canon t" "\<not> large kec t" using t by blast
  then show ?thesis
  proof cases
    case 1
    then show ?thesis using str [of "[]"] len by (simp add: pref_def large_def shallow_ref_def is_byte_def)
  next
    case 2
    then show ?thesis using str [of "kec (penc kec t)"] len kl
      by (simp add: pref_def shallow_ref_def is_byte_def)
  next
    case 3
    then have i: "inner t" by (simp add: inner_canon)
    have p: "pref kec t = pval kec t" using 3 by (simp add: pref_def)
    from i obtain vs where vs: "pval kec t = ListV vs" by (cases t) (auto simp: pval_inner)
    let ?c = "concat (map enc_rval vs)"
    have e: "penc kec t = rlp_list ?c" using vs by (simp add: penc_def)
    have "Split (penc kec t @ rest) = Ok (KList, ?c, rest)"
      using Split_Ok_iff [of "penc kec t @ rest" KList ?c rest] len e p
      by (simp add: frame_def kind_ok_def penc_def)
    moreover have "length (penc kec t) \<le> hashLen" using 3 i by (simp add: large_def hashLen_def)
    ultimately show ?thesis
      using dn 3 p by (simp add: decodeRef_def shallow_ref_def penc_def)
  qed
qed


lemma decodeFull_loop_pref:
  assumes kl: "\<And>x. length (kec x) = 32"
  shows "list_all (\<lambda>t. t = PNil \<or> canon t) ts \<Longrightarrow>
   length (concat (map (\<lambda>t. enc_rval (pref kec t)) ts) @ r) < 2 ^ 64 \<Longrightarrow>
   (\<And>t rest. t \<in> set ts \<Longrightarrow> \<not> large kec t \<Longrightarrow> canon t \<Longrightarrow> length (penc kec t @ rest) < 2 ^ 64 \<Longrightarrow>
      dn None (penc kec t @ rest) = Ok (shallow kec gen None t)) \<Longrightarrow>
   decodeFull_loop dn (length ts) (concat (map (\<lambda>t. enc_rval (pref kec t)) ts) @ r) =
     Ok (map (shallow_ref kec gen) ts, r)"
proof (induction ts)
  case (Cons t ts)
  let ?rest = "concat (map (\<lambda>t. enc_rval (pref kec t)) ts) @ r"
  have e: "concat (map (\<lambda>t. enc_rval (pref kec t)) (t # ts)) @ r = enc_rval (pref kec t) @ ?rest" by simp
  have len: "length (enc_rval (pref kec t) @ ?rest) < 2 ^ 64" using Cons.prems(2) unfolding e .
  have "decodeRef dn (enc_rval (pref kec t) @ ?rest) = Ok (shallow_ref kec gen t, ?rest)"
  proof (rule decodeRef_pref [OF kl _ len])
    show "t = PNil \<or> canon t" using Cons.prems(1) by simp
    show "dn None (penc kec t @ ?rest) = Ok (shallow kec gen None t)" if "\<not> large kec t" "canon t"
      using Cons.prems(3) [of t ?rest] that len by (simp add: pref_def penc_def)
  qed
  moreover have "decodeFull_loop dn (length ts) ?rest = Ok (map (shallow_ref kec gen) ts, r)"
    using Cons by simp
  ultimately show ?case unfolding e by simp
qed simp

lemma shallow_inner:
  "shallow kec gen h (PShort k t) = ShortN k (shallow_ref kec gen t) \<lparr>nf_hash = h, nf_gen = gen, nf_dirty = False\<rparr>"
  "shallow kec gen h (PFull cs) = FullN (map (shallow_ref kec gen) cs) \<lparr>nf_hash = h, nf_gen = gen, nf_dirty = False\<rparr>"
  by (simp_all add: shallow_ref_def)

declare shallow.simps(3,4) [simp del]

lemma penc_inner:
  "penc kec (PShort k t) = rlp_list (rlp_str (compact k) @ enc_rval (pref kec t))"
  "penc kec (PFull cs) = rlp_list (concat (map (\<lambda>t. enc_rval (pref kec t)) cs))"
  by (simp_all add: penc_def pval_inner comp_def)

lemma length_rlp_list: "length c < length (rlp_list c)"
  by (simp add: rlp_list_def rlp_head_def)

lemma embedded_shorter:
  "\<not> large kec t \<Longrightarrow> length (enc_rval (pref kec t)) = length (penc kec t)"
  by (simp add: pref_def penc_def)

lemma decodeNode_penc:
  assumes kl: "\<And>x. length (kec x) = 32"
  shows "canon t \<Longrightarrow> length (penc kec t @ rest) < 2 ^ 64 \<Longrightarrow> length (penc kec t) < fuel \<Longrightarrow>
    decodeNode_fuel fuel h (penc kec t @ rest) gen = Ok (shallow kec gen h t)"
proof (induction t arbitrary: fuel h rest)
  case (PShort k t)
  then obtain f where f: "fuel = Suc f" by (cases fuel) auto
  let ?dn = "\<lambda>h b. decodeNode_fuel f h b gen" and ?r = "enc_rval (pref kec t)"
  let ?elems = "rlp_str (compact k) @ ?r"
  have e: "penc kec (PShort k t) = rlp_list ?elems" by (rule penc_inner)
  have sk: "stored_key k" using canon_PShort_stored PShort.prems(1) by blast
  have lel: "length ?elems < 2 ^ 64" using PShort.prems(2) length_rlp_list [of ?elems] e by simp
  have "CountValues (concat (map enc_rval [BytesV (compact k), pref kec t])) = Ok (length [BytesV (compact k), pref kec t])"
    using lel by (intro CountValues_simple) (simp_all add: simple_pref)
  then have cv: "CountValues ?elems = Ok 2" by simp
  have sp: "SplitList (penc kec (PShort k t) @ rest) = Ok (?elems, rest)"
    using SplitList_rlp_list [of ?elems rest] PShort.prems(2) unfolding e by blast
  have ss: "SplitString ?elems = Ok (compact k, ?r)" using SplitString_rlp_str lel by blast
  have sh: "decodeShort ?dn h ?elems gen = Ok (shallow kec gen h (PShort k t))"
  proof (cases "hasTerm k")
    case True
    then have "is_val t" using PShort.prems(1) nibbles_not_hasTerm by auto
    then obtain v where v: "t = PVal v" by (auto elim: is_val_cases)
    then have "?r = rlp_str v @ []" by (simp add: pref_def large_def)
    then have "SplitString ?r = Ok (v, [])" using SplitString_rlp_str [of v "[]"] lel by simp
    with True ss v show ?thesis
      by (simp add: decodeShort_def compactToHex_compact [OF sk] shallow_inner shallow_ref_def large_def)
  next
    case False
    then have c: "canon t" using PShort.prems(1) hexkey_hasTerm by auto
    have "decodeRef ?dn (?r @ []) = Ok (shallow_ref kec gen t, [])"
    proof (rule decodeRef_pref [OF kl])
      show "length (?r @ []) < 2 ^ 64" using lel by simp
      assume nl: "\<not> large kec t" and "canon t"
      have "length (penc kec t) < f"
        using embedded_shorter [OF nl] length_rlp_list [of ?elems] e PShort.prems(3) f by simp
      moreover have "length (penc kec t @ []) < 2 ^ 64" using embedded_shorter [OF nl] lel by simp
      ultimately show "?dn None (penc kec t @ []) = Ok (shallow kec gen None t)"
        using PShort.IH c by blast
    qed (use c in simp)
    with False ss show ?thesis
      by (simp add: decodeShort_def compactToHex_compact [OF sk] shallow_inner)
  qed
  have "penc kec (PShort k t) @ rest \<noteq> []" using length_rlp_list [of ?elems] e by auto
  with f sp cv sh show ?case by simp
next
  case (PFull cs)
  then obtain f where f: "fuel = Suc f" by (cases fuel) auto
  let ?dn = "\<lambda>h b. decodeNode_fuel f h b gen"
  let ?elems = "concat (map (\<lambda>t. enc_rval (pref kec t)) cs)"
  have e: "penc kec (PFull cs) = rlp_list ?elems" by (rule penc_inner)
  have len: "length cs = 17" and ok: "list_all (\<lambda>c. c = PNil \<or> canon c) (take 16 cs)"
    and l16: "cs ! 16 = PNil \<or> is_val (cs ! 16)" using PFull.prems(1) by auto
  have cs: "cs = take 16 cs @ [cs ! 16]"
    using len id_take_nth_drop [of 16 cs] by simp
  let ?last = "enc_rval (pref kec (cs ! 16))"
  have el: "?elems = concat (map (\<lambda>t. enc_rval (pref kec t)) (take 16 cs)) @ ?last"
    by (subst cs) simp
  have lel: "length ?elems < 2 ^ 64" using PFull.prems(2) length_rlp_list [of ?elems] e by simp
  have "CountValues (concat (map enc_rval (map (pref kec) cs))) = Ok (length (map (pref kec) cs))"
    using lel by (intro CountValues_simple) (simp_all add: list_all_iff simple_pref comp_def)
  then have cv: "CountValues ?elems = Ok 17" using len by (simp add: comp_def)
  have sp: "SplitList (penc kec (PFull cs) @ rest) = Ok (?elems, rest)"
    using SplitList_rlp_list [of ?elems rest] PFull.prems(2) unfolding e by blast
  have "decodeFull_loop ?dn (length (take 16 cs)) (concat (map (\<lambda>t. enc_rval (pref kec t)) (take 16 cs)) @ ?last) =
      Ok (map (shallow_ref kec gen) (take 16 cs), ?last)"
  proof (rule decodeFull_loop_pref [OF kl ok])
    show "length (concat (map (\<lambda>t. enc_rval (pref kec t)) (take 16 cs)) @ ?last) < 2 ^ 64" using lel el by simp
    fix t r
    assume t: "t \<in> set (take 16 cs)" "\<not> large kec t" "canon t" "length (penc kec t @ r) < 2 ^ 64"
    have "t \<in> set cs" using t(1) by (rule in_set_takeD)
    moreover have "length (penc kec t) < f"
      using length_concat_enc [of t cs "\<lambda>t. enc_rval (pref kec t)"] \<open>t \<in> set cs\<close> embedded_shorter [OF t(2)]
        length_rlp_list [of ?elems] e PFull.prems(3) f by simp
    ultimately show "?dn None (penc kec t @ r) = Ok (shallow kec gen None t)"
      using PFull.IH t by blast
  qed
  then have lp: "decodeFull_loop ?dn 16 ?elems = Ok (map (shallow_ref kec gen) (take 16 cs), ?last)"
    using el len by simp
  obtain v where v: "?last = rlp_str v" "shallow_ref kec gen (cs ! 16) = (if length v > 0 then ValueN v else NilN)"
    using l16 by (auto simp: pref_def large_def shallow_ref_def elim!: is_val_cases)
  have "SplitString ?last = Ok (v, [])" using SplitString_rlp_str [of v "[]"] lel el v by simp
  moreover have "map (shallow_ref kec gen) cs = map (shallow_ref kec gen) (take 16 cs) @ [shallow_ref kec gen (cs ! 16)]"
    by (subst cs) simp
  ultimately have sh: "decodeFull ?dn h ?elems gen = Ok (shallow kec gen h (PFull cs))"
    using lp v(2) by (simp add: decodeFull_def shallow_inner)
  have "penc kec (PFull cs) @ rest \<noteq> []" using length_rlp_list [of ?elems] e by auto
  with f sp cv sh show ?case by simp
qed simp_all


section \<open>Stored trees and valid caches\<close>

text \<open>
  \<open>below kec d t\<close>: every large subtree below \<open>t\<close> is in the database under its hash; \<open>stored\<close>: \<open>t\<close> itself is too.
  \<open>linked\<close>: a node that expands to its tree, with every cached hash the right one, every clean cached
  hash stored, and no hash on a small child.
\<close>

fun below :: "(bytes \<Rightarrow> bytes) \<Rightarrow> db \<Rightarrow> ptree \<Rightarrow> bool" where
  "below kec d (PShort k t) \<longleftrightarrow> below kec d t \<and> (large kec t \<longrightarrow> d (kec (penc kec t)) = Some (penc kec t))"
| "below kec d (PFull cs) \<longleftrightarrow>
     list_all (\<lambda>t. below kec d t \<and> (large kec t \<longrightarrow> d (kec (penc kec t)) = Some (penc kec t))) cs"
| "below kec d _ = True"

definition stored :: "(bytes \<Rightarrow> bytes) \<Rightarrow> db \<Rightarrow> ptree \<Rightarrow> bool" where
  "stored kec d t \<longleftrightarrow> below kec d t \<and> d (kec (penc kec t)) = Some (penc kec t)"

definition cacheF :: "(bytes \<Rightarrow> bytes) \<Rightarrow> db \<Rightarrow> nodeFlag \<Rightarrow> ptree \<Rightarrow> bool" where
  "cacheF kec d fl t \<longleftrightarrow>
     (case nf_hash fl of
        None \<Rightarrow> \<not> nf_dirty fl \<longrightarrow> \<not> large kec t
      | Some h \<Rightarrow> h = kec (penc kec t) \<and> (\<not> nf_dirty fl \<longrightarrow> stored kec d t))"

definition cacheR :: "(bytes \<Rightarrow> bytes) \<Rightarrow> db \<Rightarrow> bytes \<Rightarrow> ptree \<Rightarrow> bool" where
  "cacheR kec d h t \<longleftrightarrow> h = kec (penc kec t) \<and> stored kec d t"

definition linked :: "(bytes \<Rightarrow> bytes) \<Rightarrow> db \<Rightarrow> node \<Rightarrow> ptree \<Rightarrow> bool" where
  "linked kec d = expands (cacheF kec d) (cacheR kec d) (large kec) d"

lemma cacheF_new: "cacheF kec d (newFlag gen) t"
  by (simp add: cacheF_def newFlag_def)

interpretation lnk: cache_inv "cacheF kec d" "cacheR kec d" "large kec" for kec d
  by unfold_locales (auto simp: cacheF_def newFlag_def split: option.splits)

lemma below_mono: "d \<subseteq>\<^sub>m d' \<Longrightarrow> below kec d t \<Longrightarrow> below kec d' t"
  by (induction t) (auto simp: list_all_iff map_le_def dom_def)

lemma stored_mono: "d \<subseteq>\<^sub>m d' \<Longrightarrow> stored kec d t \<Longrightarrow> stored kec d' t"
  using below_mono by (fastforce simp: stored_def map_le_def dom_def)

lemma cacheF_mono: "d \<subseteq>\<^sub>m d' \<Longrightarrow> cacheF kec d fl t \<Longrightarrow> cacheF kec d' fl t"
  using stored_mono by (auto simp: cacheF_def split: option.splits)

lemma resolveHash_mono:
  "d \<subseteq>\<^sub>m d' \<Longrightarrow> resolveHash d gen h p = Ok n \<Longrightarrow> resolveHash d' gen h p = Ok n"
  by (cases "d h") (auto simp: resolveHash_def map_le_def dom_def split: option.splits)

lemma linked_mono:
  assumes le: "d \<subseteq>\<^sub>m d'"
  shows "linked kec d n t \<Longrightarrow> linked kec d' n t"
  unfolding linked_def
proof (induction rule: expands.induct)
  case (expands_Full cs ts fl)
  then show ?case using cacheF_mono [OF le] by (auto elim: list_all2_mono)
next
  case (expands_Hash h t)
  then show ?case
    using resolveHash_mono [OF le] stored_mono [OF le]
    by (intro expands.expands_Hash) (auto simp: cacheR_def, blast+)
qed (auto intro: cacheF_mono [OF le])

lemma resolveHash_stored:
  assumes kl: "\<And>x. length (kec x) = 32"
    and "stored kec d t" "canon t" "fits kec t"
  shows "resolveHash d gen (kec (penc kec t)) p = Ok (shallow kec gen (Some (kec (penc kec t))) t)"
  using decodeNode_penc [where kec = kec and rest = "[]", OF kl assms(3)] fits_length [OF assms(4)] assms(2)
  by (simp add: resolveHash_def stored_def mustDecodeNode_def decodeNode_def del: decodeNode_fuel.simps)

lemma is_hash_shallow: "\<not> has_hash (shallow kec gen None t)"
  by (cases t) (simp_all add: shallow_inner)

lemma fits_child: "fits kec (PFull cs) \<Longrightarrow> t \<in> set cs \<Longrightarrow> fits kec t"
  by (simp add: list_all_iff)

text \<open>A child as decoding returns it.\<close>

lemma shallow_ref_linked:
  assumes kl: "\<And>x. length (kec x) = 32"
    and t: "t = PNil \<or> is_val t \<or> canon t" and f: "fits kec t"
    and b: "below kec d t" "large kec t \<longrightarrow> d (kec (penc kec t)) = Some (penc kec t)"
    and IH: "\<And>gen h. canon t \<Longrightarrow> cacheF kec d \<lparr>nf_hash = h, nf_gen = gen, nf_dirty = False\<rparr> t \<Longrightarrow>
      linked kec d (shallow kec gen h t) t"
  shows "linked kec d (shallow_ref kec gen t) t \<and> (has_hash (shallow_ref kec gen t) \<longrightarrow> large kec t)"
proof (cases "large kec t")
  case True
  then have c: "canon t" using t by (auto simp: large_def elim: is_val_cases)
  have st: "stored kec d t" using b True by (simp add: stored_def)
  have "linked kec d (shallow kec g (Some (kec (penc kec t))) t) t" for g
    using IH [OF c] st by (simp add: cacheF_def)
  then have "linked kec d (HashN (kec (penc kec t))) t"
    unfolding linked_def using resolveHash_stored [where kec = kec, OF kl st c f] st
    by (intro expands.expands_Hash) (auto simp: cacheR_def)
  with True show ?thesis by (simp add: shallow_ref_def)
next
  case False
  have "linked kec d (shallow kec gen None t) t"
    using t IH False by (auto simp: cacheF_def linked_def elim!: is_val_cases)
  with False show ?thesis by (simp add: shallow_ref_def is_hash_shallow)
qed

lemma shallow_linked:
  assumes kl: "\<And>x. length (kec x) = 32"
  shows "canon t \<Longrightarrow> fits kec t \<Longrightarrow> below kec d t \<Longrightarrow>
    cacheF kec d \<lparr>nf_hash = h, nf_gen = gen, nf_dirty = False\<rparr> t \<Longrightarrow> linked kec d (shallow kec gen h t) t"
proof (induction t arbitrary: gen h)
  case (PShort k t)
  then have "is_val t \<or> canon t" "fits kec t" "below kec d t"
    "large kec t \<longrightarrow> d (kec (penc kec t)) = Some (penc kec t)" by auto
  with shallow_ref_linked [where kec = kec and t = t and d = d and gen = gen, OF kl] PShort.IH PShort.prems(4) show ?case
    by (auto simp: shallow_inner linked_def)
next
  case (PFull cs)
  have "linked kec d (shallow_ref kec gen t) t \<and> (has_hash (shallow_ref kec gen t) \<longrightarrow> large kec t)"
    if t: "t \<in> set cs" for t
  proof (rule shallow_ref_linked [where kec = kec, OF kl])
    show "t = PNil \<or> is_val t \<or> canon t"
    proof -
      from t obtain i where i: "i < 17" "t = cs ! i" using PFull.prems(1) by (auto simp: in_set_conv_nth)
      then have "child_ok i t" using PFull.prems(1) canon_PFull_iff by blast
      then show ?thesis by (auto simp: child_ok_def split: if_splits)
    qed
    show "fits kec t" using PFull.prems(2) t by (rule fits_child)
    show "below kec d t" "large kec t \<longrightarrow> d (kec (penc kec t)) = Some (penc kec t)"
      using PFull.prems(3) t by (auto simp: list_all_iff)
    then show "linked kec d (shallow kec gen h t) t"
      if "canon t" "cacheF kec d \<lparr>nf_hash = h, nf_gen = gen, nf_dirty = False\<rparr> t" for gen h
      using PFull.IH [OF t] that fits_child [OF PFull.prems(2) t] by blast
  qed
  then have "list_all2 (\<lambda>n t. linked kec d n t \<and> (has_hash n \<longrightarrow> large kec t)) (map (shallow_ref kec gen) cs) cs"
    by (auto simp: list_all2_conv_all_nth)
  with PFull.prems(4) show ?case by (auto simp: shallow_inner linked_def)
qed simp_all

lemma HashN_linked:
  assumes kl: "\<And>x. length (kec x) = 32" and "stored kec d t" "canon t" "fits kec t"
  shows "linked kec d (HashN (kec (penc kec t))) t"
proof -
  have "linked kec d (shallow kec g (Some (kec (penc kec t))) t) t" for g
    using shallow_linked [where kec = kec, OF kl assms(3,4)] assms(2) by (simp add: stored_def cacheF_def)
  then show ?thesis
    unfolding linked_def using resolveHash_stored [where kec = kec, OF kl assms(2-4)] assms(2)
    by (intro expands.expands_Hash) (auto simp: cacheR_def)
qed

section \<open>Hashing computes the reference and stores it\<close>

declare hasher_hash.simps [simp del]

fun encs :: "(bytes \<Rightarrow> bytes) \<Rightarrow> ptree \<Rightarrow> bytes set" where
  "encs kec (PShort k t) = insert (penc kec (PShort k t)) (encs kec t)"
| "encs kec (PFull cs) = insert (penc kec (PFull cs)) (\<Union>t\<in>set cs. encs kec t)"
| "encs kec _ = {}"

text \<open>No collisions among the encodings \<open>S\<close>, nor between them and what the database holds.\<close>

definition collision_free :: "(bytes \<Rightarrow> bytes) \<Rightarrow> bytes set \<Rightarrow> db \<Rightarrow> bool" where
  "collision_free kec S d \<longleftrightarrow> inj_on kec S \<and> (\<forall>e\<in>S. \<forall>e'. d (kec e) = Some e' \<longrightarrow> e' = e)"

lemma collision_free_put:
  assumes "collision_free kec S d" "e \<in> S"
  shows "collision_free kec S (d(kec e \<mapsto> e))" and "d \<subseteq>\<^sub>m d(kec e \<mapsto> e)"
  using assms by (auto simp: collision_free_def map_le_def inj_on_def dom_def)

fun root_ok :: "node \<Rightarrow> bool" where
  "root_ok (ShortN _ _ fl) = (nf_hash fl = None \<longrightarrow> nf_dirty fl)"
| "root_ok (FullN _ fl) = (nf_hash fl = None \<longrightarrow> nf_dirty fl)"
| "root_ok _ = True"

lemma simple_nonneg: "simple v \<Longrightarrow> rval_nonneg v"
  by (induction v rule: simple.induct) (auto simp: list_all_iff)

lemma rlp_Encode_simple:
  assumes "simple v" "length (enc_rval v) < 2 ^ 64"
  shows "\<exists>ws. rlp_Encode v = Ok ws \<and> concat ws = enc_rval v"
proof -
  from write_val_wrote(1) [OF simple_nonneg [OF assms(1)] assms(2)] obtain w
    where "write_val v encbuf_reset = Ok w" "wrote encbuf_reset w (enc_rval v)" by blast
  then show ?thesis by (auto simp: rlp_Encode_def wrote_reset)
qed

text \<open>The flags of an inner node, and the node with other flags.\<close>

fun node_flags :: "node \<Rightarrow> nodeFlag option" where
  "node_flags (ShortN _ _ fl) = Some fl"
| "node_flags (FullN _ fl) = Some fl"
| "node_flags _ = None"

fun with_flags :: "nodeFlag \<Rightarrow> node \<Rightarrow> node" where
  "with_flags fl (ShortN k v _) = ShortN k v fl"
| "with_flags fl (FullN cs _) = FullN cs fl"
| "with_flags fl n = n"

definition hash_value :: "(bytes \<Rightarrow> bytes) \<Rightarrow> ptree \<Rightarrow> bool \<Rightarrow> node \<Rightarrow> bool" where
  "hash_value kec t force hashed \<longleftrightarrow>
     (if force \<or> large kec t then hashed = HashN (kec (penc kec t))
      else node_rval hashed = pval kec t \<and> (\<forall>h. hashed \<noteq> HashN h) \<and> hashed \<noteq> NilN)"

definition saved :: "(bytes \<Rightarrow> bytes) \<Rightarrow> db \<Rightarrow> bool \<Rightarrow> ptree \<Rightarrow> bool" where
  "saved kec d force t \<longleftrightarrow> below kec d t \<and> (force \<or> large kec t \<longrightarrow> d (kec (penc kec t)) = Some (penc kec t))"

context kv_store
begin

text \<open>The database as the trie reads it: the writer's, or \<open>D\<close> when there is no writer.\<close>

definition view :: "db \<Rightarrow> 'd option \<Rightarrow> db" where
  "view D db = (case db of None \<Rightarrow> D | Some d \<Rightarrow> get d)"

text \<open>Only a writer needs the absence of collisions.\<close>

definition no_clash :: "(bytes \<Rightarrow> bytes) \<Rightarrow> bytes set \<Rightarrow> db \<Rightarrow> 'd option \<Rightarrow> bool" where
  "no_clash kec S D db \<longleftrightarrow> (db \<noteq> None \<longrightarrow> collision_free kec S (view D db))"

definition grows :: "(bytes \<Rightarrow> bytes) \<Rightarrow> bytes set \<Rightarrow> db \<Rightarrow> 'd option \<Rightarrow> 'd option \<Rightarrow> bool" where
  "grows kec S D db db' \<longleftrightarrow>
     (db' = None \<longleftrightarrow> db = None) \<and> view D db \<subseteq>\<^sub>m view D db' \<and> no_clash kec S D db'"

definition hash_ok :: "(bytes \<Rightarrow> bytes) \<Rightarrow> bytes set \<Rightarrow> db \<Rightarrow> 'd option \<Rightarrow> ptree \<Rightarrow> bool
    \<Rightarrow> ('e, node \<times> node \<times> 'd option) res \<Rightarrow> bool" where
  "hash_ok kec S D db t force r \<longleftrightarrow>
     (\<exists>hashed cached db'. r = Ok (hashed, cached, db') \<and> grows kec S D db db'
        \<and> hash_value kec t force hashed
        \<and> linked kec (view D db') cached t \<and> (has_hash cached \<longrightarrow> force \<or> large kec t) \<and> (force \<longrightarrow> root_ok cached)
        \<and> (db \<noteq> None \<longrightarrow> saved kec (view D db') force t))"

text \<open>What \<open>hashChildren\<close> returns for an inner node with flags \<open>fl\<close>.\<close>

definition children_ok :: "(bytes \<Rightarrow> bytes) \<Rightarrow> bytes set \<Rightarrow> db \<Rightarrow> 'd option \<Rightarrow> ptree \<Rightarrow> nodeFlag
    \<Rightarrow> ('e, node \<times> node \<times> 'd option) res \<Rightarrow> bool" where
  "children_ok kec S D db t fl r \<longleftrightarrow>
     (\<exists>collapsed cached db'. r = Ok (collapsed, cached, db') \<and> grows kec S D db db'
        \<and> node_rval collapsed = pval kec t \<and> node_flags collapsed = Some fl \<and> node_flags cached = Some fl
        \<and> (\<forall>fl' d. view D db' \<subseteq>\<^sub>m d \<longrightarrow> cacheF kec d fl' t \<longrightarrow> linked kec d (with_flags fl' cached) t)
        \<and> (db \<noteq> None \<longrightarrow> below kec (view D db') t))"

lemma grows_refl: "no_clash kec S D db \<Longrightarrow> grows kec S D db db"
  by (simp add: grows_def)

lemma grows_trans: "grows kec S D db db1 \<Longrightarrow> grows kec S D db1 db2 \<Longrightarrow> grows kec S D db db2"
  unfolding grows_def using map_le_trans by blast

lemma grows_linked: "grows kec S D db db1 \<Longrightarrow> linked kec (view D db) n t \<Longrightarrow> linked kec (view D db1) n t"
  unfolding grows_def using linked_mono by blast

lemma grows_saved: "grows kec S D db db1 \<Longrightarrow> saved kec (view D db) force t \<Longrightarrow> saved kec (view D db1) force t"
  unfolding grows_def saved_def using below_mono by (fastforce simp: map_le_def dom_def)

lemma hasher_store_step:
  assumes n: "node_rval n = pval kec t" "node_flags n = Some fl" and t: "inner t" "fits kec t"
    and h: "\<And>h. nf_hash fl = Some h \<Longrightarrow> h = kec (penc kec t)"
    and S: "no_clash kec S D db" "penc kec t \<in> S"
  shows "\<exists>hashed db'. hasher_store kec put n db force = Ok (hashed, db') \<and> grows kec S D db db'
    \<and> hash_value kec t force hashed
    \<and> (db \<noteq> None \<longrightarrow> force \<or> large kec t \<longrightarrow> view D db' (kec (penc kec t)) = Some (penc kec t))"
proof -
  from rlp_Encode_simple [OF simple_pval, of kec t] fits_length [OF t(2)] obtain ws
    where ws: "rlp_Encode (node_rval n) = Ok ws" "concat ws = penc kec t" by (auto simp: n(1) penc_def)
  have lg: "large kec t \<longleftrightarrow> \<not> length (penc kec t) < 32" using t(1) by (auto simp: large_def)
  have k: "(case fst (node_cache n) of None \<Rightarrow> kec (penc kec t) | Some h \<Rightarrow> h) = kec (penc kec t)"
    using n(2) h by (cases n) (auto split: option.split)
  have eq: "hasher_store kec put n db force = (if large kec t \<or> force
      then case db of None \<Rightarrow> Ok (HashN (kec (penc kec t)), None)
        | Some d \<Rightarrow> res_map (\<lambda>d'. (HashN (kec (penc kec t)), Some d')) (put d (kec (penc kec t)) (penc kec t))
      else Ok (n, db))"
    using n(2) ws lg k by (cases n) (simp_all add: hasher_store_def Let_def)
  show ?thesis
  proof (cases "large kec t \<or> force")
    case False
    with eq n S(1) show ?thesis by (cases n) (auto simp: hash_value_def grows_refl)
  next
    case True
    show ?thesis
    proof (cases db)
      case None
      with eq True S(1) show ?thesis by (auto simp: hash_value_def grows_refl)
    next
      case (Some d)
      from put_get [of d "kec (penc kec t)" "penc kec t"] obtain d'
        where "put d (kec (penc kec t)) (penc kec t) = Ok d'" "get d' = (get d)(kec (penc kec t) \<mapsto> penc kec t)" by blast
      with Some eq True collision_free_put [of kec S "get d", OF _ S(2)] S(1) show ?thesis
        by (auto simp: hash_value_def grows_def no_clash_def view_def fun_upd_same simp del: fun_upd_apply)
    qed
  qed
qed

lemma hash_node:
  assumes kl: "\<And>x. length (kec x) = 32"
    and n: "linked kec (view D db) n t" "node_flags n = Some fl" and t: "canon t" "fits kec t"
    and S: "no_clash kec S D db" "penc kec t \<in> S"
    and hh: "has_hash n \<longrightarrow> force \<or> large kec t" and ro: "force \<longrightarrow> root_ok n"
    and ch: "children_ok kec S D db t fl (hashChildren kec put gen limit n db)"
  shows "hash_ok kec S D db t force (hasher_hash kec put gen limit n db force)"
proof -
  have it: "inner t" using t(1) by (rule inner_canon)
  have F: "cacheF kec (view D db) fl t" using n by (cases n) (auto simp: linked_def)
  have hfl: "h = kec (penc kec t)" if "nf_hash fl = Some h" for h using F that by (simp add: cacheF_def)
  have nc: "node_cache n = (nf_hash fl, nf_dirty fl)" "n \<noteq> NilN" "has_hash n \<longleftrightarrow> nf_hash fl \<noteq> None"
    "root_ok n \<longleftrightarrow> (nf_hash fl = None \<longrightarrow> nf_dirty fl)" using n(2) by (cases n; auto)+
  have early: "hash_ok kec S D db t force (Ok (HashN h, m, db))"
    if h: "nf_hash fl = Some h" and m: "m = n \<or> m = HashN h" and st: "db = None \<or> stored kec (view D db) t"
      and mh: "m = HashN h \<longrightarrow> db \<noteq> None" for h m
  proof -
    have fl: "force \<or> large kec t" using hh nc h by auto
    have "linked kec (view D db) m t"
      using m n(1) st mh HashN_linked [where kec = kec, OF kl _ t, of "view D db"] hfl [OF h] by auto
    moreover have "root_ok m" using m nc h by auto
    ultimately show ?thesis
      using fl st hfl [OF h] S(1) by (auto simp: hash_ok_def hash_value_def grows_refl saved_def stored_def)
  qed
  have go: "hash_ok kec S D db t force (res_bind (hashChildren kec put gen limit n db) (\<lambda>(collapsed, cached, db').
      res_map (\<lambda>(hashed, db''). (hashed, set_cached hashed cached (db \<noteq> None), db''))
        (hasher_store kec put collapsed db' force)))"
    if "nf_hash fl = None \<or> db \<noteq> None"
  proof -
    from ch obtain co ca db1 where c: "hashChildren kec put gen limit n db = Ok (co, ca, db1)"
      "grows kec S D db db1" "node_rval co = pval kec t" "node_flags co = Some fl" "node_flags ca = Some fl"
      "\<And>fl' d. view D db1 \<subseteq>\<^sub>m d \<Longrightarrow> cacheF kec d fl' t \<Longrightarrow> linked kec d (with_flags fl' ca) t"
      "db \<noteq> None \<longrightarrow> below kec (view D db1) t" unfolding children_ok_def by blast
    have "no_clash kec S D db1" using c(2) by (simp add: grows_def)
    from hasher_store_step [OF c(3,4) it t(2) hfl this S(2)] obtain hashed db2
      where s: "hasher_store kec put co db1 force = Ok (hashed, db2)" "grows kec S D db1 db2"
        "hash_value kec t force hashed"
        "db1 \<noteq> None \<longrightarrow> force \<or> large kec t \<longrightarrow> view D db2 (kec (penc kec t)) = Some (penc kec t)" by blast
    have d: "db1 \<noteq> None \<longleftrightarrow> db \<noteq> None" using c(2) by (auto simp: grows_def)
    define ch where "ch = (case hashed of HashN h \<Rightarrow> Some h | _ \<Rightarrow> None)"
    define fl' where "fl' = fl\<lparr>nf_hash := ch, nf_dirty := (if db \<noteq> None then False else nf_dirty fl)\<rparr>"
    have sc: "set_cached hashed ca (db \<noteq> None) = with_flags fl' ca" "node_flags (with_flags fl' ca) = Some fl'"
      using c(5) by (cases ca; simp add: set_cached_def fl'_def ch_def Let_def)+
    have chv: "ch = (if force \<or> large kec t then Some (kec (penc kec t)) else None)"
      using s(3) by (auto simp: hash_value_def ch_def split: node.splits if_splits)
    have sv: "db \<noteq> None \<longrightarrow> saved kec (view D db2) force t"
      using c(7) s(2,4) d below_mono [of "view D db1" "view D db2"] by (auto simp: saved_def grows_def)
    have "cacheF kec (view D db2) fl' t"
      using F that sv ro nc(4) by (auto simp: cacheF_def fl'_def chv saved_def stored_def split: option.splits)
    then have "linked kec (view D db2) (with_flags fl' ca) t" using c(6) s(2) by (auto simp: grows_def)
    moreover have "has_hash (with_flags fl' ca) \<longleftrightarrow> ch \<noteq> None" "root_ok (with_flags fl' ca) \<longleftrightarrow> (ch = None \<longrightarrow> nf_dirty fl')"
      using sc(2) by (cases ca; auto simp: fl'_def)+
    ultimately show ?thesis
      using c(1) s sc(1) grows_trans [OF c(2) s(2)] sv chv by (auto simp: hash_ok_def)
  qed
  show ?thesis
  proof (cases "nf_hash fl")
    case None
    with go nc show ?thesis by (auto simp: hasher_hash.simps Let_def simp del: hashChildren.simps)
  next
    case (Some h)
    have nn: "n \<noteq> HashN h" using n(2) by auto
    have u: "node_canUnload n gen limit \<Longrightarrow> \<not> nf_dirty fl" using n(2) by (cases n) (auto simp: nodeFlag_canUnload_def)
    have st: "stored kec (view D db) t" if "\<not> nf_dirty fl" using F Some that by (simp add: cacheF_def)
    consider "db = None" | "db \<noteq> None" "node_canUnload n gen limit" | "db \<noteq> None" "\<not> node_canUnload n gen limit" "\<not> nf_dirty fl"
      | "db \<noteq> None" "\<not> node_canUnload n gen limit" "nf_dirty fl" by blast
    then show ?thesis
    proof cases
      case 1
      with nn early [OF Some, of n] nc Some show ?thesis by (auto simp: hasher_hash.simps Let_def simp del: hashChildren.simps)
    next
      case 2
      with early [OF Some, of "HashN h"] st u nc Some show ?thesis by (auto simp: hasher_hash.simps Let_def simp del: hashChildren.simps)
    next
      case 3
      with nn 3 early [OF Some, of n] st nc Some show ?thesis by (auto simp: hasher_hash.simps Let_def simp del: hashChildren.simps)
    next
      case 4
      with go nc Some show ?thesis by (auto simp: hasher_hash.simps Let_def simp del: hashChildren.simps)
    qed
  qed
qed

lemma hash_HashN:
  assumes "linked kec (view D db) (HashN h) t" "force \<or> large kec t" "no_clash kec S D db"
  shows "hash_ok kec S D db t force (hasher_hash kec put gen limit (HashN h) db force)"
proof -
  from assms(1) have "h = kec (penc kec t)" "stored kec (view D db) t"
    unfolding linked_def by (auto simp: cacheR_def elim: expands_HashE)
  with assms show ?thesis
    by (auto simp: hash_ok_def hash_value_def grows_refl hasher_hash.simps hasher_store_def set_cached_def Let_def saved_def stored_def)
qed

lemma hash_value_pref: "hash_value kec t False hashed \<Longrightarrow> node_rval hashed = pref kec t \<and> hashed \<noteq> NilN"
  by (auto simp: hash_value_def pref_def split: if_splits)

definition hash_spec :: "(bytes \<Rightarrow> bytes) \<Rightarrow> bytes set \<Rightarrow> db \<Rightarrow> u16 \<Rightarrow> u16 \<Rightarrow> ptree \<Rightarrow> bool" where
  "hash_spec kec S D gen limit t \<longleftrightarrow>
     (\<forall>n db force. linked kec (view D db) n t \<longrightarrow> canon t \<longrightarrow> fits kec t \<longrightarrow> encs kec t \<subseteq> S
       \<longrightarrow> no_clash kec S D db \<longrightarrow> (has_hash n \<longrightarrow> force \<or> large kec t) \<longrightarrow> (force \<longrightarrow> root_ok n)
       \<longrightarrow> hash_ok kec S D db t force (hasher_hash kec put gen limit n db force))"

lemma hash_specD:
  "hash_spec kec S D gen limit t \<Longrightarrow> linked kec (view D db) n t \<Longrightarrow> canon t \<Longrightarrow> fits kec t \<Longrightarrow> encs kec t \<subseteq> S \<Longrightarrow>
    no_clash kec S D db \<Longrightarrow> (has_hash n \<longrightarrow> force \<or> large kec t) \<Longrightarrow> (force \<longrightarrow> root_ok n) \<Longrightarrow>
    hash_ok kec S D db t force (hasher_hash kec put gen limit n db force)"
  by (simp add: hash_spec_def)

lemma hashChildren_Short:
  assumes IH: "hash_spec kec S D gen limit t"
    and c: "linked kec (view D db) c t" "has_hash c \<longrightarrow> large kec t" and t: "is_val t \<or> canon t" "fits kec t" "encs kec t \<subseteq> S"
    and S: "no_clash kec S D db"
  shows "children_ok kec S D db (PShort k t) fl (hashChildren kec put gen limit (ShortN k c fl) db)"
proof (cases "is_val t")
  case True
  then obtain v where v: "t = PVal v" by (elim is_val_cases)
  with c(1) have "c = ValueN v" unfolding linked_def by (cases c) (auto dest: lnk.expands_Hash_inner)
  with v S show ?thesis
    by (simp add: children_ok_def hexToCompact_compact grows_refl pval_inner pref_def large_def linked_def)
next
  case False
  with t have ct: "canon t" by simp
  then have "c \<noteq> NilN" "\<forall>v. c \<noteq> ValueN v" using c(1) by (auto simp: linked_def)
  then have eq: "hashChildren kec put gen limit (ShortN k c fl) db =
      res_map (\<lambda>(collapsedVal, cachedVal, db').
           (ShortN (compact k) (if collapsedVal = NilN then ValueN [] else collapsedVal) fl, ShortN k cachedVal fl, db'))
         (hasher_hash kec put gen limit c db False)"
    by (cases c) (simp_all add: hexToCompact_compact)
  have "hash_ok kec S D db t False (hasher_hash kec put gen limit c db False)"
    by (rule hash_specD [OF IH c(1) ct t(2,3) S]) (use c(2) in simp_all)
  then obtain hd ca db' where r: "hasher_hash kec put gen limit c db False = Ok (hd, ca, db')" "grows kec S D db db'"
    "hash_value kec t False hd" "linked kec (view D db') ca t" "has_hash ca \<longrightarrow> large kec t"
    "db \<noteq> None \<longrightarrow> saved kec (view D db') False t" unfolding hash_ok_def by auto
  have "linked kec d ca t" if "view D db' \<subseteq>\<^sub>m d" for d using linked_mono [OF that] r(4) by blast
  moreover have "hashChildren kec put gen limit (ShortN k c fl) db = Ok (ShortN (compact k) hd fl, ShortN k ca fl, db')"
    unfolding eq r(1) using hash_value_pref [OF r(3)] by simp
  ultimately show ?thesis
    using r(2,5,6) hash_value_pref [OF r(3)]
    by (auto simp: children_ok_def pval_inner saved_def linked_def simp del: hashChildren.simps)
qed

lemma hashChildren_loop_ok:
  assumes "list_all2 (\<lambda>n t. linked kec (view D db) n t \<and> (has_hash n \<longrightarrow> large kec t)) cs ts" "i \<le> length cs"
    and "\<And>t. t \<in> set (take i ts) \<Longrightarrow> hash_spec kec S D gen limit t \<and> (t = PNil \<or> canon t) \<and> fits kec t \<and> encs kec t \<subseteq> S"
    and "no_clash kec S D db"
  shows "\<exists>cos cas db'. hashChildren_loop kec put gen limit i cs db = Ok (cos, cas, db') \<and> grows kec S D db db'
    \<and> map node_rval cos = map (pref kec) (take i ts)
    \<and> (\<forall>d. view D db' \<subseteq>\<^sub>m d \<longrightarrow> list_all2 (\<lambda>n t. linked kec d n t \<and> (has_hash n \<longrightarrow> large kec t)) cas (take i ts))
    \<and> (db \<noteq> None \<longrightarrow> list_all (saved kec (view D db') False) (take i ts))"
  using assms
proof (induction i arbitrary: cs ts db)
  case 0
  then show ?case by (simp add: grows_refl)
next
  case (Suc i)
  then obtain c cs' t ts' where e: "cs = c # cs'" "ts = t # ts'" by (cases cs; cases ts) auto
  have t: "hash_spec kec S D gen limit t" "t = PNil \<or> canon t" "fits kec t" "encs kec t \<subseteq> S"
    and c: "linked kec (view D db) c t" "has_hash c \<longrightarrow> large kec t" using Suc.prems(1,3) e by auto
  define step where "step = (if c \<noteq> NilN then hasher_hash kec put gen limit c db False else Ok (ValueN [], NilN, db))"
  have "\<exists>co ca db1. step = Ok (co, ca, db1) \<and> grows kec S D db db1 \<and> node_rval co = pref kec t
    \<and> linked kec (view D db1) ca t \<and> (has_hash ca \<longrightarrow> large kec t) \<and> (db \<noteq> None \<longrightarrow> saved kec (view D db1) False t)"
  proof (cases "t = PNil")
    case True
    then have "c = NilN" using c(1) unfolding linked_def using lnk.expands_PNil_iff by blast
    with True Suc.prems(4) show ?thesis
      by (simp add: step_def grows_refl pref_def large_def linked_def saved_def)
  next
    case False
    with t(2) have ct: "canon t" by simp
    have "c \<noteq> NilN" using c(1) False by (auto simp: linked_def)
    moreover have "hash_ok kec S D db t False (hasher_hash kec put gen limit c db False)"
      by (rule hash_specD [OF t(1) c(1) ct t(3,4) Suc.prems(4)]) (use c(2) in simp_all)
    ultimately show ?thesis unfolding step_def hash_ok_def using hash_value_pref by fastforce
  qed
  then obtain co ca db1 where s: "step = Ok (co, ca, db1)" "grows kec S D db db1" "node_rval co = pref kec t"
    "linked kec (view D db1) ca t" "has_hash ca \<longrightarrow> large kec t" "db \<noteq> None \<longrightarrow> saved kec (view D db1) False t" by blast
  have "list_all2 (\<lambda>n t. linked kec (view D db1) n t \<and> (has_hash n \<longrightarrow> large kec t)) cs' ts'"
    using Suc.prems(1) grows_linked [OF s(2)] e by (auto elim: list_all2_mono)
  from Suc.IH [OF this] Suc.prems(2,3) s(2) e obtain cos cas db2
    where l: "hashChildren_loop kec put gen limit i cs' db1 = Ok (cos, cas, db2)" "grows kec S D db1 db2"
      "map node_rval cos = map (pref kec) (take i ts')"
      "\<And>d. view D db2 \<subseteq>\<^sub>m d \<Longrightarrow> list_all2 (\<lambda>n t. linked kec d n t \<and> (has_hash n \<longrightarrow> large kec t)) cas (take i ts')"
      "db1 \<noteq> None \<longrightarrow> list_all (saved kec (view D db2) False) (take i ts')" by (auto simp: grows_def)
  have "hashChildren_loop kec put gen limit (Suc i) cs db = Ok (co # cos, ca # cas, db2)"
    using l(1) s(1) e by (simp add: step_def [symmetric])
  moreover have "linked kec d ca t" if "view D db2 \<subseteq>\<^sub>m d" for d
    using that l(2) s(4) linked_mono map_le_trans unfolding grows_def by blast
  moreover have "db \<noteq> None \<longrightarrow> saved kec (view D db2) False t \<and> db1 \<noteq> None"
    using s(2,6) grows_saved [OF l(2)] by (auto simp: grows_def)
  ultimately show ?case
    using l s(3,5) e grows_trans [OF s(2) l(2)] by auto
qed

lemma canon_child: "canon (PFull ts) \<Longrightarrow> t \<in> set (take 16 ts) \<Longrightarrow> t = PNil \<or> canon t"
  by (auto simp: list_all_iff)

lemma hashChildren_Full:
  assumes IH: "\<And>t. t \<in> set ts \<Longrightarrow> hash_spec kec S D gen limit t"
    and n: "linked kec (view D db) (FullN cs fl) (PFull ts)"
    and t: "canon (PFull ts)" "fits kec (PFull ts)" "encs kec (PFull ts) \<subseteq> S" and S: "no_clash kec S D db"
  shows "children_ok kec S D db (PFull ts) fl (hashChildren kec put gen limit (FullN cs fl) db)"
proof -
  from t(1) have len: "length ts = 17" and last: "ts ! 16 = PNil \<or> is_val (ts ! 16)" by auto
  have cs: "list_all2 (\<lambda>n t. linked kec (view D db) n t \<and> (has_hash n \<longrightarrow> large kec t)) cs ts"
    using n by (simp add: linked_def)
  then have lc: "length cs = 17" using len by (simp add: list_all2_lengthD)
  have ts: "ts = take 16 ts @ [ts ! 16]" using len by (metis Suc_numeral id_take_nth_drop lessI drop_all
        le_refl append_Nil2 semiring_norm(5) take_Suc_conv_app_nth take_all)
  have "hash_spec kec S D gen limit t \<and> (t = PNil \<or> canon t) \<and> fits kec t \<and> encs kec t \<subseteq> S" if u: "t \<in> set (take 16 ts)" for t
    using IH canon_child [OF t(1) u] fits_child [OF t(2)] t(3) in_set_takeD [OF u] by auto
  from hashChildren_loop_ok [OF cs _ this S, of 16] lc obtain cos cas db'
    where l: "hashChildren_loop kec put gen limit 16 cs db = Ok (cos, cas, db')" "grows kec S D db db'"
      "map node_rval cos = map (pref kec) (take 16 ts)"
      "\<And>d. view D db' \<subseteq>\<^sub>m d \<Longrightarrow> list_all2 (\<lambda>n t. linked kec d n t \<and> (has_hash n \<longrightarrow> large kec t)) cas (take 16 ts)"
      "db \<noteq> None \<longrightarrow> list_all (saved kec (view D db') False) (take 16 ts)"
    by auto
  have l16: "linked kec (view D db) (cs ! 16) (ts ! 16)" using cs lc by (auto simp: list_all2_conv_all_nth)
  have v: "\<exists>v. (if cs ! 16 = NilN then ValueN [] else cs ! 16) = ValueN v \<and> pref kec (ts ! 16) = BytesV v
    \<and> (cs ! 16 = NilN \<and> ts ! 16 = PNil \<or> cs ! 16 = ValueN v \<and> ts ! 16 = PVal v)"
    using last
  proof
    assume "ts ! 16 = PNil"
    with l16 show ?thesis unfolding linked_def
      by (cases "cs ! 16") (auto simp: pref_def large_def dest: lnk.expands_Hash_inner)
  next
    assume "is_val (ts ! 16)"
    then obtain v where "ts ! 16 = PVal v" by (elim is_val_cases)
    with l16 show ?thesis unfolding linked_def
      by (cases "cs ! 16") (auto simp: pref_def large_def dest: lnk.expands_Hash_inner)
  qed
  then obtain v where v: "(if cs ! 16 = NilN then ValueN [] else cs ! 16) = ValueN v" "pref kec (ts ! 16) = BytesV v"
    "cs ! 16 = NilN \<and> ts ! 16 = PNil \<or> cs ! 16 = ValueN v \<and> ts ! 16 = PVal v" by blast
  have "pval kec (PFull ts) = ListV (map (pref kec) (take 16 ts) @ [BytesV v])"
    by (subst ts) (simp add: pval_inner v(2) del: append_take_drop_id)
  moreover have "linked kec d (FullN (cas @ [cs ! 16]) fl') (PFull ts)"
    if "view D db' \<subseteq>\<^sub>m d" "cacheF kec d fl' (PFull ts)" for d fl'
  proof -
    have "list_all2 (\<lambda>n t. linked kec d n t \<and> (has_hash n \<longrightarrow> large kec t)) (cas @ [cs ! 16]) (take 16 ts @ [ts ! 16])"
      using l(4) [OF that(1)] v(3) by (auto simp: linked_def intro!: list_all2_appendI)
    then show ?thesis using that(2) ts by (simp add: linked_def)
  qed
  moreover have "below kec (view D db') (PFull ts)" if "db \<noteq> None"
    using l(5) that v(3) by (subst ts) (auto simp: list_all_iff saved_def large_def)
  ultimately show ?thesis
    using l v(1) by (auto simp: children_ok_def)
qed

lemma hash_correct:
  assumes kl: "\<And>x. length (kec x) = 32"
  shows "hash_spec kec S D gen limit t"
proof (induction t)
  case (PShort k t)
  show ?case unfolding hash_spec_def
  proof (intro allI impI)
    fix n db force
    assume n: "linked kec (view D db) n (PShort k t)" and t: "canon (PShort k t)" "fits kec (PShort k t)"
      "encs kec (PShort k t) \<subseteq> S" and S: "no_clash kec S D db"
      and h: "has_hash n \<longrightarrow> force \<or> large kec (PShort k t)" "force \<longrightarrow> root_ok n"
    show "hash_ok kec S D db (PShort k t) force (hasher_hash kec put gen limit n db force)"
    proof (cases n)
      case (HashN x)
      with hash_HashN n S h show ?thesis by simp
    next
      case (ShortN k' c fl)
      with n have c: "k' = k" "linked kec (view D db) c t" "has_hash c \<longrightarrow> large kec t" by (auto simp: linked_def)
      have "children_ok kec S D db (PShort k t) fl (hashChildren kec put gen limit n db)"
        unfolding ShortN c(1) by (rule hashChildren_Short [OF PShort.IH c(2,3) _ _ _ S]) (use t in auto)
      with hash_node [where kec = kec, OF kl n _ t(1,2) S _ h] ShortN t(3) show ?thesis by simp
    qed (use n in \<open>auto simp: linked_def\<close>)
  qed
next
  case (PFull ts)
  show ?case unfolding hash_spec_def
  proof (intro allI impI)
    fix n db force
    assume n: "linked kec (view D db) n (PFull ts)" and t: "canon (PFull ts)" "fits kec (PFull ts)"
      "encs kec (PFull ts) \<subseteq> S" and S: "no_clash kec S D db"
      and h: "has_hash n \<longrightarrow> force \<or> large kec (PFull ts)" "force \<longrightarrow> root_ok n"
    show "hash_ok kec S D db (PFull ts) force (hasher_hash kec put gen limit n db force)"
    proof (cases n)
      case (HashN x)
      with hash_HashN n S h show ?thesis by simp
    next
      case (FullN cs fl)
      with hashChildren_Full [OF PFull.IH] n t S
      have "children_ok kec S D db (PFull ts) fl (hashChildren kec put gen limit n db)" by blast
      with hash_node [where kec = kec, OF kl n _ t(1,2) S _ h] FullN t(3) show ?thesis by simp
    qed (use n in \<open>auto simp: linked_def\<close>)
  qed
qed (simp_all add: hash_spec_def)

end

end
