(* ===== verification/Trie_Commit.thy ===== *)
theory Trie_Commit
  imports Trie_Hasher
begin

text \<open>
  Committing a trie and reading it back: the invariant of a trie with its cached hashes, kept by the
  updates of \<^verbatim>\<open>trie.go\<close>, by \<^verbatim>\<open>Hash\<close> and by \<^verbatim>\<open>CommitTo\<close>, and what the root hash says of the content.
\<close>


section \<open>The trie invariant with caches\<close>

lemma decodeNode_fuel_root_ok: "decodeNode_fuel f (Some h) b gen = Ok n \<Longrightarrow> root_ok n"
proof (cases f)
  case (Suc f')
  assume "decodeNode_fuel f (Some h) b gen = Ok n"
  with Suc obtain elems r where "SplitList b = Ok (elems, r)"
    and "(case CountValues elems of
         Ok c \<Rightarrow> if c = 2 then decodeShort (\<lambda>h b. decodeNode_fuel f' h b gen) (Some h) elems gen
                 else if c = 17 then decodeFull (\<lambda>h b. decodeNode_fuel f' h b gen) (Some h) elems gen
                 else Err (InvalidElements c)
       | Err _ \<Rightarrow> Err (InvalidElements 0) | Panic \<Rightarrow> Panic | Diverge \<Rightarrow> Diverge) = Ok n"
    by (cases "SplitList b") (auto simp: Let_def split: if_splits)
  then show ?thesis
    by (cases "CountValues elems") (auto simp: decodeShort_def decodeFull_def Let_def split: if_splits)
qed simp

lemma resolveHash_root_ok: "resolveHash db gen h p = Ok n \<Longrightarrow> root_ok n"
  by (auto simp: resolveHash_def mustDecodeNode_def decodeNode_def
      simp del: decodeNode_fuel.simps split: option.splits res.splits dest: decodeNode_fuel_root_ok)

lemma newFlag_dirty [simp]: "nf_dirty (newFlag gen)"
  by (simp add: newFlag_def)

lemma tryGet_root_ok: "tryGet fuel db gen n key pos = Ok (v, n', r) \<Longrightarrow> root_ok n \<Longrightarrow> root_ok n'"
proof (induction fuel db gen n key pos arbitrary: v n' r rule: tryGet.induct)
  case (2 fuel db gen n key pos)
  show ?case
  proof (cases n)
    case (HashN h)
    with 2 resolveHash_root_ok show ?thesis by (cases "resolveHash db gen h (take pos key)") fastforce+
  qed (use 2 in \<open>auto simp: Let_def split: if_splits\<close>)
qed simp

lemma trie_insert_root_ok:
  "trie_insert fuel db gen n prefix key (ValueN v) = Ok (ch, n') \<Longrightarrow> root_ok n \<Longrightarrow> root_ok n'"
proof (induction fuel arbitrary: n ch n')
  case (Suc fuel)
  show ?case
  proof (cases n)
    case (HashN h)
    with Suc resolveHash_root_ok show ?thesis
      by (cases "resolveHash db gen h prefix") (fastforce split: if_splits)+
  qed (use Suc.prems in \<open>auto simp: Let_def split: if_splits\<close>)
qed simp

lemma collapse_root_ok: "collapse db gen prefix cs = Ok (ch, n) \<Longrightarrow> root_ok n"
  by (cases "trie_resolve db gen (cs ! nat (remaining_child 0 (-1) cs)) prefix")
    (auto simp: collapse_def Let_def split: if_split_asm node.split_asm)

lemma trie_delete_root_ok:
  "trie_delete fuel db gen n prefix key = Ok (ch, n') \<Longrightarrow> root_ok n \<Longrightarrow> root_ok n'"
proof (induction fuel arbitrary: n ch n')
  case (Suc fuel)
  show ?case
  proof (cases n)
    case (HashN h)
    with Suc resolveHash_root_ok show ?thesis
      by (cases "resolveHash db gen h prefix") (fastforce split: if_splits)+
  next
    case (FullN cs fl)
    obtain a y where k: "key = a # y" "unat a < length cs" using Suc.prems(1) FullN by (cases key) (auto split: if_split_asm)
    show ?thesis
    proof (cases "trie_delete fuel db gen (cs ! unat a) (prefix @ [a]) y")
      case (Ok r)
      then show ?thesis
        using Suc.prems FullN k collapse_root_ok
        by (cases r) (auto simp: plain.trie_delete_PFull simp del: trie_delete.simps split: if_split_asm)
    qed (use Suc.prems FullN k in auto)
  qed (use Suc.prems in \<open>auto simp: Let_def split: if_splits node.splits\<close>)
qed simp

definition trie_ok :: "(bytes \<Rightarrow> bytes) \<Rightarrow> db \<Rightarrow> Trie \<Rightarrow> ptree \<Rightarrow> bool" where
  "trie_ok kec d t p \<longleftrightarrow> linked kec d (tr_root t) p \<and> canon_root p \<and> root_ok (tr_root t)"

lemma trie_ok_reps: "trie_ok kec d t p \<longleftrightarrow> lnk.reps kec d d t p \<and> root_ok (tr_root t)"
  by (auto simp: trie_ok_def lnk.reps_def linked_def)

lemma TryUpdate_root_ok: "TryUpdate fuel d t k v = Ok t' \<Longrightarrow> root_ok (tr_root t) \<Longrightarrow> root_ok (tr_root t')"
  by (auto simp: TryUpdate_def Let_def split: if_splits dest: trie_insert_root_ok trie_delete_root_ok)

lemma run_updates_root_ok: "run_updates fuel d t ops = Ok t' \<Longrightarrow> root_ok (tr_root t) \<Longrightarrow> root_ok (tr_root t')"
  by (induction fuel d t ops rule: run_updates.induct) (auto dest: TryUpdate_root_ok)

lemma run_updates_ok:
  "trie_ok kec d t p \<Longrightarrow> list_all (\<lambda>op. enough fuel (fst op)) ops \<Longrightarrow>
   \<exists>t'. run_updates fuel d t ops = Ok t' \<and> trie_ok kec d t' (ptree_ops ops p)"
  unfolding trie_ok_reps using lnk.run_updates_reps run_updates_root_ok by blast

lemma expands_weaken: "expands F R big db n t \<Longrightarrow> expands (\<lambda>_ _. True) (\<lambda>_ _. True) (\<lambda>_. True) db n t"
proof (induction rule: expands.induct)
  case (expands_Full cs ts fl)
  then show ?case by (auto elim: list_all2_mono)
next
  case (expands_Hash h t)
  then show ?case by (intro expands.expands_Hash) blast+
qed auto

lemma trie_ok_represents: "trie_ok kec d t p \<Longrightarrow> represents d t p"
  by (auto simp: trie_ok_def represents_def linked_def intro: expands_weaken)

lemma expands_unique: "expands F R big db n t \<Longrightarrow> expands F' R' big' db n t' \<Longrightarrow> t = t'"
proof (induction arbitrary: t' rule: expands.induct)
  case (expands_Full cs ts fl)
  from expands_Full.prems obtain ts' where t': "t' = PFull ts'"
    "list_all2 (\<lambda>n t. expands F' R' big' db n t \<and> (has_hash n \<longrightarrow> big' t)) cs ts'" by auto
  with expands_Full.IH have "ts = ts'"
    by (intro nth_equalityI) (auto simp: list_all2_conv_all_nth)
  with t' show ?case by simp
next
  case (expands_Hash h t)
  from expands_Hash.prems obtain n where "resolveHash db 0 h [] = Ok n" "expands F' R' big' db n t'"
    by (elim expands_HashE) blast
  with expands_Hash.IH [of 0 "[]"] show ?case by auto
qed auto

section \<open>Hashing and committing a trie\<close>

text \<open>The root hash of a tree.\<close>

definition root_hash :: "(bytes \<Rightarrow> bytes) \<Rightarrow> ptree \<Rightarrow> hash" where
  "root_hash kec p = (if p = PNil then emptyRoot else kec (penc kec p))"

lemma length_emptyRoot: "length emptyRoot = 32"
  by (simp add: emptyRoot_def)

lemma trie_ok_PNil: "trie_ok kec d t p \<Longrightarrow> p = PNil \<longleftrightarrow> tr_root t = NilN"
  unfolding trie_ok_def linked_def using lnk.expands_PNil_iff by blast

context kv_store
begin

lemma hashRoot_ok:
  assumes kl: "\<And>x. length (kec x) = 32" and t: "trie_ok kec (view D db) t p" and f: "fits kec p"
    and S: "no_clash kec (encs kec p) D db"
  shows "\<exists>cached db'. hashRoot kec put t db = Ok (HashN (root_hash kec p), cached, db')
    \<and> (db' = None \<longleftrightarrow> db = None) \<and> view D db \<subseteq>\<^sub>m view D db' \<and> trie_ok kec (view D db') (t\<lparr>tr_root := cached\<rparr>) p
    \<and> (db \<noteq> None \<longrightarrow> p \<noteq> PNil \<longrightarrow> stored kec (view D db') p)"
proof (cases "p = PNil")
  case True
  with t trie_ok_PNil [OF t] show ?thesis by (simp add: hashRoot_def root_hash_def trie_ok_def)
next
  case False
  then have c: "canon p" using t by (simp add: trie_ok_def canon_root_def)
  have "hash_ok kec (encs kec p) D db p True (hasher_hash kec put (tr_cachegen t) (tr_cachelimit t) (tr_root t) db True)"
    by (rule hash_specD [OF hash_correct [where kec = kec, OF kl] _ c f _ S]) (use t in \<open>auto simp: trie_ok_def\<close>)
  then show ?thesis
    using False c trie_ok_PNil [OF t]
    by (auto simp: hash_ok_def hashRoot_def root_hash_def trie_ok_def canon_root_def hash_value_def saved_def stored_def grows_def)
qed

lemma CommitTo_ok:
  assumes kl: "\<And>x. length (kec x) = 32" and t: "trie_ok kec (get d) t p" and f: "fits kec p"
    and S: "collision_free kec (encs kec p) (get d)"
  shows "\<exists>t' d'. CommitTo kec put t d = Ok (root_hash kec p, t', d') \<and> get d \<subseteq>\<^sub>m get d' \<and> trie_ok kec (get d') t' p
    \<and> (p \<noteq> PNil \<longrightarrow> stored kec (get d') p)"
proof -
  from hashRoot_ok [where kec = kec and D = Map.empty and db = "Some d", OF kl, of t p] t f S
  obtain cached db' where "hashRoot kec put t (Some d) = Ok (HashN (root_hash kec p), cached, db')" "db' \<noteq> None"
    "get d \<subseteq>\<^sub>m view Map.empty db'" "trie_ok kec (view Map.empty db') (t\<lparr>tr_root := cached\<rparr>) p"
    "p \<noteq> PNil \<longrightarrow> stored kec (view Map.empty db') p" by (auto simp: view_def no_clash_def)
  then show ?thesis
    using kl by (auto simp: CommitTo_def view_def trie_ok_def root_hash_def length_emptyRoot)
qed

end

lemma Trie_Hash_ok:
  assumes kl: "\<And>x. length (kec x) = 32" and t: "trie_ok kec d t p" and f: "fits kec p"
  shows "\<exists>t'. Trie_Hash kec t = Ok (root_hash kec p, t') \<and> trie_ok kec d t' p"
proof -
  define w where "w = (None :: MemDatabase option)"
  have "\<exists>cached db'. hashRoot kec (MemDatabase_Put :: (unit, MemDatabase) putter) t w = Ok (HashN (root_hash kec p), cached, db')
    \<and> (db' = None \<longleftrightarrow> w = None) \<and> mem.view d w \<subseteq>\<^sub>m mem.view d db' \<and> trie_ok kec (mem.view d db') (t\<lparr>tr_root := cached\<rparr>) p
    \<and> (w \<noteq> None \<longrightarrow> p \<noteq> PNil \<longrightarrow> stored kec (mem.view d db') p)"
    by (rule mem.hashRoot_ok [where kec = kec, OF kl]) (use t f in \<open>simp_all add: mem.view_def mem.no_clash_def w_def\<close>)
  then show ?thesis
    using kl by (auto simp: Trie_Hash_def mem.view_def w_def root_hash_def length_emptyRoot)
qed

lemma Trie_New_stored:
  assumes kl: "\<And>x. length (kec x) = 32" and p: "canon p" "fits kec p" "stored kec d p"
    and h: "kec (penc kec p) \<noteq> zeroHash" "kec (penc kec p) \<noteq> emptyRoot"
  shows "\<exists>t. Trie_New (kec (penc kec p)) (Some d) = Ok t \<and> trie_ok kec d t p"
proof -
  have "linked kec d (shallow kec 0 (Some (kec (penc kec p))) p) p"
    using p by (intro shallow_linked [where kec = kec, OF kl]) (simp_all add: stored_def cacheF_def)
  moreover have r: "resolveHash d 0 (kec (penc kec p)) [] = Ok (shallow kec 0 (Some (kec (penc kec p))) p)"
    using resolveHash_stored [where kec = kec, OF kl] p by blast
  moreover have "root_ok (shallow kec 0 (Some (kec (penc kec p))) p)" using resolveHash_root_ok r by blast
  ultimately show ?thesis using p h by (simp add: Trie_New_def trie_ok_def canon_root_def)
qed

lemma penc_encs: "inner t \<Longrightarrow> penc kec t \<in> encs kec t"
  by (cases t) simp_all

lemma below_encs: "encs kec t \<subseteq> S \<Longrightarrow> (\<And>e. e \<in> S \<Longrightarrow> d (kec e) = Some e) \<Longrightarrow> below kec d t"
proof (induction t)
  case (PShort k t)
  then show ?case using penc_encs [of t kec] by (auto simp: large_def)
next
  case (PFull cs)
  have "below kec d t \<and> (large kec t \<longrightarrow> d (kec (penc kec t)) = Some (penc kec t))" if t: "t \<in> set cs" for t
  proof -
    have e: "encs kec t \<subseteq> S" using PFull.prems(1) t by auto
    from PFull.IH [OF t e PFull.prems(2)] penc_encs [of t kec] e PFull.prems(2) show ?thesis
      by (auto simp: large_def)
  qed
  then show ?case by (simp add: list_all_iff)
qed simp_all

lemma penc_unique:
  assumes kl: "\<And>x. length (kec x) = 32" and p: "canon p" "fits kec p" and q: "canon q" "fits kec q"
    and inj: "inj_on kec (encs kec p \<union> encs kec q)" and eq: "kec (penc kec p) = kec (penc kec q)"
  shows "p = q"
proof -
  define S where "S = encs kec p \<union> encs kec q"
  define d where "d = (\<lambda>h. if h \<in> kec ` S then Some (inv_into S kec h) else None)"
  have d: "d (kec e) = Some e" if "e \<in> S" for e using inj that by (simp add: d_def S_def)
  have "stored kec d t" if "canon t" "encs kec t \<subseteq> S" for t
    using below_encs [OF that(2) d] d that penc_encs [OF inner_canon [OF that(1)], of kec] by (auto simp: stored_def)
  then have "linked kec d (HashN (kec (penc kec p))) p" "linked kec d (HashN (kec (penc kec q))) q"
    using HashN_linked [where kec = kec, OF kl] p q by (auto simp: S_def)
  with eq show ?thesis unfolding linked_def using expands_unique by metis
qed

lemma canon_root_ptree_ops: "canon_root p \<Longrightarrow> canon_root (ptree_ops ops p)"
  unfolding ptree_ops_def by (rule pt.run_ops_inv [OF _ hex_ops_ok])

lemma content_ptree_ops: "canon_root p \<Longrightarrow> content (ptree_ops ops p) = map_ops (map map_op ops) (content p)"
proof (induction ops arbitrary: p)
  case (Cons op ops)
  obtain k v where op: "op = (k, v)" by force
  have "content (ptree_ops [op] p) = (content p)(k := if v = [] then None else Some v)"
    using content_pdelete [OF Cons.prems] content_pinsert [OF Cons.prems] op
    by (cases "v = []") (simp_all add: ptree_ops_def hex_op_def)
  moreover have "map_op op = (k, if v = [] then None else Some v)" using op by (simp add: map_op_def)
  ultimately show ?case
    unfolding ptree_ops_Cons [of op ops] Cons.IH [OF canon_root_ptree_ops [OF Cons.prems], of "[op]"] by simp
qed (simp add: ptree_ops_def)

lemma content_PNil: "content PNil = Map.empty"
  by (simp add: fun_eq_iff content_def)

section \<open>Properties of the root hash\<close>

text \<open>
  C6: Committing and reopening.  Any sequence of updates of an empty trie, committed to a database and
  reopened from the returned root hash, gives a trie in which every key reads exactly what the updates
  left: the hash function has 32-byte results, is free of collisions on the encodings of this trie's
  nodes and what the database already holds, and does not produce one of the two reserved hashes.
\<close>

theorem commit_reopen:
  assumes kl: "\<And>x. length (kec x) = 32"
    and t: "tr_root t = NilN" and ops: "list_all (\<lambda>op. enough fuel (fst op)) ops"
    and p: "p = ptree_ops ops PNil" "p \<noteq> PNil" "fits kec p"
    and S: "collision_free kec (encs kec p) (md_db d)"
    and h: "kec (penc kec p) \<noteq> zeroHash" "kec (penc kec p) \<noteq> emptyRoot"
  shows "\<exists>t1 root t2 d' t3. run_updates fuel (md_db d) t ops = Ok t1
    \<and> CommitTo kec (MemDatabase_Put :: (unit, MemDatabase) putter) t1 d = Ok (root, t2, d')
    \<and> Trie_New root (Some (md_db d')) = Ok t3
    \<and> (\<forall>fuel key. enough fuel key \<longrightarrow>
        (\<exists>t'. TryGet fuel (md_db d') t3 key = Ok (map_ops (map map_op ops) Map.empty key, t')))"
proof -
  have "trie_ok kec (md_db d) t PNil" using t by (simp add: trie_ok_def linked_def canon_root_def)
  from run_updates_ok [OF this ops] p(1) obtain t1
    where t1: "run_updates fuel (md_db d) t ops = Ok t1" "trie_ok kec (md_db d) t1 p" by auto
  have "\<exists>t' d'. CommitTo kec (MemDatabase_Put :: (unit, MemDatabase) putter) t1 d = Ok (root_hash kec p, t', d')
    \<and> md_db d \<subseteq>\<^sub>m md_db d' \<and> trie_ok kec (md_db d') t' p \<and> (p \<noteq> PNil \<longrightarrow> stored kec (md_db d') p)"
    by (rule mem.CommitTo_ok [where kec = kec, OF kl t1(2) p(3) S])
  then obtain t2 d' where t2: "CommitTo kec (MemDatabase_Put :: (unit, MemDatabase) putter) t1 d = Ok (kec (penc kec p), t2, d')"
    "stored kec (md_db d') p" using p(2) by (auto simp: root_hash_def)
  have "canon p" using t1(2) p(2) by (simp add: trie_ok_def canon_root_def)
  from Trie_New_stored [where kec = kec, OF kl this p(3) t2(2) h] obtain t3
    where t3: "Trie_New (kec (penc kec p)) (Some (md_db d')) = Ok t3" "represents (md_db d') t3 p"
    using trie_ok_represents by blast
  have "content p = map_ops (map map_op ops) Map.empty"
    using content_ptree_ops [of PNil ops] p(1) by (simp add: canon_root_def content_PNil)
  with t1(1) t2(1) t3 plain.TryGet_reps show ?thesis unfolding represents_reps by metis
qed

text \<open>A 32-byte function for the witnesses: the first 32 bytes, padded.\<close>

definition pad32 :: "bytes \<Rightarrow> bytes" where
  "pad32 x = take 32 (x @ replicate 32 0)"

lemma fits_code [code]:
  "fits kec PNil \<longleftrightarrow> int (length (penc kec PNil)) < 2 ^ 64"
  "fits kec (PVal v) \<longleftrightarrow> int (length (penc kec (PVal v))) < 2 ^ 64"
  "fits kec (PShort k t) \<longleftrightarrow> int (length (penc kec (PShort k t))) < 2 ^ 64 \<and> fits kec t"
  "fits kec (PFull cs) \<longleftrightarrow> int (length (penc kec (PFull cs))) < 2 ^ 64 \<and> list_all (fits kec) cs"
  by simp_all

lemma length_pad32: "length (pad32 x) = 32"
  by (simp add: pad32_def)

theorem commit_reopen_witness:
  "\<exists>t1 root t2 d' t3 t'. run_updates 8 Map.empty \<lparr>tr_root = NilN, tr_originalRoot = [], tr_cachegen = 0, tr_cachelimit = 0\<rparr> [([1], [5])] = Ok t1
    \<and> CommitTo pad32 (MemDatabase_Put :: (unit, MemDatabase) putter) t1 \<lparr>md_db = Map.empty\<rparr> = Ok (root, t2, d')
    \<and> Trie_New root (Some (md_db d')) = Ok t3
    \<and> TryGet 8 (md_db d') t3 [1] = Ok (Some [5], t')"
proof -
  let ?t = "\<lparr>tr_root = NilN, tr_originalRoot = [], tr_cachegen = 0, tr_cachelimit = 0\<rparr>"
  have p: "ptree_ops [([1], [5])] PNil = PShort [0, 1, 16] (PVal [5])"
    by code_simp
  have e: "penc pad32 (PShort [0, 1, 16] (PVal [5])) = [0xc4, 0x82, 0x20, 0x01, 0x05]"
    by code_simp
  have f: "fits pad32 (PShort [0, 1, 16] (PVal [5]))" by code_simp
  have z: "pad32 [0xc4, 0x82, 0x20, 0x01, 0x05] \<noteq> zeroHash" "pad32 [0xc4, 0x82, 0x20, 0x01, 0x05] \<noteq> emptyRoot"
    by code_simp+
  from commit_reopen [where kec = pad32 and t = ?t and fuel = 8 and ops = "[([1], [5])]"
      and p = "PShort [0, 1, 16] (PVal [5])" and d = "\<lparr>md_db = Map.empty\<rparr>", OF length_pad32]
  obtain t1 root t2 d' t3 where r: "run_updates 8 Map.empty ?t [([1], [5])] = Ok t1"
    "CommitTo pad32 (MemDatabase_Put :: (unit, MemDatabase) putter) t1 \<lparr>md_db = Map.empty\<rparr> = Ok (root, t2, d')"
    "Trie_New root (Some (md_db d')) = Ok t3"
    "\<forall>fuel key. enough fuel key \<longrightarrow>
        (\<exists>t'. TryGet fuel (md_db d') t3 key = Ok (map_ops (map map_op [([1], [5])]) Map.empty key, t'))"
    using p e f z by (auto simp: enough_def collision_free_def)
  from r(4) [rule_format, of 8 "[1]"] have "\<exists>t'. TryGet 8 (md_db d') t3 [1] = Ok (Some [5], t')"
    by (simp add: enough_def map_op_def)
  with r(1-3) show ?thesis by blast
qed

text \<open>
  C12: The root hash does not depend on history.  Two sequences of updates of an empty trie that leave the
  same key-value map give tries with the same root hash, and hashing keeps the content of each.
\<close>

theorem root_hash_order_independent:
  assumes "\<And>x. length (kec x) = 32" and "tr_root t = NilN"
    and "list_all (\<lambda>op. enough fuel (fst op)) ops" and "list_all (\<lambda>op. enough fuel (fst op)) ops'"
    and "map_ops (map map_op ops) Map.empty = map_ops (map map_op ops') Map.empty"
    and "fits kec (ptree_ops ops PNil)"
  shows "\<exists>t1 t2 h u1 u2 p. run_updates fuel db t ops = Ok t1 \<and> run_updates fuel db t ops' = Ok t2
    \<and> Trie_Hash kec t1 = Ok (h, u1) \<and> Trie_Hash kec t2 = Ok (h, u2)
    \<and> represents db u1 p \<and> represents db u2 p \<and> content p = map_ops (map map_op ops) Map.empty"
proof -
  have "trie_ok kec db t PNil" using assms(2) by (simp add: trie_ok_def linked_def canon_root_def)
  from run_updates_ok [OF this assms(3)] run_updates_ok [OF this assms(4)] obtain t1 t2
    where "run_updates fuel db t ops = Ok t1" "trie_ok kec db t1 (ptree_ops ops PNil)"
      "run_updates fuel db t ops' = Ok t2" "trie_ok kec db t2 (ptree_ops ops PNil)"
    using ptree_ops_unique [OF assms(5)] by auto
  moreover from this Trie_Hash_ok [where kec = kec, OF assms(1) _ assms(6)] trie_ok_represents obtain u1 u2 where
      "Trie_Hash kec t1 = Ok (root_hash kec (ptree_ops ops PNil), u1)"
      "represents db u1 (ptree_ops ops PNil)"
      "Trie_Hash kec t2 = Ok (root_hash kec (ptree_ops ops PNil), u2)"
      "represents db u2 (ptree_ops ops PNil)" by metis
  moreover have "content (ptree_ops ops PNil) = map_ops (map map_op ops) Map.empty"
    using content_ptree_ops [of PNil ops] by (simp add: canon_root_def content_PNil)
  ultimately show ?thesis by blast
qed

theorem root_hash_order_independent_witness:
  "\<exists>t1 t2 h u1 u2. run_updates 8 Map.empty \<lparr>tr_root = NilN, tr_originalRoot = [], tr_cachegen = 0, tr_cachelimit = 0\<rparr> [([1], [5]), ([2], [6])] = Ok t1
    \<and> run_updates 8 Map.empty \<lparr>tr_root = NilN, tr_originalRoot = [], tr_cachegen = 0, tr_cachelimit = 0\<rparr> [([2], [9]), ([1], [5]), ([2], [6])] = Ok t2
    \<and> Trie_Hash pad32 t1 = Ok (h, u1) \<and> Trie_Hash pad32 t2 = Ok (h, u2)"
proof -
  let ?t = "\<lparr>tr_root = NilN, tr_originalRoot = [], tr_cachegen = 0, tr_cachelimit = 0\<rparr>"
  have f: "fits pad32 (ptree_ops [([1], [5]), ([2], [6])] PNil)" by code_simp
  from root_hash_order_independent [where kec = pad32 and t = ?t and fuel = 8 and ops = "[([1], [5]), ([2], [6])]"
      and ops' = "[([2], [9]), ([1], [5]), ([2], [6])]" and db = Map.empty, OF length_pad32] f
  show ?thesis by (fastforce simp: enough_def map_op_def)
qed


text \<open>For the witness: \<open>pad32\<close> with a first byte that differs from that of the empty root.\<close>

definition tag32 :: "bytes \<Rightarrow> bytes" where
  "tag32 x = 1 # take 31 (x @ replicate 31 0)"


end
