(* ===== verification/Keccak_F.thy ===== *)
theory Keccak_F
  imports Prelude
begin

text \<open>
  The Keccak-f[1600] permutation of \<^verbatim>\<open>src/common/crypto/sha3/keccakf.go\<close>: the code unrolls four rounds, keeps the
  lanes in place and fuses the five steps of a round; the reference is the textbook round.
\<close>

unbundle bit_operations_syntax

section \<open>The code\<close>

definition rc :: "u64 list" where
  "rc =
    [0x0000000000000001, 0x0000000000008082, 0x800000000000808A, 0x8000000080008000,
     0x000000000000808B, 0x0000000080000001, 0x8000000080008081, 0x8000000000008009,
     0x000000000000008A, 0x0000000000000088, 0x0000000080008009, 0x000000008000000A,
     0x000000008000808B, 0x800000000000008B, 0x8000000000008089, 0x8000000000008003,
     0x8000000000008002, 0x8000000000000080, 0x000000000000800A, 0x800000008000000A,
     0x8000000080008081, 0x8000000000008080, 0x0000000080000001, 0x8000000080008008]"

text \<open>The rotation \<open>t<<n | t>>(64-n)\<close> the code writes out.\<close>

definition rotl :: "nat \<Rightarrow> u64 \<Rightarrow> u64" where
  "rotl n t = push_bit n t OR drop_bit (64 - n) t"

text \<open>The four unrolled rounds of the loop body, one definition each, statement by statement.\<close>

definition column_sums :: "u64 list \<Rightarrow> u64 \<times> u64 \<times> u64 \<times> u64 \<times> u64" where
  "column_sums a =
    (let bc0 = (a ! 0) XOR (a ! 5) XOR (a ! 10) XOR (a ! 15) XOR (a ! 20);
         bc1 = (a ! 1) XOR (a ! 6) XOR (a ! 11) XOR (a ! 16) XOR (a ! 21);
         bc2 = (a ! 2) XOR (a ! 7) XOR (a ! 12) XOR (a ! 17) XOR (a ! 22);
         bc3 = (a ! 3) XOR (a ! 8) XOR (a ! 13) XOR (a ! 18) XOR (a ! 23);
         bc4 = (a ! 4) XOR (a ! 9) XOR (a ! 14) XOR (a ! 19) XOR (a ! 24);
         d0 = bc4 XOR (rotl 1 bc1);
         d1 = bc0 XOR (rotl 1 bc2);
         d2 = bc1 XOR (rotl 1 bc3);
         d3 = bc2 XOR (rotl 1 bc4);
         d4 = bc3 XOR (rotl 1 bc0)
     in (d0, d1, d2, d3, d4))"

definition keccak_round1 :: "nat \<Rightarrow> u64 list \<Rightarrow> u64 list" where
  "keccak_round1 i a =
    (let (d0, d1, d2, d3, d4) = column_sums a;
         bc0 = (a ! 0) XOR d0;
         t = (a ! 6) XOR d1;
         bc1 = rotl 44 t;
         t = (a ! 12) XOR d2;
         bc2 = rotl 43 t;
         t = (a ! 18) XOR d3;
         bc3 = rotl 21 t;
         t = (a ! 24) XOR d4;
         bc4 = rotl 14 t;
         a = a[0 := bc0 XOR (bc2 AND NOT bc1) XOR (rc ! i)];
         a = a[6 := bc1 XOR (bc3 AND NOT bc2)];
         a = a[12 := bc2 XOR (bc4 AND NOT bc3)];
         a = a[18 := bc3 XOR (bc0 AND NOT bc4)];
         a = a[24 := bc4 XOR (bc1 AND NOT bc0)];
         t = (a ! 10) XOR d0;
         bc2 = rotl 3 t;
         t = (a ! 16) XOR d1;
         bc3 = rotl 45 t;
         t = (a ! 22) XOR d2;
         bc4 = rotl 61 t;
         t = (a ! 3) XOR d3;
         bc0 = rotl 28 t;
         t = (a ! 9) XOR d4;
         bc1 = rotl 20 t;
         a = a[10 := bc0 XOR (bc2 AND NOT bc1)];
         a = a[16 := bc1 XOR (bc3 AND NOT bc2)];
         a = a[22 := bc2 XOR (bc4 AND NOT bc3)];
         a = a[3 := bc3 XOR (bc0 AND NOT bc4)];
         a = a[9 := bc4 XOR (bc1 AND NOT bc0)];
         t = (a ! 20) XOR d0;
         bc4 = rotl 18 t;
         t = (a ! 1) XOR d1;
         bc0 = rotl 1 t;
         t = (a ! 7) XOR d2;
         bc1 = rotl 6 t;
         t = (a ! 13) XOR d3;
         bc2 = rotl 25 t;
         t = (a ! 19) XOR d4;
         bc3 = rotl 8 t;
         a = a[20 := bc0 XOR (bc2 AND NOT bc1)];
         a = a[1 := bc1 XOR (bc3 AND NOT bc2)];
         a = a[7 := bc2 XOR (bc4 AND NOT bc3)];
         a = a[13 := bc3 XOR (bc0 AND NOT bc4)];
         a = a[19 := bc4 XOR (bc1 AND NOT bc0)];
         t = (a ! 5) XOR d0;
         bc1 = rotl 36 t;
         t = (a ! 11) XOR d1;
         bc2 = rotl 10 t;
         t = (a ! 17) XOR d2;
         bc3 = rotl 15 t;
         t = (a ! 23) XOR d3;
         bc4 = rotl 56 t;
         t = (a ! 4) XOR d4;
         bc0 = rotl 27 t;
         a = a[5 := bc0 XOR (bc2 AND NOT bc1)];
         a = a[11 := bc1 XOR (bc3 AND NOT bc2)];
         a = a[17 := bc2 XOR (bc4 AND NOT bc3)];
         a = a[23 := bc3 XOR (bc0 AND NOT bc4)];
         a = a[4 := bc4 XOR (bc1 AND NOT bc0)];
         t = (a ! 15) XOR d0;
         bc3 = rotl 41 t;
         t = (a ! 21) XOR d1;
         bc4 = rotl 2 t;
         t = (a ! 2) XOR d2;
         bc0 = rotl 62 t;
         t = (a ! 8) XOR d3;
         bc1 = rotl 55 t;
         t = (a ! 14) XOR d4;
         bc2 = rotl 39 t;
         a = a[15 := bc0 XOR (bc2 AND NOT bc1)];
         a = a[21 := bc1 XOR (bc3 AND NOT bc2)];
         a = a[2 := bc2 XOR (bc4 AND NOT bc3)];
         a = a[8 := bc3 XOR (bc0 AND NOT bc4)];
         a = a[14 := bc4 XOR (bc1 AND NOT bc0)]
     in a)"

definition keccak_round2 :: "nat \<Rightarrow> u64 list \<Rightarrow> u64 list" where
  "keccak_round2 i a =
    (let (d0, d1, d2, d3, d4) = column_sums a;
         bc0 = (a ! 0) XOR d0;
         t = (a ! 16) XOR d1;
         bc1 = rotl 44 t;
         t = (a ! 7) XOR d2;
         bc2 = rotl 43 t;
         t = (a ! 23) XOR d3;
         bc3 = rotl 21 t;
         t = (a ! 14) XOR d4;
         bc4 = rotl 14 t;
         a = a[0 := bc0 XOR (bc2 AND NOT bc1) XOR (rc ! (i + 1))];
         a = a[16 := bc1 XOR (bc3 AND NOT bc2)];
         a = a[7 := bc2 XOR (bc4 AND NOT bc3)];
         a = a[23 := bc3 XOR (bc0 AND NOT bc4)];
         a = a[14 := bc4 XOR (bc1 AND NOT bc0)];
         t = (a ! 20) XOR d0;
         bc2 = rotl 3 t;
         t = (a ! 11) XOR d1;
         bc3 = rotl 45 t;
         t = (a ! 2) XOR d2;
         bc4 = rotl 61 t;
         t = (a ! 18) XOR d3;
         bc0 = rotl 28 t;
         t = (a ! 9) XOR d4;
         bc1 = rotl 20 t;
         a = a[20 := bc0 XOR (bc2 AND NOT bc1)];
         a = a[11 := bc1 XOR (bc3 AND NOT bc2)];
         a = a[2 := bc2 XOR (bc4 AND NOT bc3)];
         a = a[18 := bc3 XOR (bc0 AND NOT bc4)];
         a = a[9 := bc4 XOR (bc1 AND NOT bc0)];
         t = (a ! 15) XOR d0;
         bc4 = rotl 18 t;
         t = (a ! 6) XOR d1;
         bc0 = rotl 1 t;
         t = (a ! 22) XOR d2;
         bc1 = rotl 6 t;
         t = (a ! 13) XOR d3;
         bc2 = rotl 25 t;
         t = (a ! 4) XOR d4;
         bc3 = rotl 8 t;
         a = a[15 := bc0 XOR (bc2 AND NOT bc1)];
         a = a[6 := bc1 XOR (bc3 AND NOT bc2)];
         a = a[22 := bc2 XOR (bc4 AND NOT bc3)];
         a = a[13 := bc3 XOR (bc0 AND NOT bc4)];
         a = a[4 := bc4 XOR (bc1 AND NOT bc0)];
         t = (a ! 10) XOR d0;
         bc1 = rotl 36 t;
         t = (a ! 1) XOR d1;
         bc2 = rotl 10 t;
         t = (a ! 17) XOR d2;
         bc3 = rotl 15 t;
         t = (a ! 8) XOR d3;
         bc4 = rotl 56 t;
         t = (a ! 24) XOR d4;
         bc0 = rotl 27 t;
         a = a[10 := bc0 XOR (bc2 AND NOT bc1)];
         a = a[1 := bc1 XOR (bc3 AND NOT bc2)];
         a = a[17 := bc2 XOR (bc4 AND NOT bc3)];
         a = a[8 := bc3 XOR (bc0 AND NOT bc4)];
         a = a[24 := bc4 XOR (bc1 AND NOT bc0)];
         t = (a ! 5) XOR d0;
         bc3 = rotl 41 t;
         t = (a ! 21) XOR d1;
         bc4 = rotl 2 t;
         t = (a ! 12) XOR d2;
         bc0 = rotl 62 t;
         t = (a ! 3) XOR d3;
         bc1 = rotl 55 t;
         t = (a ! 19) XOR d4;
         bc2 = rotl 39 t;
         a = a[5 := bc0 XOR (bc2 AND NOT bc1)];
         a = a[21 := bc1 XOR (bc3 AND NOT bc2)];
         a = a[12 := bc2 XOR (bc4 AND NOT bc3)];
         a = a[3 := bc3 XOR (bc0 AND NOT bc4)];
         a = a[19 := bc4 XOR (bc1 AND NOT bc0)]
     in a)"

definition keccak_round3 :: "nat \<Rightarrow> u64 list \<Rightarrow> u64 list" where
  "keccak_round3 i a =
    (let (d0, d1, d2, d3, d4) = column_sums a;
         bc0 = (a ! 0) XOR d0;
         t = (a ! 11) XOR d1;
         bc1 = rotl 44 t;
         t = (a ! 22) XOR d2;
         bc2 = rotl 43 t;
         t = (a ! 8) XOR d3;
         bc3 = rotl 21 t;
         t = (a ! 19) XOR d4;
         bc4 = rotl 14 t;
         a = a[0 := bc0 XOR (bc2 AND NOT bc1) XOR (rc ! (i + 2))];
         a = a[11 := bc1 XOR (bc3 AND NOT bc2)];
         a = a[22 := bc2 XOR (bc4 AND NOT bc3)];
         a = a[8 := bc3 XOR (bc0 AND NOT bc4)];
         a = a[19 := bc4 XOR (bc1 AND NOT bc0)];
         t = (a ! 15) XOR d0;
         bc2 = rotl 3 t;
         t = (a ! 1) XOR d1;
         bc3 = rotl 45 t;
         t = (a ! 12) XOR d2;
         bc4 = rotl 61 t;
         t = (a ! 23) XOR d3;
         bc0 = rotl 28 t;
         t = (a ! 9) XOR d4;
         bc1 = rotl 20 t;
         a = a[15 := bc0 XOR (bc2 AND NOT bc1)];
         a = a[1 := bc1 XOR (bc3 AND NOT bc2)];
         a = a[12 := bc2 XOR (bc4 AND NOT bc3)];
         a = a[23 := bc3 XOR (bc0 AND NOT bc4)];
         a = a[9 := bc4 XOR (bc1 AND NOT bc0)];
         t = (a ! 5) XOR d0;
         bc4 = rotl 18 t;
         t = (a ! 16) XOR d1;
         bc0 = rotl 1 t;
         t = (a ! 2) XOR d2;
         bc1 = rotl 6 t;
         t = (a ! 13) XOR d3;
         bc2 = rotl 25 t;
         t = (a ! 24) XOR d4;
         bc3 = rotl 8 t;
         a = a[5 := bc0 XOR (bc2 AND NOT bc1)];
         a = a[16 := bc1 XOR (bc3 AND NOT bc2)];
         a = a[2 := bc2 XOR (bc4 AND NOT bc3)];
         a = a[13 := bc3 XOR (bc0 AND NOT bc4)];
         a = a[24 := bc4 XOR (bc1 AND NOT bc0)];
         t = (a ! 20) XOR d0;
         bc1 = rotl 36 t;
         t = (a ! 6) XOR d1;
         bc2 = rotl 10 t;
         t = (a ! 17) XOR d2;
         bc3 = rotl 15 t;
         t = (a ! 3) XOR d3;
         bc4 = rotl 56 t;
         t = (a ! 14) XOR d4;
         bc0 = rotl 27 t;
         a = a[20 := bc0 XOR (bc2 AND NOT bc1)];
         a = a[6 := bc1 XOR (bc3 AND NOT bc2)];
         a = a[17 := bc2 XOR (bc4 AND NOT bc3)];
         a = a[3 := bc3 XOR (bc0 AND NOT bc4)];
         a = a[14 := bc4 XOR (bc1 AND NOT bc0)];
         t = (a ! 10) XOR d0;
         bc3 = rotl 41 t;
         t = (a ! 21) XOR d1;
         bc4 = rotl 2 t;
         t = (a ! 7) XOR d2;
         bc0 = rotl 62 t;
         t = (a ! 18) XOR d3;
         bc1 = rotl 55 t;
         t = (a ! 4) XOR d4;
         bc2 = rotl 39 t;
         a = a[10 := bc0 XOR (bc2 AND NOT bc1)];
         a = a[21 := bc1 XOR (bc3 AND NOT bc2)];
         a = a[7 := bc2 XOR (bc4 AND NOT bc3)];
         a = a[18 := bc3 XOR (bc0 AND NOT bc4)];
         a = a[4 := bc4 XOR (bc1 AND NOT bc0)]
     in a)"

definition keccak_round4 :: "nat \<Rightarrow> u64 list \<Rightarrow> u64 list" where
  "keccak_round4 i a =
    (let (d0, d1, d2, d3, d4) = column_sums a;
         bc0 = (a ! 0) XOR d0;
         t = (a ! 1) XOR d1;
         bc1 = rotl 44 t;
         t = (a ! 2) XOR d2;
         bc2 = rotl 43 t;
         t = (a ! 3) XOR d3;
         bc3 = rotl 21 t;
         t = (a ! 4) XOR d4;
         bc4 = rotl 14 t;
         a = a[0 := bc0 XOR (bc2 AND NOT bc1) XOR (rc ! (i + 3))];
         a = a[1 := bc1 XOR (bc3 AND NOT bc2)];
         a = a[2 := bc2 XOR (bc4 AND NOT bc3)];
         a = a[3 := bc3 XOR (bc0 AND NOT bc4)];
         a = a[4 := bc4 XOR (bc1 AND NOT bc0)];
         t = (a ! 5) XOR d0;
         bc2 = rotl 3 t;
         t = (a ! 6) XOR d1;
         bc3 = rotl 45 t;
         t = (a ! 7) XOR d2;
         bc4 = rotl 61 t;
         t = (a ! 8) XOR d3;
         bc0 = rotl 28 t;
         t = (a ! 9) XOR d4;
         bc1 = rotl 20 t;
         a = a[5 := bc0 XOR (bc2 AND NOT bc1)];
         a = a[6 := bc1 XOR (bc3 AND NOT bc2)];
         a = a[7 := bc2 XOR (bc4 AND NOT bc3)];
         a = a[8 := bc3 XOR (bc0 AND NOT bc4)];
         a = a[9 := bc4 XOR (bc1 AND NOT bc0)];
         t = (a ! 10) XOR d0;
         bc4 = rotl 18 t;
         t = (a ! 11) XOR d1;
         bc0 = rotl 1 t;
         t = (a ! 12) XOR d2;
         bc1 = rotl 6 t;
         t = (a ! 13) XOR d3;
         bc2 = rotl 25 t;
         t = (a ! 14) XOR d4;
         bc3 = rotl 8 t;
         a = a[10 := bc0 XOR (bc2 AND NOT bc1)];
         a = a[11 := bc1 XOR (bc3 AND NOT bc2)];
         a = a[12 := bc2 XOR (bc4 AND NOT bc3)];
         a = a[13 := bc3 XOR (bc0 AND NOT bc4)];
         a = a[14 := bc4 XOR (bc1 AND NOT bc0)];
         t = (a ! 15) XOR d0;
         bc1 = rotl 36 t;
         t = (a ! 16) XOR d1;
         bc2 = rotl 10 t;
         t = (a ! 17) XOR d2;
         bc3 = rotl 15 t;
         t = (a ! 18) XOR d3;
         bc4 = rotl 56 t;
         t = (a ! 19) XOR d4;
         bc0 = rotl 27 t;
         a = a[15 := bc0 XOR (bc2 AND NOT bc1)];
         a = a[16 := bc1 XOR (bc3 AND NOT bc2)];
         a = a[17 := bc2 XOR (bc4 AND NOT bc3)];
         a = a[18 := bc3 XOR (bc0 AND NOT bc4)];
         a = a[19 := bc4 XOR (bc1 AND NOT bc0)];
         t = (a ! 20) XOR d0;
         bc3 = rotl 41 t;
         t = (a ! 21) XOR d1;
         bc4 = rotl 2 t;
         t = (a ! 22) XOR d2;
         bc0 = rotl 62 t;
         t = (a ! 23) XOR d3;
         bc1 = rotl 55 t;
         t = (a ! 24) XOR d4;
         bc2 = rotl 39 t;
         a = a[20 := bc0 XOR (bc2 AND NOT bc1)];
         a = a[21 := bc1 XOR (bc3 AND NOT bc2)];
         a = a[22 := bc2 XOR (bc4 AND NOT bc3)];
         a = a[23 := bc3 XOR (bc0 AND NOT bc4)];
         a = a[24 := bc4 XOR (bc1 AND NOT bc0)]
     in a)"

definition keccakF1600 :: "u64 list \<Rightarrow> u64 list" where
  "keccakF1600 a =
     foldl (\<lambda>a i. keccak_round4 i (keccak_round3 i (keccak_round2 i (keccak_round1 i a)))) a [0, 4, 8, 12, 16, 20]"

section \<open>The reference\<close>

text \<open>
  Lane \<open>(x, y)\<close> is element \<open>x + 5 * y\<close>.  \<open>theta\<close> adds the parities of two columns, \<open>rho\<close> rotates each lane,
  \<open>pi\<close> moves lane \<open>(x, y)\<close> to \<open>(y, 2 x + 3 y)\<close>, \<open>chi\<close> combines each lane with the next two of its row, and
  \<open>iota\<close> adds the round constant.
\<close>

definition lanes :: "(nat \<Rightarrow> nat \<Rightarrow> 'a) \<Rightarrow> 'a list" where
  "lanes f = map (\<lambda>l. f (l mod 5) (l div 5)) [0..<25]"

definition lane :: "u64 list \<Rightarrow> nat \<Rightarrow> nat \<Rightarrow> u64" where
  "lane a x y = a ! (x mod 5 + 5 * (y mod 5))"

definition parity :: "u64 list \<Rightarrow> nat \<Rightarrow> u64" where
  "parity a x = lane a x 0 XOR lane a x 1 XOR lane a x 2 XOR lane a x 3 XOR lane a x 4"

definition theta :: "u64 list \<Rightarrow> u64 list" where
  "theta a = lanes (\<lambda>x y. lane a x y XOR (parity a (x + 4) XOR word_rotl 1 (parity a (x + 1))))"

definition rho_offset :: "nat list" where
  "rho_offset = [0, 1, 62, 28, 27, 36, 44, 6, 55, 20, 3, 10, 43, 25, 39, 41, 45, 15, 21, 8, 18, 2, 61, 56, 14]"

definition rho :: "u64 list \<Rightarrow> u64 list" where
  "rho a = lanes (\<lambda>x y. word_rotl (rho_offset ! (x + 5 * y)) (lane a x y))"

text \<open>\<open>pi\<close>, read from the target: lane \<open>(x, y)\<close> comes from \<open>(x + 3 y, x)\<close>.\<close>

definition pi_step :: "u64 list \<Rightarrow> u64 list" where
  "pi_step a = lanes (\<lambda>x y. lane a (x + 3 * y) x)"

definition chi :: "u64 list \<Rightarrow> u64 list" where
  "chi a = lanes (\<lambda>x y. lane a x y XOR (lane a (x + 2) y AND NOT (lane a (x + 1) y)))"

definition iota :: "u64 \<Rightarrow> u64 list \<Rightarrow> u64 list" where
  "iota c a = a[0 := a ! 0 XOR c]"

definition keccak_round :: "u64 \<Rightarrow> u64 list \<Rightarrow> u64 list" where
  "keccak_round c a = iota c (chi (pi_step (rho (theta a))))"

definition keccak_f :: "u64 list \<Rightarrow> u64 list" where
  "keccak_f a = foldl (\<lambda>a c. keccak_round c a) a rc"

text \<open>Where the in-place code keeps lane \<open>(x, y)\<close> after one more round: at \<open>(x, x + 2 y)\<close>.\<close>

definition unplace :: "u64 list \<Rightarrow> u64 list" where
  "unplace a = lanes (\<lambda>x y. lane a x (x + 2 * y))"

section \<open>Equivalence\<close>

lemma word_rotl_rotl: "0 < n \<Longrightarrow> n < 64 \<Longrightarrow> word_rotl n w = rotl n w"
proof (intro bit_eqI)
  fix k
  assume n: "0 < n" "n < 64" and "possible_bit TYPE(u64) k"
  then have k: "k < 64" by simp
  have "(k + (64 - n)) mod 64 = (if n \<le> k then k - n else k + (64 - n))"
  proof (cases "n \<le> k")
    case True
    then have eq: "k + (64 - n) = k - n + 64" using n by simp
    show ?thesis unfolding eq mod_add_self2 using True k by simp
  qed (use n k in simp)
  moreover have "bit (word_rotl n w) k = bit w ((k + (64 - n)) mod 64)"
    using n k by (simp add: bit_word_rotl_iff)
  moreover have "bit (rotl n w) k = (n \<le> k \<and> bit w (k - n) \<or> bit w (k + (64 - n)))"
    using k by (simp add: rotl_def bit_simps add.commute)
  moreover have "\<not> bit w (k + (64 - n))" if "n \<le> k"
    using n that by (auto dest: bit_imp_le_length)
  ultimately show "bit (word_rotl n w) k \<longleftrightarrow> bit (rotl n w) k" by auto
qed

lemma word_rotl_0: "word_rotl 0 (w :: u64) = w"
  by (intro bit_eqI) (auto simp: bit_word_rotl_iff)

lemma list25:
  assumes "length a = 25"
  obtains a0 a1 a2 a3 a4 a5 a6 a7 a8 a9 a10 a11 a12 a13 a14 a15 a16 a17 a18 a19 a20 a21 a22 a23 a24
  where "a = [a0, a1, a2, a3, a4, a5, a6, a7, a8, a9, a10, a11, a12, a13, a14, a15, a16, a17, a18, a19, a20, a21, a22, a23, a24]"
  using assms by (auto simp: length_Suc_conv eval_nat_numeral)

lemma upt_25: "[0..<25] = [0, 1, 2, 3, 4, 5, 6, 7, 8, 9, 10, 11, 12, 13, 14, 15, 16, 17, 18, 19, 20, 21, 22, 23, 24 :: nat]"
  by code_simp

lemma lanes_list:
  "lanes f = [f 0 0, f 1 0, f 2 0, f 3 0, f 4 0, f 0 1, f 1 1, f 2 1, f 3 1, f 4 1, f 0 2, f 1 2, f 2 2, f 3 2, f 4 2,
    f 0 3, f 1 3, f 2 3, f 3 3, f 4 3, f 0 4, f 1 4, f 2 4, f 3 4, f 4 4]"
  by (simp add: lanes_def upt_25)

lemmas keccak_ref = keccak_round_def iota_def chi_def pi_step_def rho_def theta_def parity_def rho_offset_def unplace_def
  lane_def lanes_list

text \<open>The round after the column sums are known.\<close>

definition add_columns :: "u64 \<times> u64 \<times> u64 \<times> u64 \<times> u64 \<Rightarrow> u64 list \<Rightarrow> u64 list" where
  "add_columns = (\<lambda>(d0, d1, d2, d3, d4) a. lanes (\<lambda>x y. lane a x y XOR [d0, d1, d2, d3, d4] ! x))"

lemma theta_columns: "theta a = add_columns (column_sums a) a"
  by (simp add: theta_def add_columns_def column_sums_def Let_def lanes_list parity_def lane_def word_rotl_rotl numeral_2_eq_2)

lemma column_sums_unplace: "column_sums (unplace a) = column_sums a"
  by (simp add: column_sums_def unplace_def lanes_list lane_def Let_def xor.assoc xor.commute xor.left_commute flip: numeral_2_eq_2)

lemmas keccak_steps = iota_def chi_def pi_step_def rho_def rho_offset_def add_columns_def unplace_def
  lane_def lanes_list word_rotl_rotl word_rotl_0 Let_def xor.assoc

lemma round_by_columns:
  assumes "length a = 25" and "\<And>a. column_sums (B a) = column_sums a"
    and "\<And>d0 d1 d2 d3 d4 a0 a1 a2 a3 a4 a5 a6 a7 a8 a9 a10 a11 a12 a13 a14 a15 a16 a17 a18 a19 a20 a21 a22 a23 a24 a.
      column_sums [a0, a1, a2, a3, a4, a5, a6, a7, a8, a9, a10, a11, a12, a13, a14, a15, a16, a17, a18, a19, a20, a21, a22, a23, a24]
        = (d0, d1, d2, d3, d4) \<Longrightarrow>
      R [a0, a1, a2, a3, a4, a5, a6, a7, a8, a9, a10, a11, a12, a13, a14, a15, a16, a17, a18, a19, a20, a21, a22, a23, a24]
        = iota c (chi (pi_step (rho (add_columns (d0, d1, d2, d3, d4)
            (B [a0, a1, a2, a3, a4, a5, a6, a7, a8, a9, a10, a11, a12, a13, a14, a15, a16, a17, a18, a19, a20, a21, a22, a23, a24])))))"
  shows "R a = keccak_round c (B a)"
proof -
  obtain d0 d1 d2 d3 d4 where d: "column_sums a = (d0, d1, d2, d3, d4)" by (metis prod_cases5)
  obtain a0 a1 a2 a3 a4 a5 a6 a7 a8 a9 a10 a11 a12 a13 a14 a15 a16 a17 a18 a19 a20 a21 a22 a23 a24 where
    a: "a = [a0, a1, a2, a3, a4, a5, a6, a7, a8, a9, a10, a11, a12, a13, a14, a15, a16, a17, a18, a19, a20, a21, a22, a23, a24]"
    using list25 [OF assms(1)] .
  show ?thesis
    unfolding keccak_round_def theta_columns assms(2) d unfolding a by (rule assms(3) [OF d [unfolded a]])
qed

lemma round1: "length a = 25 \<Longrightarrow> unplace (keccak_round1 i a) = keccak_round (rc ! i) (a)"
  by (rule round_by_columns [where R = "\<lambda>a. unplace (keccak_round1 i a)" and B = "\<lambda>a. a"])
    (simp_all only: column_sums_unplace, simp add: keccak_round1_def keccak_steps)

lemma round2: "length a = 25 \<Longrightarrow> unplace (unplace (keccak_round2 i a)) = keccak_round (rc ! (i + 1)) (unplace a)"
  by (rule round_by_columns [where R = "\<lambda>a. unplace (unplace (keccak_round2 i a))" and B = "\<lambda>a. unplace a"])
    (simp_all only: column_sums_unplace, simp add: keccak_round2_def keccak_steps)

lemma round3: "length a = 25 \<Longrightarrow> unplace (unplace (unplace (keccak_round3 i a))) = keccak_round (rc ! (i + 2)) (unplace (unplace a))"
  by (rule round_by_columns [where R = "\<lambda>a. unplace (unplace (unplace (keccak_round3 i a)))" and B = "\<lambda>a. unplace (unplace a)"])
    (simp_all only: column_sums_unplace, simp add: keccak_round3_def keccak_steps)

lemma round4: "length a = 25 \<Longrightarrow> unplace (unplace (unplace (unplace (keccak_round4 i a)))) = keccak_round (rc ! (i + 3)) (unplace (unplace (unplace a)))"
  by (rule round_by_columns [where R = "\<lambda>a. unplace (unplace (unplace (unplace (keccak_round4 i a))))" and B = "\<lambda>a. unplace (unplace (unplace a))"])
    (simp_all only: column_sums_unplace, simp add: keccak_round4_def keccak_steps)

lemma length_keccak_round: "length a = 25 \<Longrightarrow> length (keccak_round c a) = 25"
  by (simp add: keccak_round_def iota_def chi_def lanes_def)

lemma length_rounds [simp]:
  "length (keccak_round1 i a) = length a" "length (keccak_round2 i a) = length a"
  "length (keccak_round3 i a) = length a" "length (keccak_round4 i a) = length a"
  by (simp_all add: keccak_round1_def keccak_round2_def keccak_round3_def keccak_round4_def Let_def split: prod.split)

lemma length_unplace [simp]: "length (unplace a) = 25"
  by (simp add: unplace_def lanes_def)

lemma unplace_4: "length a = 25 \<Longrightarrow> unplace (unplace (unplace (unplace a))) = a"
  by (rule list25 [of a]) (simp_all add: unplace_def lane_def lanes_list)

lemma four_rounds:
  assumes "length a = 25"
  shows "keccak_round4 i (keccak_round3 i (keccak_round2 i (keccak_round1 i a)))
    = keccak_round (rc ! (i + 3)) (keccak_round (rc ! (i + 2)) (keccak_round (rc ! (i + 1)) (keccak_round (rc ! i) a)))"
proof -
  let ?a1 = "keccak_round1 i a"
  let ?a2 = "keccak_round2 i ?a1"
  let ?a3 = "keccak_round3 i ?a2"
  have "keccak_round4 i ?a3 = unplace (unplace (unplace (unplace (keccak_round4 i ?a3))))"
    using assms by (simp add: unplace_4)
  also have "\<dots> = keccak_round (rc ! (i + 3)) (unplace (unplace (unplace ?a3)))"
    using assms by (intro round4) simp
  also have "unplace (unplace (unplace ?a3)) = keccak_round (rc ! (i + 2)) (unplace (unplace ?a2))"
    using assms by (intro round3) simp
  also have "unplace (unplace ?a2) = keccak_round (rc ! (i + 1)) (unplace ?a1)"
    using assms by (intro round2) simp
  also have "unplace ?a1 = keccak_round (rc ! i) a"
    using assms by (rule round1)
  finally show ?thesis .
qed

lemma keccakF1600_keccak_f:
  assumes "length a = 25"
  shows "keccakF1600 a = keccak_f a"
proof -
  have rc: "rc = [rc ! 0, rc ! 1, rc ! 2, rc ! 3, rc ! 4, rc ! 5, rc ! 6, rc ! 7, rc ! 8, rc ! 9, rc ! 10, rc ! 11,
      rc ! 12, rc ! 13, rc ! 14, rc ! 15, rc ! 16, rc ! 17, rc ! 18, rc ! 19, rc ! 20, rc ! 21, rc ! 22, rc ! 23]"
    by code_simp
  show ?thesis
    unfolding keccakF1600_def keccak_f_def
    by (subst rc) (simp add: four_rounds assms length_keccak_round numeral_2_eq_2)
qed

text \<open>
  C16: The permutation.  The unrolled, in-place \<^verbatim>\<open>keccakF1600\<close> computes the 24 textbook rounds
  (theta, rho, pi, chi, iota) on every state of 25 lanes.
\<close>

theorem keccakF1600_correct:
  assumes "length a = 25"
  shows "keccakF1600 a = keccak_f a"
  using assms by (rule keccakF1600_keccak_f)

theorem keccakF1600_correct_witness:
  "keccakF1600 (replicate 25 0) = keccak_f (replicate 25 0)"
  by (rule keccakF1600_correct) simp

end
