(* ===== verification/Sha3.thy ===== *)
theory Sha3
  imports Keccak_F
begin

text \<open>
  The sponge of \<^verbatim>\<open>src/common/crypto/sha3\<close> (\<^verbatim>\<open>sha3.go\<close>, \<^verbatim>\<open>xor_generic.go\<close>, \<^verbatim>\<open>hashes.go\<close>, \<^verbatim>\<open>shake.go\<close>) and the Keccak functions
  of \<^verbatim>\<open>src/common/crypto/crypto.go\<close>.  The buffer is the part of the storage it points to: while absorbing a
  prefix, while squeezing a suffix of the first \<open>rate\<close> bytes.
\<close>

section \<open>The sponge\<close>

datatype spongeDirection = spongeAbsorbing | spongeSqueezing

record sponge =
  sp_a :: "u64 list"
  sp_buf :: bytes
  sp_rate :: nat
  sp_dsbyte :: byte
  sp_outputLen :: nat
  sp_state :: spongeDirection

text \<open>\<^verbatim>\<open>binary.LittleEndian.Uint64\<close> of the first eight bytes and \<^verbatim>\<open>PutUint64\<close>.\<close>

definition le64 :: "bytes \<Rightarrow> u64" where
  "le64 b = foldr (\<lambda>x acc. push_bit 8 acc OR ucast x) (take 8 b) 0"

definition le64_bytes :: "u64 \<Rightarrow> bytes" where
  "le64_bytes w = rev (wbytes 8 w)"

fun xorIn_loop :: "nat \<Rightarrow> nat \<Rightarrow> u64 list \<Rightarrow> bytes \<Rightarrow> u64 list" where
  "xorIn_loop 0 i a buf = a"
| "xorIn_loop (Suc n) i a buf = xorIn_loop n (i + 1) (a[i := a ! i XOR le64 buf]) (drop 8 buf)"

definition xorIn :: "u64 list \<Rightarrow> bytes \<Rightarrow> u64 list" where
  "xorIn a buf = xorIn_loop (length buf div 8) 0 a buf"

fun copyOut :: "u64 list \<Rightarrow> nat \<Rightarrow> bytes \<Rightarrow> bytes" where
  "copyOut a i b = (if length b \<ge> 8 then le64_bytes (a ! i) @ copyOut a (i + 1) (drop 8 b) else b)"

declare copyOut.simps [simp del]

lemma length_le64_bytes [simp]: "length (le64_bytes w) = 8"
  by (simp add: le64_bytes_def)

lemma length_copyOut [simp]: "length (copyOut a i b) = length b"
  by (induction a i b rule: copyOut.induct) (subst copyOut.simps, simp)

definition Reset :: "sponge \<Rightarrow> sponge" where
  "Reset d = d\<lparr>sp_a := replicate 25 0, sp_state := spongeAbsorbing, sp_buf := []\<rparr>"

definition permute :: "sponge \<Rightarrow> sponge" where
  "permute d =
     (case sp_state d of
        spongeAbsorbing \<Rightarrow> d\<lparr>sp_a := keccakF1600 (xorIn (sp_a d) (sp_buf d)), sp_buf := []\<rparr>
      | spongeSqueezing \<Rightarrow>
          (let a = keccakF1600 (sp_a d) in d\<lparr>sp_a := a, sp_buf := copyOut a 0 (replicate (sp_rate d) 0)\<rparr>))"

lemma permute_squeezing: "sp_state d = spongeSqueezing \<Longrightarrow> length (sp_buf (permute d)) = sp_rate d"
  by (simp add: permute_def Let_def)

text \<open>The bytes \<open>copyOut\<close> overwrites are of no account while the rate is a multiple of eight, as all rates are.\<close>

definition padAndPermute :: "byte \<Rightarrow> sponge \<Rightarrow> sponge" where
  "padAndPermute dsbyte d =
     (let buf = sp_buf d @ [dsbyte];
          buf = buf @ replicate (sp_rate d - length buf) 0;
          buf = buf[sp_rate d - 1 := buf ! (sp_rate d - 1) XOR 0x80];
          d = permute (d\<lparr>sp_buf := buf\<rparr>)
      in d\<lparr>sp_state := spongeSqueezing, sp_buf := copyOut (sp_a d) 0 (replicate (sp_rate d) 0)\<rparr>)"

text \<open>
  The loop of \<open>Write\<close>, entered only while absorbing.  With a rate of zero it does not end; a buffer longer than the
  rate makes a slice bound negative.
\<close>

function Write_loop :: "sponge \<Rightarrow> bytes \<Rightarrow> ('e, sponge) res" where
  "Write_loop d p =
     (if p = [] then Ok d
      else if sp_rate d = 0 \<or> sp_state d \<noteq> spongeAbsorbing then Diverge
      else if sp_buf d = [] \<and> length p \<ge> sp_rate d then
        Write_loop (d\<lparr>sp_a := keccakF1600 (xorIn (sp_a d) (take (sp_rate d) p))\<rparr>) (drop (sp_rate d) p)
      else if length (sp_buf d) > sp_rate d then Panic
      else
        let todo = sp_rate d - length (sp_buf d);
            todo = (if todo > length p then length p else todo);
            buf = sp_buf d @ take todo p;
            d' = d\<lparr>sp_buf := buf\<rparr>
        in Write_loop (if length buf = sp_rate d then permute d' else d') (drop todo p))"
  by pat_completeness auto
termination
  by (relation "measure (\<lambda>(d, p). 2 * length p + (if length (sp_buf d) = sp_rate d then 1 else 0))")
    (auto simp: permute_def)

definition Write :: "sponge \<Rightarrow> bytes \<Rightarrow> ('e, nat \<times> sponge) res" where
  "Write d p =
     (if sp_state d \<noteq> spongeAbsorbing then Panic else res_map (\<lambda>d. (length p, d)) (Write_loop d p))"

text \<open>
  The squeezing loop of \<open>Read\<close> for the \<open>n\<close> bytes of \<open>out\<close>, entered only while squeezing; it too does not end with a
  rate of zero.
\<close>

function Read_loop :: "sponge \<Rightarrow> nat \<Rightarrow> ('e, bytes \<times> sponge) res" where
  "Read_loop d out =
     (if out = 0 then Ok ([], d)
      else if sp_rate d = 0 \<or> sp_state d \<noteq> spongeSqueezing then Diverge
      else
        let n = min out (length (sp_buf d));
            d' = d\<lparr>sp_buf := drop n (sp_buf d)\<rparr>
        in res_map (\<lambda>(bs, d''). (take n (sp_buf d) @ bs, d''))
             (Read_loop (if sp_buf d' = [] then permute d' else d') (out - n)))"
  by pat_completeness auto
termination
proof (relation "measure (\<lambda>(d, n). 2 * n + (if sp_buf d = [] then 1 else 0))", goal_cases)
  case (2 d out n d')
  then have "sp_buf (permute d') \<noteq> []"
    using permute_squeezing [of d'] by (auto simp flip: length_0_conv)
  with 2 show ?case by (cases "sp_buf d") (auto split: if_splits)
qed simp

definition Read :: "sponge \<Rightarrow> nat \<Rightarrow> ('e, bytes \<times> sponge) res" where
  "Read d n = Read_loop (if sp_state d = spongeAbsorbing then padAndPermute (sp_dsbyte d) d else d) n"

text \<open>\<open>Sum\<close> works on a clone, so the state it is called on is unchanged.\<close>

definition Sum :: "sponge \<Rightarrow> bytes \<Rightarrow> ('e, bytes) res" where
  "Sum d inp = res_map (\<lambda>(hash, _). inp @ hash) (Read d (sp_outputLen d))"

section \<open>The hash functions\<close>

definition new_sponge :: "nat \<Rightarrow> nat \<Rightarrow> byte \<Rightarrow> sponge" where
  "new_sponge rate outputLen dsbyte =
     \<lparr>sp_a = replicate 25 0, sp_buf = [], sp_rate = rate, sp_dsbyte = dsbyte, sp_outputLen = outputLen,
      sp_state = spongeAbsorbing\<rparr>"

definition NewKeccak256 :: sponge where "NewKeccak256 = new_sponge 136 32 0x01"
definition NewKeccak512 :: sponge where "NewKeccak512 = new_sponge 72 64 0x01"
definition New224 :: sponge where "New224 = new_sponge 144 28 0x06"
definition New256 :: sponge where "New256 = new_sponge 136 32 0x06"
definition New384 :: sponge where "New384 = new_sponge 104 48 0x06"
definition New512 :: sponge where "New512 = new_sponge 72 64 0x06"
definition NewShake128 :: sponge where "NewShake128 = new_sponge 168 0 0x1f"
definition NewShake256 :: sponge where "NewShake256 = new_sponge 136 0 0x1f"

fun Writes :: "sponge \<Rightarrow> bytes list \<Rightarrow> ('e, sponge) res" where
  "Writes d [] = Ok d"
| "Writes d (b # data) = res_bind (Write d b) (\<lambda>(_, d'). Writes d' data)"

definition Keccak256 :: "bytes list \<Rightarrow> ('e, bytes) res" where
  "Keccak256 data = res_bind (Writes NewKeccak256 data) (\<lambda>d. Sum d [])"

definition Keccak512 :: "bytes list \<Rightarrow> ('e, bytes) res" where
  "Keccak512 data = res_bind (Writes NewKeccak512 data) (\<lambda>d. Sum d [])"

definition Sum224 :: "bytes \<Rightarrow> ('e, bytes) res" where
  "Sum224 data = res_bind (Write New224 data) (\<lambda>(_, h). Sum h [])"
definition Sum256 :: "bytes \<Rightarrow> ('e, bytes) res" where
  "Sum256 data = res_bind (Write New256 data) (\<lambda>(_, h). Sum h [])"
definition Sum384 :: "bytes \<Rightarrow> ('e, bytes) res" where
  "Sum384 data = res_bind (Write New384 data) (\<lambda>(_, h). Sum h [])"
definition Sum512 :: "bytes \<Rightarrow> ('e, bytes) res" where
  "Sum512 data = res_bind (Write New512 data) (\<lambda>(_, h). Sum h [])"

definition ShakeSum128 :: "nat \<Rightarrow> bytes \<Rightarrow> ('e, bytes) res" where
  "ShakeSum128 n data = res_bind (Write NewShake128 data) (\<lambda>(_, h). res_map fst (Read h n))"
definition ShakeSum256 :: "nat \<Rightarrow> bytes \<Rightarrow> ('e, bytes) res" where
  "ShakeSum256 n data = res_bind (Write NewShake256 data) (\<lambda>(_, h). res_map fst (Read h n))"

section \<open>The reference sponge\<close>

definition pad :: "nat \<Rightarrow> byte \<Rightarrow> bytes \<Rightarrow> bytes" where
  "pad rate ds m =
     (let q = rate - length m mod rate
      in m @ (if q = 1 then [ds XOR 0x80] else ds # replicate (q - 2) 0 @ [0x80]))"

text \<open>The state as bytes, and a block added to it.\<close>

definition state_bytes :: "u64 list \<Rightarrow> bytes" where
  "state_bytes a = concat (map le64_bytes a)"

definition xor_block :: "u64 list \<Rightarrow> bytes \<Rightarrow> u64 list" where
  "xor_block a b = map (\<lambda>i. if 8 * i + 8 \<le> length b then a ! i XOR le64 (drop (8 * i) b) else a ! i) [0..<length a]"

fun absorb :: "nat \<Rightarrow> u64 list \<Rightarrow> bytes \<Rightarrow> u64 list" where
  "absorb rate a m =
     (if rate = 0 \<or> length m < rate then a
      else absorb rate (keccak_f (xor_block a (take rate m))) (drop rate m))"

fun squeeze :: "nat \<Rightarrow> u64 list \<Rightarrow> nat \<Rightarrow> bytes" where
  "squeeze rate a n =
     (if rate = 0 \<or> n \<le> rate then take n (state_bytes a)
      else take rate (state_bytes a) @ squeeze rate (keccak_f a) (n - rate))"

definition sponge_hash :: "nat \<Rightarrow> byte \<Rightarrow> nat \<Rightarrow> bytes \<Rightarrow> bytes" where
  "sponge_hash rate ds n m = squeeze rate (absorb rate (replicate 25 0) (pad rate ds m)) n"

declare absorb.simps [simp del] squeeze.simps [simp del] Write_loop.simps [simp del] Read_loop.simps [simp del]

section \<open>Equivalence\<close>

lemma length_xorIn_loop [simp]: "length (xorIn_loop n i a buf) = length a"
  by (induction n i a buf rule: xorIn_loop.induct) simp_all

lemma xorIn_loop_nth:
  "j < length a \<Longrightarrow>
   xorIn_loop n i a buf ! j = (if i \<le> j \<and> j < i + n then a ! j XOR le64 (drop (8 * (j - i)) buf) else a ! j)"
proof (induction n i a buf rule: xorIn_loop.induct)
  case (2 n i a buf)
  consider "j = i" | "j < i" | "i < j" by linarith
  then show ?case
  proof cases
    case 3
    then have "8 + 8 * (j - Suc i) = 8 * (j - i)" by simp
    with 2 3 show ?thesis by (simp add: add.commute)
  qed (use 2 in simp_all)
qed auto

lemma xorIn_xor_block: "xorIn a b = xor_block a b"
proof (rule nth_equalityI)
  fix j
  assume "j < length (xorIn a b)"
  moreover have "8 * j + 8 \<le> length b \<longleftrightarrow> j < length b div 8" by linarith
  ultimately show "xorIn a b ! j = xor_block a b ! j"
    by (simp add: xorIn_def xor_block_def xorIn_loop_nth)
qed (simp add: xorIn_def xor_block_def)

lemma length_xor_block [simp]: "length (xor_block a b) = length a"
  by (simp add: xor_block_def)

lemma length_keccak_f [simp]: "length a = 25 \<Longrightarrow> length (keccak_f a) = 25"
proof -
  have "length a = 25 \<Longrightarrow> length (foldl (\<lambda>a c. keccak_round c a) a cs) = 25" for cs
    by (induction cs arbitrary: a) (simp_all add: length_keccak_round)
  then show "length a = 25 \<Longrightarrow> length (keccak_f a) = 25" by (simp add: keccak_f_def)
qed

lemma length_absorb [simp]: "length a = 25 \<Longrightarrow> length (absorb rate a m) = 25"
  by (induction rate a m rule: absorb.induct) (subst absorb.simps, simp)

lemma absorb_short: "length m < rate \<Longrightarrow> absorb rate a m = a"
  by (subst absorb.simps) simp

lemma absorb_step:
  "0 < rate \<Longrightarrow> rate \<le> length m \<Longrightarrow> absorb rate a m = absorb rate (keccak_f (xor_block a (take rate m))) (drop rate m)"
  by (subst absorb.simps) simp

lemma absorb_append:
  "rate dvd length m \<Longrightarrow> absorb rate a (m @ p) = absorb rate (absorb rate a m) p"
proof (induction rate a m rule: absorb.induct)
  case (1 rate a m)
  show ?case
  proof (cases "rate = 0 \<or> length m < rate")
    case True
    with 1(2) have "rate = 0 \<or> m = []" by (auto dest: dvd_imp_le)
    then show ?thesis
    proof
      assume "rate = 0"
      then show ?thesis by (subst (1 2 3) absorb.simps) simp
    next
      assume "m = []"
      then show ?thesis by (cases "rate = 0") (simp_all add: absorb_short absorb.simps [of 0])
    qed
  next
    case False
    then have "rate dvd length (drop rate m)" using 1(2) by (simp add: dvd_minus_self)
    with 1(1) [OF False] False show ?thesis
      using absorb_step [of rate "m @ p" a] absorb_step [of rate m a] by simp
  qed
qed

lemma absorb_block:
  assumes "rate dvd length m" "length b = rate" "0 < rate"
  shows "absorb rate a (m @ b) = keccak_f (xor_block (absorb rate a m) b)"
  unfolding absorb_append [OF assms(1)] using assms(2,3)
  by (subst absorb.simps) (simp add: absorb_short)

text \<open>The state after absorbing the message \<open>m\<close>: whole blocks absorbed, the rest buffered.\<close>

definition absorbed :: "sponge \<Rightarrow> bytes \<Rightarrow> sponge \<Rightarrow> bool" where
  "absorbed d0 m d \<longleftrightarrow> (\<exists>full. m = full @ sp_buf d \<and> sp_rate d0 dvd length full \<and> length (sp_buf d) < sp_rate d0
     \<and> sp_a d = absorb (sp_rate d0) (replicate 25 0) full \<and> sp_rate d = sp_rate d0 \<and> sp_dsbyte d = sp_dsbyte d0
     \<and> sp_outputLen d = sp_outputLen d0 \<and> sp_state d = spongeAbsorbing)"

lemma absorbedI:
  "m = full @ sp_buf d \<Longrightarrow> sp_rate d0 dvd length full \<Longrightarrow> length (sp_buf d) < sp_rate d0
   \<Longrightarrow> sp_a d = absorb (sp_rate d0) (replicate 25 0) full \<Longrightarrow> sp_rate d = sp_rate d0 \<Longrightarrow> sp_dsbyte d = sp_dsbyte d0
   \<Longrightarrow> sp_outputLen d = sp_outputLen d0 \<Longrightarrow> sp_state d = spongeAbsorbing \<Longrightarrow> absorbed d0 m d"
  unfolding absorbed_def by blast

lemma Write_loop_absorbed:
  assumes "absorbed d0 m d"
  shows "\<exists>d'. Write_loop d p = (Ok d' :: ('e, sponge) res) \<and> absorbed d0 (m @ p) d'"
  using assms
proof (induction "length p" arbitrary: d m p rule: less_induct)
  case less
  define r where "r = sp_rate d0"
  define z where "z = replicate 25 (0 :: u64)"
  have lz: "length z = 25" by (simp add: z_def)
  from less.prems obtain full where m: "m = full @ sp_buf d" "r dvd length full" "length (sp_buf d) < r"
    and a: "sp_a d = absorb r z full" and d: "sp_rate d = r" "sp_dsbyte d = sp_dsbyte d0"
      "sp_outputLen d = sp_outputLen d0" "sp_state d = spongeAbsorbing"
    unfolding absorbed_def r_def z_def by blast
  have r: "0 < r" using m(3) by simp
  show ?case
  proof (cases "p = []")
    case True
    with less.prems show ?thesis by (simp add: Write_loop.simps)
  next
    case p: False
    show ?thesis
    proof (cases "sp_buf d = [] \<and> length p \<ge> r")
      case True
      let ?d' = "d\<lparr>sp_a := keccakF1600 (xorIn (sp_a d) (take r p))\<rparr>"
      have "keccakF1600 (xorIn (sp_a d) (take r p)) = absorb r z (full @ take r p)"
        using True r m lz a by (simp add: xorIn_xor_block keccakF1600_keccak_f absorb_block)
      then have "absorbed d0 (full @ take r p) ?d'"
        using True r m d by (intro absorbedI [of _ "full @ take r p"]) (simp_all add: r_def z_def)
      moreover have "length (drop r p) < length p" using r p by (simp add: diff_less)
      ultimately have "\<exists>d''. Write_loop ?d' (drop r p) = (Ok d'' :: ('e, sponge) res) \<and> absorbed d0 ((full @ take r p) @ drop r p) d''"
        by (intro less.hyps) simp_all
      moreover have step: "Write_loop d p = Write_loop ?d' (drop r p)"
        using True p r d by (subst Write_loop.simps) simp
      ultimately show ?thesis unfolding step using True m(1) by simp
    next
      case False
      define todo where "todo = (if r - length (sp_buf d) > length p then length p else r - length (sp_buf d))"
      define buf where "buf = sp_buf d @ take todo p"
      define d' where "d' = (if length buf = r then permute (d\<lparr>sp_buf := buf\<rparr>) else d\<lparr>sp_buf := buf\<rparr>)"
      have c: "(p = []) = False" "(sp_rate d = 0 \<or> sp_state d \<noteq> spongeAbsorbing) = False"
        "(sp_buf d = [] \<and> sp_rate d \<le> length p) = False" "(sp_rate d < length (sp_buf d)) = False"
        using p False r d m(3) by auto
      have step: "Write_loop d p = Write_loop d' (drop todo p)"
        by (rule trans [OF Write_loop.simps], simp only: c if_False, simp only: Let_def d(1) d'_def buf_def todo_def)
      have lb: "length buf \<le> r" using m(3) by (auto simp: buf_def todo_def)
      have "absorbed d0 (m @ take todo p) d'"
      proof (cases "length buf = r")
        case True
        then have "keccakF1600 (xorIn (sp_a d) buf) = absorb r z (full @ buf)"
          using r m lz a by (simp add: xorIn_xor_block keccakF1600_keccak_f absorb_block)
        then show ?thesis
          using True r m d by (intro absorbedI [of _ "full @ buf"]) (simp_all add: d'_def permute_def r_def z_def buf_def)
      next
        case False
        then show ?thesis
          using r m d a lb by (intro absorbedI [of _ full]) (simp_all add: d'_def r_def z_def buf_def)
      qed
      moreover have "0 < todo" "0 < length p" using p m(3) by (simp_all add: todo_def)
      ultimately have "\<exists>d''. Write_loop d' (drop todo p) = (Ok d'' :: ('e, sponge) res) \<and> absorbed d0 ((m @ take todo p) @ drop todo p) d''"
        by (intro less.hyps) simp_all
      then show ?thesis unfolding step by simp
    qed
  qed
qed

lemma Writes_absorbed:
  "absorbed d0 m d \<Longrightarrow> \<exists>d'. Writes d data = (Ok d' :: ('e, sponge) res) \<and> absorbed d0 (m @ concat data) d'"
proof (induction data arbitrary: m d)
  case (Cons b data)
  from Write_loop_absorbed [OF Cons.prems, of b] obtain d1
    where "Write_loop d b = (Ok d1 :: ('e, sponge) res)" "absorbed d0 (m @ b) d1" by blast
  moreover have "sp_state d = spongeAbsorbing" using Cons.prems by (auto simp: absorbed_def)
  ultimately show ?case using Cons.IH [of "m @ b" d1] by (simp add: Write_def)
qed simp

text \<open>Reading out the state.\<close>

lemma copyOut_words:
  "i + k \<le> length a \<Longrightarrow> copyOut a i (replicate (8 * k) 0) = take (8 * k) (state_bytes (drop i a))"
proof (induction k arbitrary: i)
  case (Suc k)
  then have "drop i a = a ! i # drop (Suc i) a" by (simp add: Cons_nth_drop_Suc)
  with Suc.IH [of "Suc i"] Suc.prems show ?case
    by (subst copyOut.simps) (simp add: state_bytes_def drop_replicate)
qed (simp add: copyOut.simps)

lemma copyOut_state:
  assumes "length a = 25" "8 dvd rate" "rate \<le> 200"
  shows "copyOut a 0 (replicate rate 0) = take rate (state_bytes a)"
  using assms copyOut_words [of 0 "rate div 8" a] by auto

lemma length_state_bytes: "length (state_bytes a) = 8 * length a"
  by (induction a) (simp_all add: state_bytes_def)

lemma Read_loop_squeeze:
  assumes "sp_state d = spongeSqueezing" "length (sp_a d) = 25" "8 dvd sp_rate d" "0 < sp_rate d" "sp_rate d \<le> 200"
    and "k < sp_rate d" "sp_buf d = drop k (take (sp_rate d) (state_bytes (sp_a d)))"
  shows "\<exists>d'. (Read_loop d n :: ('e, bytes \<times> sponge) res) = Ok (drop k (squeeze (sp_rate d) (sp_a d) (k + n)), d')"
  using assms
proof (induction n arbitrary: d k rule: less_induct)
  case (less n)
  let ?r = "sp_rate d"
  let ?sb = "state_bytes (sp_a d)"
  have lb: "length (sp_buf d) = ?r - k" using less.prems by (simp add: length_state_bytes)
  show ?case
  proof (cases "n < ?r - k")
    case True
    then have "squeeze ?r (sp_a d) (k + n) = take (k + n) ?sb" by (subst squeeze.simps) auto
    moreover have "take n (sp_buf d) = drop k (take (k + n) ?sb)"
      unfolding less.prems(7) using True by (simp add: take_drop min_def add.commute)
    moreover have "\<exists>d'. Read_loop d n = (Ok (take n (sp_buf d), d') :: ('e, bytes \<times> sponge) res)"
    proof (cases "n = 0")
      case True
      then show ?thesis by (simp add: Read_loop.simps)
    next
      case n: False
      have "min n (length (sp_buf d)) = n" "drop n (sp_buf d) \<noteq> []" using True lb by simp_all
      then show ?thesis
        using n less.prems(1,4) by (subst Read_loop.simps) (simp add: Let_def Read_loop.simps [of _ 0])
    qed
    ultimately show ?thesis by simp
  next
    case False
    define d1 where "d1 = permute (d\<lparr>sp_buf := []\<rparr>)"
    have a1: "sp_a d1 = keccak_f (sp_a d)" using less.prems by (simp add: d1_def permute_def Let_def keccakF1600_keccak_f)
    have d1: "sp_state d1 = spongeSqueezing" "sp_rate d1 = ?r" "sp_buf d1 = drop 0 (take ?r (state_bytes (sp_a d1)))"
      using less.prems by (simp_all add: d1_def permute_def Let_def keccakF1600_keccak_f copyOut_state)
    have l1: "length (sp_a d1) = 25" using less.prems by (simp add: a1)
    have "n - (?r - k) < n" using False less.prems by simp
    from less.IH [OF this d1(1) l1, of 0] less.prems d1 obtain d'
      where "(Read_loop d1 (n - (?r - k)) :: ('e, bytes \<times> sponge) res) = Ok (squeeze ?r (keccak_f (sp_a d)) (n - (?r - k)), d')"
      by (auto simp: a1)
    moreover have "(Read_loop d n :: ('e, bytes \<times> sponge) res) = res_map (\<lambda>(bs, d''). (sp_buf d @ bs, d'')) (Read_loop d1 (n - (?r - k)))"
    proof -
      have "n \<noteq> 0" "min n (length (sp_buf d)) = length (sp_buf d)" using False less.prems lb by auto
      then show ?thesis
        using less.prems(1,4) lb by (subst Read_loop.simps) (simp add: Let_def d1_def)
    qed
    moreover have "drop k (squeeze ?r (sp_a d) (k + n)) = sp_buf d @ squeeze ?r (keccak_f (sp_a d)) (n - (?r - k))"
    proof (cases "k + n = ?r")
      case True
      moreover have "squeeze ?r a 0 = []" for a by (subst squeeze.simps) simp
      ultimately show ?thesis using less.prems by (subst squeeze.simps) simp
    next
      case ne: False
      have "k + n - ?r = n - (?r - k)" "\<not> k + n \<le> ?r" using less.prems ne False by auto
      with ne False less.prems show ?thesis by (subst squeeze.simps) (simp add: length_state_bytes)
    qed
    ultimately show ?thesis by simp
  qed
qed

text \<open>Padding.\<close>

definition last_block :: "nat \<Rightarrow> byte \<Rightarrow> bytes \<Rightarrow> bytes" where
  "last_block rate ds rest =
     (let q = rate - length rest in rest @ (if q = 1 then [ds XOR 0x80] else ds # replicate (q - 2) 0 @ [0x80]))"

lemma pad_last_block:
  "rate dvd length full \<Longrightarrow> length rest < rate \<Longrightarrow> pad rate ds (full @ rest) = full @ last_block rate ds rest"
  by (auto simp: pad_def last_block_def Let_def elim!: dvdE)

lemma pad_buffer:
  assumes "length buf < rate"
  shows "(let buf = buf @ [ds]; buf = buf @ replicate (rate - length buf) 0 in buf[rate - 1 := buf ! (rate - 1) XOR 0x80])
    = last_block rate ds buf"
proof (cases "rate = Suc (length buf)")
  case True
  then show ?thesis by (simp add: last_block_def Let_def nth_append list_update_append)
next
  case False
  with assms obtain j where j: "rate = length buf + 2 + j" by (metis add.commute add_2_eq_Suc less_iff_Suc_add Suc_lessI add_Suc_right)
  have "(replicate (Suc j) (0 :: byte))[j := 0x80] = replicate j 0 @ [0x80]"
    unfolding replicate_Suc replicate_append_same [symmetric] by (simp add: list_update_append)
  then show ?thesis
    unfolding j by (simp add: last_block_def Let_def nth_append list_update_append Suc_diff_le del: replicate_Suc)
qed

lemma length_last_block: "length rest < rate \<Longrightarrow> length (last_block rate ds rest) = rate"
  by (auto simp: last_block_def Let_def)

lemma Sum_absorbed:
  assumes d: "absorbed d0 m d" and r: "8 dvd sp_rate d0" "sp_rate d0 \<le> 200"
  shows "(\<exists>d'. Read d n = Ok (sponge_hash (sp_rate d0) (sp_dsbyte d0) n m, d'))"
proof -
  define r where "r = sp_rate d0"
  define z where "z = replicate 25 (0 :: u64)"
  have lz: "length z = 25" by (simp add: z_def)
  from d obtain full where m: "m = full @ sp_buf d" "r dvd length full" "length (sp_buf d) < r"
    and a: "sp_a d = absorb r z full" and dd: "sp_rate d = r" "sp_dsbyte d = sp_dsbyte d0" "sp_state d = spongeAbsorbing"
    unfolding absorbed_def r_def z_def by blast
  define b where "b = last_block r (sp_dsbyte d0) (sp_buf d)"
  have lb: "length b = r" using length_last_block [OF m(3)] by (simp add: b_def)
  define a' where "a' = keccak_f (xor_block (sp_a d) b)"
  have a': "length a' = 25" "a' = absorb r z (pad r (sp_dsbyte d0) m)"
    using absorb_block [OF m(2) lb, of z] m lz a by (simp_all add: a'_def pad_last_block b_def)
  define d1 where "d1 = padAndPermute (sp_dsbyte d) d"
  have "d1 = (let d2 = permute (d\<lparr>sp_buf := b\<rparr>) in d2\<lparr>sp_state := spongeSqueezing, sp_buf := copyOut (sp_a d2) 0 (replicate (sp_rate d2) 0)\<rparr>)"
    unfolding d1_def padAndPermute_def b_def using pad_buffer [OF m(3), of "sp_dsbyte d0"] dd by (simp add: Let_def)
  then have d1: "sp_state d1 = spongeSqueezing" "sp_a d1 = a'" "sp_rate d1 = r" "sp_buf d1 = drop 0 (take r (state_bytes a'))"
    using dd a lz r a'(1) by (simp_all add: Let_def permute_def xorIn_xor_block keccakF1600_keccak_f a'_def copyOut_state r_def)
  have "\<exists>d'. Read_loop d1 n = Ok (drop 0 (squeeze (sp_rate d1) (sp_a d1) (0 + n)), d')"
    by (rule Read_loop_squeeze) (use d1 a' r m(3) in \<open>auto simp: r_def\<close>)
  then show ?thesis
    using dd d1 a'(2) by (auto simp: Read_def d1_def sponge_hash_def r_def z_def)
qed

lemma absorbed_new: "0 < rate \<Longrightarrow> absorbed (new_sponge rate outputLen ds) [] (new_sponge rate outputLen ds)"
  by (rule absorbedI [of _ "[]"]) (simp_all add: new_sponge_def absorb_short)

lemma sponge_hash_writes:
  assumes "0 < rate" "8 dvd rate" "rate \<le> 200"
  shows "\<exists>d d'. Writes (new_sponge rate outputLen ds) data = (Ok d :: ('e, sponge) res)
    \<and> sp_outputLen d = outputLen \<and> Read d n = (Ok (sponge_hash rate ds n (concat data), d') :: ('e, bytes \<times> sponge) res)"
proof -
  let ?d0 = "new_sponge rate outputLen ds"
  from Writes_absorbed [OF absorbed_new [OF assms(1)], of outputLen ds data] obtain d
    where d: "Writes ?d0 data = (Ok d :: ('e, sponge) res)" "absorbed ?d0 (concat data) d" by auto
  moreover have "sp_outputLen d = outputLen" using d(2) by (auto simp: absorbed_def new_sponge_def)
  moreover have "\<exists>d'. Read d n = (Ok (sponge_hash (sp_rate ?d0) (sp_dsbyte ?d0) n (concat data), d') :: ('e, bytes \<times> sponge) res)"
    by (rule Sum_absorbed [OF d(2)]) (use assms in \<open>simp_all add: new_sponge_def\<close>)
  ultimately show ?thesis by (auto simp: new_sponge_def)
qed

lemma Writes_Sum:
  assumes "0 < rate" "8 dvd rate" "rate \<le> 200"
  shows "res_bind (Writes (new_sponge rate outputLen ds) data) (\<lambda>d. Sum d [])
    = (Ok (sponge_hash rate ds outputLen (concat data)) :: ('e, bytes) res)"
  using sponge_hash_writes [OF assms, of outputLen ds data outputLen, where 'e = 'e] by (auto simp: Sum_def)

lemma Write_Sum:
  assumes "0 < rate" "8 dvd rate" "rate \<le> 200"
  shows "res_bind (Write (new_sponge rate outputLen ds) data) (\<lambda>(_, h). Sum h [])
    = (Ok (sponge_hash rate ds outputLen data) :: ('e, bytes) res)"
  using Writes_Sum [OF assms, of outputLen ds "[data]", where 'e = 'e]
  by (cases "Write (new_sponge rate outputLen ds) data :: ('e, nat \<times> sponge) res") (auto split: prod.splits)

lemma Write_Read:
  assumes "0 < rate" "8 dvd rate" "rate \<le> 200"
  shows "res_bind (Write (new_sponge rate 0 ds) data) (\<lambda>(_, h). res_map fst (Read h n))
    = (Ok (sponge_hash rate ds n data) :: ('e, bytes) res)"
  using sponge_hash_writes [OF assms, of 0 ds "[data]" n, where 'e = 'e]
  by (cases "Write (new_sponge rate 0 ds) data :: ('e, nat \<times> sponge) res") (auto split: prod.splits)

section \<open>Properties of the hash functions\<close>

text \<open>
  C18: \<^verbatim>\<open>crypto.Keccak256\<close> (and \<^verbatim>\<open>Keccak512\<close>) of a sequence of byte strings is the sponge construction on their
  concatenation, however the data is cut into pieces: rate 136 (72), padding byte 1, 32 (64) bytes of output.
\<close>

theorem Keccak_correct:
  "Keccak256 data = Ok (sponge_hash 136 0x01 32 (concat data)) \<and>
   Keccak512 data = Ok (sponge_hash 72 0x01 64 (concat data))"
  unfolding Keccak256_def Keccak512_def NewKeccak256_def NewKeccak512_def by (intro conjI Writes_Sum) simp_all

text \<open>
  C32: The SHA-3 and SHAKE functions are the sponge construction with their rates, padding bytes and output
  lengths; SHAKE gives any number of bytes, through as many further permutations as needed.
\<close>

theorem sha3_correct:
  "Sum224 m = Ok (sponge_hash 144 0x06 28 m) \<and> Sum256 m = Ok (sponge_hash 136 0x06 32 m)
   \<and> Sum384 m = Ok (sponge_hash 104 0x06 48 m) \<and> Sum512 m = Ok (sponge_hash 72 0x06 64 m)
   \<and> ShakeSum128 n m = Ok (sponge_hash 168 0x1f n m) \<and> ShakeSum256 n m = Ok (sponge_hash 136 0x1f n m)"
  unfolding Sum224_def Sum256_def Sum384_def Sum512_def ShakeSum128_def ShakeSum256_def
    New224_def New256_def New384_def New512_def NewShake128_def NewShake256_def
  by (intro conjI Write_Sum Write_Read) simp_all

lemma length_squeeze: "length a = 25 \<Longrightarrow> 0 < rate \<Longrightarrow> rate \<le> 200 \<Longrightarrow> length (squeeze rate a n) = n"
  by (induction rate a n rule: squeeze.induct) (subst squeeze.simps, auto simp: length_state_bytes)

lemma length_sponge_hash: "0 < rate \<Longrightarrow> rate \<le> 200 \<Longrightarrow> length (sponge_hash rate ds n m) = n"
  by (simp add: sponge_hash_def length_squeeze)

end
