(* ===== verification/Tx_Pool.thy ===== *)
theory Tx_Pool
  imports Common_Types
begin

text \<open>
  The transaction pool, \<^verbatim>\<open>src/txpool/tx_pool.go\<close>.  Of a transaction the pool uses only its hash, the parameter \<open>hs\<close>.
  Channels are the lists of their buffered elements; a map that the code ranges over comes with the order the
  range visits its keys in, a parameter of the operation.  The two goroutines of each \<open>DealTxRoutine\<close> are step
  functions with a program counter between the atomic operations on maps and channels; a call of a method is one step.
\<close>

section \<open>State\<close>

record 'tx TxPool =
  tp_threadsNum :: nat
  tp_fullCh :: "'tx list list"
  tp_verifyCh :: "'tx list list"
  tp_invalidTxCh :: "'tx list"
  tp_queue :: "hash \<rightharpoonup> 'tx"
  tp_pending :: "hash \<rightharpoonup> 'tx"
  tp_onChain :: "hash \<rightharpoonup> u64"
  tp_working :: "int \<rightharpoonup> 'tx list"
  tp_poolBlockCount :: u64
  tp_handleKnownTx :: "hash set"
  tp_closed :: bool

datatype pool_error = KnownTransaction hash | FullChFull | VerifyChFull | OversizedData

definition maxThreadNumber :: nat where "maxThreadNumber = 4"
definition maxHandleKnownTxs :: nat where "maxHandleKnownTxs = 2000000"
definition maxTransactionSize :: nat where "maxTransactionSize = 32 * 1024"
definition chanSize :: nat where "chanSize = 2000000"

definition NewTxPool :: "'tx TxPool" where
  "NewTxPool =
     \<lparr>tp_threadsNum = maxThreadNumber, tp_fullCh = replicate maxThreadNumber [], tp_verifyCh = replicate maxThreadNumber [],
      tp_invalidTxCh = [], tp_queue = Map.empty, tp_pending = Map.empty, tp_onChain = Map.empty, tp_working = Map.empty,
      tp_poolBlockCount = 100, tp_handleKnownTx = {}, tp_closed = False\<rparr>"

section \<open>Adding transactions\<close>

definition KnownTxAdd :: "hash \<Rightarrow> 'tx TxPool \<Rightarrow> 'tx TxPool" where
  "KnownTxAdd h p =
     p\<lparr>tp_handleKnownTx :=
         insert h (if maxHandleKnownTxs \<le> card (tp_handleKnownTx p) then {} else tp_handleKnownTx p)\<rparr>"

definition validateTx :: "('tx \<Rightarrow> nat) \<Rightarrow> 'tx \<Rightarrow> pool_error option" where
  "validateTx tx_size tx = (if tx_size tx > maxTransactionSize then Some OversizedData else None)"

definition DupTx :: "('tx \<Rightarrow> hash) \<Rightarrow> 'tx TxPool \<Rightarrow> 'tx \<Rightarrow> pool_error option" where
  "DupTx hs p tx =
     (let h = hs tx
      in if h \<in> tp_handleKnownTx p then Some (KnownTransaction h)
         else if tp_queue p h \<noteq> None then Some (KnownTransaction h)
         else if tp_pending p h \<noteq> None then Some (KnownTransaction h)
         else if tp_onChain p h \<noteq> None then Some (KnownTransaction h)
         else None)"

definition verifyTx :: "'tx \<Rightarrow> bool" where
  "verifyTx tx = True"

text \<open>A send in a \<^verbatim>\<open>select\<close> with a default: it fails on a full channel and panics on a closed one.\<close>

definition sendToVerify :: "nat \<Rightarrow> 'tx \<Rightarrow> 'tx TxPool \<Rightarrow> (unit, 'tx TxPool \<times> pool_error option) res" where
  "sendToVerify i tx p =
     (if tp_closed p then Panic
      else if length (tp_verifyCh p ! i) < chanSize
      then Ok (p\<lparr>tp_verifyCh := (tp_verifyCh p)[i := tp_verifyCh p ! i @ [tx]]\<rparr>, None)
      else Ok (p, Some VerifyChFull))"

definition sendToFull :: "nat \<Rightarrow> 'tx \<Rightarrow> 'tx TxPool \<Rightarrow> (unit, 'tx TxPool \<times> bool) res" where
  "sendToFull i tx p =
     (if tp_closed p then Panic
      else if length (tp_fullCh p ! i) < chanSize
      then Ok (p\<lparr>tp_fullCh := (tp_fullCh p)[i := tp_fullCh p ! i @ [tx]]\<rparr>, False)
      else Ok (p, True))"

fun AddTx_loop :: "nat list \<Rightarrow> 'tx \<Rightarrow> 'tx TxPool \<Rightarrow> (unit, 'tx TxPool \<times> pool_error option) res" where
  "AddTx_loop [] tx p = Ok (p, Some FullChFull)"
| "AddTx_loop (i # is) tx p =
     res_bind (sendToFull i tx p) (\<lambda>(p', full). if \<not> full then Ok (p', None) else AddTx_loop is tx p')"

text \<open>\<open>start\<close> is the random number \<^verbatim>\<open>rand.Intn\<close> returned.\<close>

definition AddTx :: "('tx \<Rightarrow> hash) \<Rightarrow> nat \<Rightarrow> 'tx \<Rightarrow> 'tx TxPool \<Rightarrow> (unit, 'tx TxPool \<times> pool_error option) res" where
  "AddTx hs start tx p =
     (case DupTx hs p tx of
        Some dup \<Rightarrow> Ok (p, Some dup)
      | None \<Rightarrow>
          let p = KnownTxAdd (hs tx) p; n = tp_threadsNum p
          in if n = 0 then Panic
             else AddTx_loop (map (\<lambda>try. (start + try) mod n) [0..<n]) tx p)"

text \<open>\<open>AddTxs\<close> logs the errors and goes on; each transaction has its own random start.\<close>

fun AddTxs :: "('tx \<Rightarrow> hash) \<Rightarrow> (nat \<times> 'tx) list \<Rightarrow> 'tx TxPool \<Rightarrow> (unit, 'tx TxPool) res" where
  "AddTxs hs [] p = Ok p"
| "AddTxs hs ((start, tx) # txs) p = res_bind (AddTx hs start tx p) (\<lambda>(p', _). AddTxs hs txs p')"

section \<open>Transactions on the chain\<close>

text \<open>\<open>FitOnChain\<close>, for the number \<open>curHigh\<close> of the head block; the additions are those of \<^verbatim>\<open>uint64\<close>.\<close>

definition FitOnChain :: "u64 \<Rightarrow> 'tx TxPool \<Rightarrow> 'tx TxPool" where
  "FitOnChain curHigh p =
     p\<lparr>tp_onChain := (\<lambda>k. case tp_onChain p k of
          None \<Rightarrow> None
        | Some number \<Rightarrow> if number > curHigh + tp_poolBlockCount p then None else Some number)\<rparr>"

fun JustPending :: "('tx \<Rightarrow> hash) \<Rightarrow> u64 \<Rightarrow> 'tx list \<Rightarrow> 'tx TxPool \<Rightarrow> 'tx TxPool" where
  "JustPending hs number [] p = p"
| "JustPending hs number (tx # txs) p =
     JustPending hs number txs
       (p\<lparr>tp_onChain := (tp_onChain p)(hs tx \<mapsto> number), tp_pending := (tp_pending p)(hs tx := None)\<rparr>)"

section \<open>Reading\<close>

definition Stats :: "'tx TxPool \<Rightarrow> nat \<times> nat" where
  "Stats p = (card (dom (tp_pending p)), card (dom (tp_queue p)))"

definition GetTxByHash :: "'tx TxPool \<Rightarrow> hash \<Rightarrow> 'tx option" where
  "GetTxByHash p h = (case tp_pending p h of None \<Rightarrow> tp_queue p h | Some tx \<Rightarrow> Some tx)"

definition Pended :: "hash list \<Rightarrow> 'tx TxPool \<Rightarrow> 'tx list" where
  "Pended order p = List.map_filter (tp_pending p) order"

definition Content :: "hash list \<Rightarrow> hash list \<Rightarrow> 'tx TxPool \<Rightarrow> 'tx list \<times> 'tx list" where
  "Content order order' p = (List.map_filter (tp_pending p) order, List.map_filter (tp_queue p) order')"

section \<open>Handing out work\<close>

text \<open>The body of the range: \<open>i\<close> transactions taken so far, in \<open>txs\<close>.\<close>

fun Pending_range :: "('tx \<Rightarrow> hash) \<Rightarrow> hash list \<Rightarrow> nat \<Rightarrow> nat \<Rightarrow> 'tx list \<Rightarrow> 'tx TxPool \<Rightarrow> 'tx list \<times> 'tx TxPool" where
  "Pending_range hs [] i maxtxs txs p = (txs, p)"
| "Pending_range hs (k # order) i maxtxs txs p =
     (case tp_pending p k of
        None \<Rightarrow> Pending_range hs order i maxtxs txs p
      | Some tx \<Rightarrow>
          if i \<ge> maxtxs then (txs, p)
          else Pending_range hs order (i + 1) maxtxs (txs @ [tx]) (p\<lparr>tp_pending := (tp_pending p)(hs tx := None)\<rparr>))"

definition Pending :: "('tx \<Rightarrow> hash) \<Rightarrow> hash list \<Rightarrow> int \<Rightarrow> nat \<Rightarrow> 'tx TxPool \<Rightarrow> 'tx list \<times> 'tx TxPool" where
  "Pending hs order workid maxtxs p =
     (let (txs, p') = Pending_range hs order 0 maxtxs [] p
      in (txs, if txs \<noteq> [] then p'\<lparr>tp_working := (tp_working p')(workid \<mapsto> txs)\<rparr> else p'))"

fun WorkEnded_loop :: "('tx \<Rightarrow> hash) \<Rightarrow> u64 \<Rightarrow> bool \<Rightarrow> 'tx list \<Rightarrow> 'tx TxPool \<Rightarrow> 'tx TxPool" where
  "WorkEnded_loop hs blocknumber succeed [] p = p"
| "WorkEnded_loop hs blocknumber succeed (tx # txs) p =
     WorkEnded_loop hs blocknumber succeed txs
       (if succeed then p\<lparr>tp_onChain := (tp_onChain p)(hs tx \<mapsto> blocknumber)\<rparr>
        else p\<lparr>tp_pending := (tp_pending p)(hs tx \<mapsto> tx)\<rparr>)"

definition WorkEnded :: "('tx \<Rightarrow> hash) \<Rightarrow> int \<Rightarrow> u64 \<Rightarrow> bool \<Rightarrow> 'tx TxPool \<Rightarrow> 'tx TxPool" where
  "WorkEnded hs workid blocknumber succeed p =
     (case tp_working p workid of
        None \<Rightarrow> p
      | Some txs \<Rightarrow>
          (let p' = WorkEnded_loop hs blocknumber succeed txs p
           in p'\<lparr>tp_working := (tp_working p')(workid := None)\<rparr>))"

section \<open>The goroutines\<close>

datatype 'tx full_pc = FIdle | FGot 'tx | FStored 'tx
datatype 'tx verify_pc = VIdle | VGot 'tx | VStored 'tx

record 'tx sys =
  sy_pool :: "'tx TxPool"
  sy_full :: "nat \<Rightarrow> 'tx full_pc"
  sy_verify :: "nat \<Rightarrow> 'tx verify_pc"

text \<open>
  One atomic step of the first goroutine of routine \<open>i\<close>: receive from the full channel, store in the queue, send to
  the verify channel (the error of the send is ignored).  A receive from an empty channel waits.
\<close>

definition fullRoutine :: "('tx \<Rightarrow> hash) \<Rightarrow> nat \<Rightarrow> 'tx sys \<Rightarrow> (unit, 'tx sys) res" where
  "fullRoutine hs i s =
     (let p = sy_pool s
      in case sy_full s i of
           FIdle \<Rightarrow>
             (case tp_fullCh p ! i of
                [] \<Rightarrow> Ok s
              | tx # txs \<Rightarrow> Ok (s\<lparr>sy_pool := p\<lparr>tp_fullCh := (tp_fullCh p)[i := txs]\<rparr>, sy_full := (sy_full s)(i := FGot tx)\<rparr>))
         | FGot tx \<Rightarrow>
             Ok (s\<lparr>sy_pool := p\<lparr>tp_queue := (tp_queue p)(hs tx \<mapsto> tx)\<rparr>, sy_full := (sy_full s)(i := FStored tx)\<rparr>)
         | FStored tx \<Rightarrow>
             res_map (\<lambda>(p', _). s\<lparr>sy_pool := p', sy_full := (sy_full s)(i := FIdle)\<rparr>) (sendToVerify i tx p))"

definition invalidChSize :: nat where "invalidChSize = 100000"

definition verifyRoutine :: "('tx \<Rightarrow> hash) \<Rightarrow> nat \<Rightarrow> 'tx sys \<Rightarrow> (unit, 'tx sys) res" where
  "verifyRoutine hs i s =
     (let p = sy_pool s
      in case sy_verify s i of
           VIdle \<Rightarrow>
             (case tp_verifyCh p ! i of
                [] \<Rightarrow> Ok s
              | tx # txs \<Rightarrow> Ok (s\<lparr>sy_pool := p\<lparr>tp_verifyCh := (tp_verifyCh p)[i := txs]\<rparr>, sy_verify := (sy_verify s)(i := VGot tx)\<rparr>))
         | VGot tx \<Rightarrow>
             if verifyTx tx
             then Ok (s\<lparr>sy_pool := p\<lparr>tp_pending := (tp_pending p)(hs tx \<mapsto> tx)\<rparr>, sy_verify := (sy_verify s)(i := VStored tx)\<rparr>)
             else if tp_closed p then Panic
             else if length (tp_invalidTxCh p) < invalidChSize
             then Ok (s\<lparr>sy_pool := p\<lparr>tp_invalidTxCh := tp_invalidTxCh p @ [tx]\<rparr>, sy_verify := (sy_verify s)(i := VIdle)\<rparr>)
             else Ok s
         | VStored tx \<Rightarrow>
             Ok (s\<lparr>sy_pool := p\<lparr>tp_queue := (tp_queue p)(hs tx := None)\<rparr>, sy_verify := (sy_verify s)(i := VIdle)\<rparr>))"

text \<open>The goroutine that drains the channel of invalid transactions.\<close>

definition dealInvalid :: "'tx TxPool \<Rightarrow> 'tx TxPool" where
  "dealInvalid p = p\<lparr>tp_invalidTxCh := tl (tp_invalidTxCh p)\<rparr>"

text \<open>The stop case of \<open>loop\<close>: all channels are closed at once.\<close>

definition stopLoop :: "'tx TxPool \<Rightarrow> 'tx TxPool" where
  "stopLoop p = p\<lparr>tp_closed := True\<rparr>"

section \<open>The pool as a transition system\<close>

text \<open>
  The runs of the pool: any interleaving of calls of its methods with steps of its goroutines.  Two sets are
  recorded along a run: the hashes of the transactions \<open>AddTx\<close> accepted, and of those reported as included in a
  block.  Work ids are time stamps and not reused while a work with that id is open.
\<close>

inductive pool_run :: "('tx \<Rightarrow> hash) \<Rightarrow> 'tx sys \<Rightarrow> hash set \<Rightarrow> hash set \<Rightarrow> bool" for hs where
  run_init: "pool_run hs \<lparr>sy_pool = NewTxPool, sy_full = \<lambda>_. FIdle, sy_verify = \<lambda>_. VIdle\<rparr> {} {}"
| run_add: "pool_run hs s acc inc \<Longrightarrow> AddTx hs start tx (sy_pool s) = Ok (p, None)
    \<Longrightarrow> pool_run hs (s\<lparr>sy_pool := p\<rparr>) (insert (hs tx) acc) inc"
| run_add_rejected: "pool_run hs s acc inc \<Longrightarrow> AddTx hs start tx (sy_pool s) = Ok (p, Some e)
    \<Longrightarrow> pool_run hs (s\<lparr>sy_pool := p\<rparr>) acc inc"
| run_full: "pool_run hs s acc inc \<Longrightarrow> i < maxThreadNumber \<Longrightarrow> fullRoutine hs i s = Ok s' \<Longrightarrow> pool_run hs s' acc inc"
| run_verify: "pool_run hs s acc inc \<Longrightarrow> i < maxThreadNumber \<Longrightarrow> verifyRoutine hs i s = Ok s' \<Longrightarrow> pool_run hs s' acc inc"
| run_invalid: "pool_run hs s acc inc \<Longrightarrow> pool_run hs (s\<lparr>sy_pool := dealInvalid (sy_pool s)\<rparr>) acc inc"
| run_pending: "pool_run hs s acc inc \<Longrightarrow> tp_working (sy_pool s) workid = None \<Longrightarrow>
    pool_run hs (s\<lparr>sy_pool := snd (Pending hs order workid maxtxs (sy_pool s))\<rparr>) acc inc"
| run_ended: "pool_run hs s acc inc \<Longrightarrow> tp_working (sy_pool s) workid = Some txs \<Longrightarrow>
    pool_run hs (s\<lparr>sy_pool := WorkEnded hs workid number succeed (sy_pool s)\<rparr>) acc
      (if succeed then inc \<union> hs ` set txs else inc)"
| run_block: "pool_run hs s acc inc \<Longrightarrow>
    pool_run hs (s\<lparr>sy_pool := JustPending hs number txs (sy_pool s)\<rparr>) acc (inc \<union> hs ` set txs)"
| run_evict: "pool_run hs s acc inc \<Longrightarrow> pool_run hs (s\<lparr>sy_pool := FitOnChain curHigh (sy_pool s)\<rparr>) acc inc"
| run_stop: "pool_run hs s acc inc \<Longrightarrow> pool_run hs (s\<lparr>sy_pool := stopLoop (sy_pool s)\<rparr>) acc inc"

text \<open>Where a hash is: past verification, or on the way to it.\<close>

definition processed :: "('tx \<Rightarrow> hash) \<Rightarrow> hash set \<Rightarrow> 'tx TxPool \<Rightarrow> hash \<Rightarrow> bool" where
  "processed hs inc p h \<longleftrightarrow>
     h \<in> inc \<or> h \<in> dom (tp_pending p) \<or> (\<exists>w txs. tp_working p w = Some txs \<and> h \<in> hs ` set txs)"

definition upcoming :: "('tx \<Rightarrow> hash) \<Rightarrow> 'tx sys \<Rightarrow> hash \<Rightarrow> bool" where
  "upcoming hs s h \<longleftrightarrow>
     h \<in> dom (tp_queue (sy_pool s))
     \<or> (\<exists>i<maxThreadNumber. h \<in> hs ` set (tp_fullCh (sy_pool s) ! i) \<or> h \<in> hs ` set (tp_verifyCh (sy_pool s) ! i)
          \<or> (\<exists>tx. hs tx = h \<and> (sy_full s i = FGot tx \<or> sy_verify s i = VGot tx)))"

definition keyed :: "('tx \<Rightarrow> hash) \<Rightarrow> (hash \<rightharpoonup> 'tx) \<Rightarrow> bool" where
  "keyed hs m \<longleftrightarrow> (\<forall>k tx. m k = Some tx \<longrightarrow> hs tx = k)"

definition pool_inv :: "('tx \<Rightarrow> hash) \<Rightarrow> 'tx sys \<Rightarrow> hash set \<Rightarrow> hash set \<Rightarrow> bool" where
  "pool_inv hs s acc inc \<longleftrightarrow>
     tp_threadsNum (sy_pool s) = maxThreadNumber \<and> length (tp_fullCh (sy_pool s)) = maxThreadNumber
     \<and> length (tp_verifyCh (sy_pool s)) = maxThreadNumber
     \<and> keyed hs (tp_pending (sy_pool s))
     \<and> (\<forall>i tx. sy_full s i = FStored tx \<longrightarrow> hs tx \<in> dom (tp_queue (sy_pool s)) \<or> processed hs inc (sy_pool s) (hs tx))
     \<and> (\<forall>i tx. sy_verify s i = VStored tx \<longrightarrow> processed hs inc (sy_pool s) (hs tx))
     \<and> (\<forall>h\<in>acc. processed hs inc (sy_pool s) h \<or> upcoming hs s h)"

lemma processed_other [simp]:
  "processed hs inc (p\<lparr>tp_handleKnownTx := v0\<rparr>) = processed hs inc p"
  "processed hs inc (p\<lparr>tp_fullCh := v1\<rparr>) = processed hs inc p"
  "processed hs inc (p\<lparr>tp_verifyCh := v2\<rparr>) = processed hs inc p"
  "processed hs inc (p\<lparr>tp_queue := v3\<rparr>) = processed hs inc p"
  "processed hs inc (p\<lparr>tp_onChain := v4\<rparr>) = processed hs inc p"
  "processed hs inc (p\<lparr>tp_closed := v5\<rparr>) = processed hs inc p"
  "processed hs inc (p\<lparr>tp_invalidTxCh := v6\<rparr>) = processed hs inc p"
  by (simp_all add: processed_def fun_eq_iff)

lemma pool_invI:
  assumes "pool_inv hs s acc inc"
    and "tp_threadsNum p = tp_threadsNum (sy_pool s)" "length (tp_fullCh p) = length (tp_fullCh (sy_pool s))"
      "length (tp_verifyCh p) = length (tp_verifyCh (sy_pool s))"
    and "\<And>k tx. tp_pending p k = Some tx \<Longrightarrow> tp_pending (sy_pool s) k = Some tx \<or> hs tx = k"
    and "\<And>h. processed hs inc (sy_pool s) h \<Longrightarrow> processed hs inc' p h"
    and "tp_queue p = tp_queue (sy_pool s)"
    and "\<And>i. i < maxThreadNumber \<Longrightarrow> set (tp_fullCh (sy_pool s) ! i) \<subseteq> set (tp_fullCh p ! i)"
    and "tp_verifyCh p = tp_verifyCh (sy_pool s)"
    and "\<And>h. h \<in> acc' - acc \<Longrightarrow> \<exists>i<maxThreadNumber. h \<in> hs ` set (tp_fullCh p ! i)"
  shows "pool_inv hs (s\<lparr>sy_pool := p\<rparr>) acc' inc'"
proof -
  have up: "upcoming hs s h \<Longrightarrow> upcoming hs (s\<lparr>sy_pool := p\<rparr>) h" for h
    using assms(8) by (fastforce simp: upcoming_def assms(7,9))
  have new: "upcoming hs (s\<lparr>sy_pool := p\<rparr>) h" if "h \<in> acc' - acc" for h
    using assms(10) [OF that] by (auto simp: upcoming_def)
  show ?thesis
    using assms(1-7) up new unfolding pool_inv_def keyed_def by (simp, blast)
qed

lemma AddTx_loop_pool:
  "AddTx_loop is tx p = Ok (p', e) \<Longrightarrow>
   (e = None \<longrightarrow> (\<exists>i\<in>set is. p' = p\<lparr>tp_fullCh := (tp_fullCh p)[i := tp_fullCh p ! i @ [tx]]\<rparr>)) \<and> (e \<noteq> None \<longrightarrow> p' = p)"
  by (induction "is" tx p arbitrary: p' rule: AddTx_loop.induct) (auto simp: sendToFull_def split: if_splits)

lemma AddTx_pool:
  assumes "AddTx hs start tx p = Ok (p', e)" "tp_threadsNum p = maxThreadNumber"
  shows "(e = None \<longrightarrow> (\<exists>i<maxThreadNumber. p' = (KnownTxAdd (hs tx) p)\<lparr>tp_fullCh := (tp_fullCh p)[i := tp_fullCh p ! i @ [tx]]\<rparr>))
    \<and> (e \<noteq> None \<longrightarrow> p' = p \<or> p' = KnownTxAdd (hs tx) p)"
proof (cases "DupTx hs p tx")
  case None
  define js where "js = map (\<lambda>try. (start + try) mod maxThreadNumber) [0..<maxThreadNumber]"
  have "AddTx_loop js tx (KnownTxAdd (hs tx) p) = Ok (p', e)" "maxThreadNumber \<noteq> 0"
    using assms None by (auto simp: AddTx_def Let_def js_def KnownTxAdd_def split: if_splits)
  moreover from this have "\<forall>i\<in>set js. i < maxThreadNumber" by (auto simp: js_def)
  moreover have f: "tp_fullCh (KnownTxAdd (hs tx) p) = tp_fullCh p" by (simp add: KnownTxAdd_def)
  ultimately show ?thesis using AddTx_loop_pool [of js tx "KnownTxAdd (hs tx) p" p' e] unfolding f by blast
qed (use assms in \<open>auto simp: AddTx_def\<close>)

lemma Pending_range_spec:
  assumes "keyed hs (tp_pending p)"
  shows "\<exists>new. Pending_range hs order i maxtxs txs p = (txs @ new, p\<lparr>tp_pending := tp_pending p |` (- hs ` set new)\<rparr>)
    \<and> (\<forall>tx\<in>set new. tp_pending p (hs tx) = Some tx) \<and> distinct (map hs new) \<and> length new \<le> maxtxs - i"
  using assms
proof (induction hs order i maxtxs txs p rule: Pending_range.induct)
  case (2 hs k order i maxtxs txs p)
  show ?case
  proof (cases "tp_pending p k")
    case None
    with 2(1) [OF None 2(3)] show ?thesis by simp
  next
    case (Some tx)
    show ?thesis
    proof (cases "maxtxs \<le> i")
      case True
      with Some show ?thesis by (intro exI [of _ "[]"]) simp
    next
      case False
      let ?p = "p\<lparr>tp_pending := (tp_pending p)(hs tx := None)\<rparr>"
      have k: "hs tx = k" using 2(3) Some by (auto simp: keyed_def)
      have "keyed hs (tp_pending ?p)" using 2(3) by (simp add: keyed_def)
      from 2(2) [OF Some False this] obtain new
        where new: "Pending_range hs order (i + 1) maxtxs (txs @ [tx]) ?p = ((txs @ [tx]) @ new, ?p\<lparr>tp_pending := tp_pending ?p |` (- hs ` set new)\<rparr>)"
          "\<forall>tx\<in>set new. tp_pending ?p (hs tx) = Some tx" "distinct (map hs new)" "length new \<le> maxtxs - (i + 1)"
        by blast
      have "(tp_pending p)(hs tx := None) |` (- hs ` set new) = tp_pending p |` (- hs ` set (tx # new))"
        by (auto simp: restrict_map_def fun_eq_iff)
      moreover have "hs tx \<notin> hs ` set new" "\<forall>tx\<in>set new. tp_pending p (hs tx) = Some tx"
        using new(2) by (auto split: if_splits)
      ultimately show ?thesis
        using new Some False k by (intro exI [of _ "tx # new"]) auto
    qed
  qed
qed (intro exI [of _ "[]"], simp add: restrict_map_def)

text \<open>Storing one entry per transaction.\<close>

definition entries :: "('tx \<Rightarrow> hash) \<Rightarrow> ('tx \<Rightarrow> 'v) \<Rightarrow> 'tx list \<Rightarrow> (hash \<rightharpoonup> 'v)" where
  "entries hs f txs = map_of (rev (map (\<lambda>tx. (hs tx, f tx)) txs))"

lemma entries_simps: "entries hs f [] = Map.empty" "m ++ entries hs f (tx # txs) = m(hs tx \<mapsto> f tx) ++ entries hs f txs"
  by (simp_all add: entries_def)

lemma dom_entries: "dom (entries hs f txs) = hs ` set txs"
  by (auto simp: entries_def dom_map_of_conv_image_fst image_iff)

lemma entries_SomeD: "entries hs f txs k = Some v \<Longrightarrow> \<exists>tx\<in>set txs. hs tx = k \<and> f tx = v"
  by (auto simp: entries_def dest!: map_of_SomeD)

lemma WorkEnded_loop_spec:
  "WorkEnded_loop hs n succeed txs p =
     (if succeed then p\<lparr>tp_onChain := tp_onChain p ++ entries hs (\<lambda>_. n) txs\<rparr>
      else p\<lparr>tp_pending := tp_pending p ++ entries hs id txs\<rparr>)"
  by (induction hs n succeed txs p rule: WorkEnded_loop.induct) (simp_all add: entries_simps)

lemma JustPending_spec:
  "JustPending hs n txs p =
     p\<lparr>tp_onChain := tp_onChain p ++ entries hs (\<lambda>_. n) txs, tp_pending := tp_pending p |` (- hs ` set txs)\<rparr>"
proof (induction hs n txs p rule: JustPending.induct)
  case (2 hs n tx txs p)
  have "((tp_pending p)(hs tx := None)) |` (- hs ` set txs) = tp_pending p |` (- hs ` set (tx # txs))"
    by (auto simp: restrict_map_def fun_eq_iff)
  moreover have "tp_onChain p ++ entries hs (\<lambda>_. n) (tx # txs) = (tp_onChain p)(hs tx \<mapsto> n) ++ entries hs (\<lambda>_. n) txs"
    by (simp add: entries_simps)
  ultimately show ?case using 2 by (simp del: fun_upd_apply fun_upd_restrict_conv)
qed (simp add: entries_simps)

section \<open>The invariant\<close>

lemma pool_inv_pending:
  assumes "pool_inv hs s acc inc" "tp_working (sy_pool s) workid = None"
  shows "pool_inv hs (s\<lparr>sy_pool := snd (Pending hs order workid maxtxs (sy_pool s))\<rparr>) acc inc"
proof -
  have k: "keyed hs (tp_pending (sy_pool s))" using assms(1) by (simp add: pool_inv_def)
  from Pending_range_spec [OF k, where order = order and i = 0 and maxtxs = maxtxs and txs = "[]"] obtain new
    where new: "Pending_range hs order 0 maxtxs [] (sy_pool s) = (new, (sy_pool s)\<lparr>tp_pending := tp_pending (sy_pool s) |` (- hs ` set new)\<rparr>)"
      "\<forall>tx\<in>set new. tp_pending (sy_pool s) (hs tx) = Some tx" by auto
  show ?thesis
  proof (rule pool_invI [OF assms(1)])
    fix h
    let ?p' = "snd (Pending hs order workid maxtxs (sy_pool s))"
    assume "processed hs inc (sy_pool s) h"
    then consider "h \<in> inc" | "h \<in> hs ` set new" | "h \<in> dom (tp_pending (sy_pool s))" "h \<notin> hs ` set new"
      | w txs where "tp_working (sy_pool s) w = Some txs" "h \<in> hs ` set txs" unfolding processed_def by blast
    then show "processed hs inc ?p' h"
    proof cases
      case 2
      then have "tp_working ?p' workid = Some new" using new(1) by (auto simp: Pending_def Let_def)
      with 2 show ?thesis unfolding processed_def by blast
    next
      case 3
      then have "h \<in> dom (tp_pending ?p')" using new(1) by (auto simp: Pending_def Let_def)
      then show ?thesis unfolding processed_def by blast
    next
      case 4
      then have "tp_working ?p' w = Some txs" using new(1) assms(2) by (auto simp: Pending_def Let_def)
      with 4 show ?thesis unfolding processed_def by blast
    qed (simp add: processed_def)
  qed (use new(1) in \<open>auto simp: Pending_def Let_def restrict_map_def split: if_splits\<close>)
qed

lemma pool_inv_ended:
  assumes "pool_inv hs s acc inc" "tp_working (sy_pool s) workid = Some txs"
  shows "pool_inv hs (s\<lparr>sy_pool := WorkEnded hs workid number succeed (sy_pool s)\<rparr>) acc
    (if succeed then inc \<union> hs ` set txs else inc)"
proof (rule pool_invI [OF assms(1)])
  let ?p' = "WorkEnded hs workid number succeed (sy_pool s)"
  fix h
  assume "processed hs inc (sy_pool s) h"
  then consider "h \<in> inc" | "h \<in> dom (tp_pending (sy_pool s))" | "h \<in> hs ` set txs"
    | w txs' where "w \<noteq> workid" "tp_working (sy_pool s) w = Some txs'" "h \<in> hs ` set txs'"
    unfolding processed_def using assms(2) by (metis option.inject)
  then show "processed hs (if succeed then inc \<union> hs ` set txs else inc) ?p' h"
  proof cases
    case 2
    then have "h \<in> dom (tp_pending ?p')" using assms(2) by (auto simp: WorkEnded_def WorkEnded_loop_spec)
    then show ?thesis unfolding processed_def by blast
  next
    case 3
    then have "\<not> succeed \<Longrightarrow> h \<in> dom (tp_pending ?p')"
      using assms(2) by (auto simp: WorkEnded_def WorkEnded_loop_spec dom_entries)
    with 3 show ?thesis unfolding processed_def by (cases succeed) auto
  next
    case 4
    then have "tp_working ?p' w = Some txs'" using assms(2) by (auto simp: WorkEnded_def WorkEnded_loop_spec)
    with 4 show ?thesis unfolding processed_def by blast
  qed (simp add: processed_def)
qed (use assms in \<open>auto simp: WorkEnded_def WorkEnded_loop_spec map_add_Some_iff dest!: entries_SomeD split: if_splits\<close>)

lemma pool_inv_block:
  assumes "pool_inv hs s acc inc"
  shows "pool_inv hs (s\<lparr>sy_pool := JustPending hs number txs (sy_pool s)\<rparr>) acc (inc \<union> hs ` set txs)"
  by (rule pool_invI [OF assms]) (auto simp: JustPending_spec processed_def restrict_map_def split: if_splits)

text \<open>A step of a goroutine: it keeps what is pending and being worked on, and loses no upcoming hash.\<close>

lemma pool_inv_step:
  assumes "pool_inv hs s acc inc"
    and "tp_threadsNum (sy_pool s') = tp_threadsNum (sy_pool s)" "length (tp_fullCh (sy_pool s')) = length (tp_fullCh (sy_pool s))"
      "length (tp_verifyCh (sy_pool s')) = length (tp_verifyCh (sy_pool s))" "tp_working (sy_pool s') = tp_working (sy_pool s)"
    and "keyed hs (tp_pending (sy_pool s'))" "dom (tp_pending (sy_pool s)) \<subseteq> dom (tp_pending (sy_pool s'))"
    and "\<And>i tx. sy_full s' i = FStored tx \<Longrightarrow> hs tx \<in> dom (tp_queue (sy_pool s')) \<or> processed hs inc (sy_pool s') (hs tx)"
    and "\<And>i tx. sy_verify s' i = VStored tx \<Longrightarrow> processed hs inc (sy_pool s') (hs tx)"
    and "\<And>h. upcoming hs s h \<Longrightarrow> processed hs inc (sy_pool s') h \<or> upcoming hs s' h"
  shows "pool_inv hs s' acc inc"
proof -
  have "processed hs inc (sy_pool s) h \<Longrightarrow> processed hs inc (sy_pool s') h" for h
    using assms(5,7) by (auto simp: processed_def)
  with assms show ?thesis unfolding pool_inv_def by (simp, blast)
qed

lemma upcoming_mono:
  assumes "upcoming hs s h"
    and "dom (tp_queue (sy_pool s)) \<subseteq> dom (tp_queue (sy_pool s'))"
    and "\<And>j. set (tp_fullCh (sy_pool s) ! j) \<subseteq> set (tp_fullCh (sy_pool s') ! j)"
    and "\<And>j. set (tp_verifyCh (sy_pool s) ! j) \<subseteq> set (tp_verifyCh (sy_pool s') ! j)"
    and "\<And>j t. sy_full s j = FGot t \<Longrightarrow> sy_full s' j = FGot t" "\<And>j t. sy_verify s j = VGot t \<Longrightarrow> sy_verify s' j = VGot t"
  shows "upcoming hs s' h"
  using assms unfolding upcoming_def by blast

lemma pool_inv_full:
  assumes inv: "pool_inv hs s acc inc" and i: "i < maxThreadNumber" and s': "fullRoutine hs i s = Ok s'"
  shows "pool_inv hs s' acc inc"
proof -
  have k: "keyed hs (tp_pending (sy_pool s))" "length (tp_fullCh (sy_pool s)) = maxThreadNumber"
    "length (tp_verifyCh (sy_pool s)) = maxThreadNumber" using inv by (simp_all add: pool_inv_def)
  have fs: "sy_full s j = FStored tx \<Longrightarrow> hs tx \<in> dom (tp_queue (sy_pool s)) \<or> processed hs inc (sy_pool s) (hs tx)"
    and vs: "sy_verify s j = VStored tx \<Longrightarrow> processed hs inc (sy_pool s) (hs tx)" for j tx
    using inv unfolding pool_inv_def by blast+
  show ?thesis
  proof (cases "sy_full s i")
    case FIdle
    show ?thesis
    proof (cases "tp_fullCh (sy_pool s) ! i")
      case Nil
      with s' FIdle inv show ?thesis by (simp add: fullRoutine_def Let_def)
    next
      case (Cons tx txs)
      with s' FIdle have s'': "s' = s\<lparr>sy_pool := (sy_pool s)\<lparr>tp_fullCh := (tp_fullCh (sy_pool s))[i := txs]\<rparr>, sy_full := (sy_full s)(i := FGot tx)\<rparr>"
        by (simp add: fullRoutine_def Let_def)
      have pc: "processed hs inc (sy_pool s') = processed hs inc (sy_pool s)" by (simp add: s'')
      show ?thesis
      proof (rule pool_inv_step [OF inv])
        fix h
        assume "upcoming hs s h"
        then show "processed hs inc (sy_pool s') h \<or> upcoming hs s' h"
          using i k FIdle Cons unfolding upcoming_def s'' by (fastforce simp: nth_list_update)
      qed (use fs vs k pc in \<open>auto simp: s'' split: if_splits\<close>)
    qed
  next
    case (FGot tx)
    with s' have s'': "s' = s\<lparr>sy_pool := (sy_pool s)\<lparr>tp_queue := (tp_queue (sy_pool s))(hs tx \<mapsto> tx)\<rparr>, sy_full := (sy_full s)(i := FStored tx)\<rparr>"
      by (simp add: fullRoutine_def Let_def)
    have pc: "processed hs inc (sy_pool s') = processed hs inc (sy_pool s)" by (simp add: s'')
    show ?thesis
    proof (rule pool_inv_step [OF inv])
      fix h
      assume "upcoming hs s h"
      then show "processed hs inc (sy_pool s') h \<or> upcoming hs s' h"
        using FGot unfolding upcoming_def s'' by (auto split: if_splits)
    qed (use fs vs k pc in \<open>auto simp: s'' split: if_splits\<close>)
  next
    case (FStored tx)
    then have nf: "sy_full s i \<noteq> FGot t" for t by simp
    from FStored s' obtain p e where p: "sendToVerify i tx (sy_pool s) = Ok (p, e)" "s' = s\<lparr>sy_pool := p, sy_full := (sy_full s)(i := FIdle)\<rparr>"
      by (auto simp: fullRoutine_def Let_def)
    obtain vch where v: "p = (sy_pool s)\<lparr>tp_verifyCh := vch\<rparr>" "length vch = length (tp_verifyCh (sy_pool s))"
      "\<And>j. set (tp_verifyCh (sy_pool s) ! j) \<subseteq> set (vch ! j)"
    proof (cases "length (tp_verifyCh (sy_pool s) ! i) < chanSize")
      case True
      with p(1) k i show thesis
        by (intro that [of "(tp_verifyCh (sy_pool s))[i := tp_verifyCh (sy_pool s) ! i @ [tx]]"])
          (auto simp: sendToVerify_def nth_list_update split: if_splits)
    next
      case False
      with p(1) show thesis by (intro that [of "tp_verifyCh (sy_pool s)"]) (auto simp: sendToVerify_def split: if_splits)
    qed
    note s'' = p(2) [unfolded v(1)]
    show ?thesis
    proof (rule pool_inv_step [OF inv])
      fix h
      assume "upcoming hs s h"
      then show "processed hs inc (sy_pool s') h \<or> upcoming hs s' h"
        by (intro disjI2, elim upcoming_mono) (use v(3) nf in \<open>auto simp: s''\<close>)
    qed (use fs vs k v(2) in \<open>auto simp: s'' split: if_splits\<close>)
  qed
qed

lemma pool_inv_verify:
  assumes inv: "pool_inv hs s acc inc" and i: "i < maxThreadNumber" and step: "verifyRoutine hs i s = Ok s'"
  shows "pool_inv hs s' acc inc"
proof -
  have k: "keyed hs (tp_pending (sy_pool s))" "length (tp_fullCh (sy_pool s)) = maxThreadNumber"
    "length (tp_verifyCh (sy_pool s)) = maxThreadNumber" using inv by (simp_all add: pool_inv_def)
  have fs: "sy_full s j = FStored tx \<Longrightarrow> hs tx \<in> dom (tp_queue (sy_pool s)) \<or> processed hs inc (sy_pool s) (hs tx)"
    and vs: "sy_verify s j = VStored tx \<Longrightarrow> processed hs inc (sy_pool s) (hs tx)" for j tx
    using inv unfolding pool_inv_def by blast+
  show ?thesis
  proof (cases "sy_verify s i")
    case VIdle
    show ?thesis
    proof (cases "tp_verifyCh (sy_pool s) ! i")
      case Nil
      with VIdle inv step show ?thesis by (simp add: verifyRoutine_def Let_def)
    next
      case (Cons tx txs)
      with VIdle step have s'': "s' = s\<lparr>sy_pool := (sy_pool s)\<lparr>tp_verifyCh := (tp_verifyCh (sy_pool s))[i := txs]\<rparr>, sy_verify := (sy_verify s)(i := VGot tx)\<rparr>"
        by (simp add: verifyRoutine_def Let_def)
      show ?thesis
      proof (rule pool_inv_step [OF inv])
        fix h
        assume "upcoming hs s h"
        then show "processed hs inc (sy_pool s') h \<or> upcoming hs s' h"
          using i k VIdle Cons unfolding upcoming_def s'' by (fastforce simp: nth_list_update)
      qed (use fs vs k in \<open>auto simp: s'' split: if_splits\<close>)
    qed
  next
    case (VGot tx)
    with step have s'': "s' = s\<lparr>sy_pool := (sy_pool s)\<lparr>tp_pending := (tp_pending (sy_pool s))(hs tx \<mapsto> tx)\<rparr>, sy_verify := (sy_verify s)(i := VStored tx)\<rparr>"
      by (simp add: verifyRoutine_def Let_def verifyTx_def)
    have pm: "processed hs inc (sy_pool s) h \<Longrightarrow> processed hs inc (sy_pool s') h" "processed hs inc (sy_pool s') (hs tx)" for h
      by (auto simp: s'' processed_def)
    show ?thesis
    proof (rule pool_inv_step [OF inv])
      fix h
      assume "upcoming hs s h"
      then show "processed hs inc (sy_pool s') h \<or> upcoming hs s' h"
        using VGot pm(2) unfolding upcoming_def s'' by (auto split: if_splits)
    next
      show "hs tx' \<in> dom (tp_queue (sy_pool s')) \<or> processed hs inc (sy_pool s') (hs tx')" if "sy_full s' j = FStored tx'" for j tx'
        using fs [of j tx'] pm(1) that by (auto simp: s'')
      show "processed hs inc (sy_pool s') (hs tx')" if "sy_verify s' j = VStored tx'" for j tx'
        using vs [of j tx'] pm that by (auto simp: s'' split: if_splits)
    qed (use k in \<open>auto simp: s'' keyed_def\<close>)
  next
    case (VStored tx)
    with step have s'': "s' = s\<lparr>sy_pool := (sy_pool s)\<lparr>tp_queue := (tp_queue (sy_pool s))(hs tx := None)\<rparr>, sy_verify := (sy_verify s)(i := VIdle)\<rparr>"
      by (simp add: verifyRoutine_def Let_def)
    have d: "processed hs inc (sy_pool s) (hs tx)" using vs VStored by blast
    show ?thesis
    proof (rule pool_inv_step [OF inv])
      fix h
      assume "upcoming hs s h"
      then show "processed hs inc (sy_pool s') h \<or> upcoming hs s' h"
        using VStored d unfolding upcoming_def s'' by (auto split: if_splits)
    next
      show "hs tx' \<in> dom (tp_queue (sy_pool s')) \<or> processed hs inc (sy_pool s') (hs tx')" if "sy_full s' j = FStored tx'" for j tx'
        using fs [of j tx'] d that by (cases "hs tx' = hs tx") (auto simp: s'')
    qed (use vs k in \<open>auto simp: s'' split: if_splits\<close>)
  qed
qed

lemma pool_run_inv: "pool_run hs s acc inc \<Longrightarrow> pool_inv hs s acc inc"
proof (induction rule: pool_run.induct)
  case run_init
  show ?case by (simp add: pool_inv_def NewTxPool_def keyed_def)
next
  case (run_add s acc inc start tx p)
  from run_add.IH have "tp_threadsNum (sy_pool s) = maxThreadNumber" by (simp add: pool_inv_def)
  from AddTx_pool [OF run_add.hyps(2) this] obtain i
    where "i < maxThreadNumber" "p = (KnownTxAdd (hs tx) (sy_pool s))\<lparr>tp_fullCh := (tp_fullCh (sy_pool s))[i := tp_fullCh (sy_pool s) ! i @ [tx]]\<rparr>"
    by auto
  moreover have "length (tp_fullCh (sy_pool s)) = maxThreadNumber" using run_add.IH by (simp add: pool_inv_def)
  ultimately show ?case
    by (intro pool_invI [OF run_add.IH]) (auto simp: KnownTxAdd_def nth_list_update intro!: exI [of _ i])
next
  case (run_add_rejected s acc inc start tx p e)
  from run_add_rejected.IH have "tp_threadsNum (sy_pool s) = maxThreadNumber" by (simp add: pool_inv_def)
  from AddTx_pool [OF run_add_rejected.hyps(2) this] show ?case
    by (intro pool_invI [OF run_add_rejected.IH]) (auto simp: KnownTxAdd_def)
next
  case (run_invalid s acc inc)
  then show ?case by (intro pool_invI [OF run_invalid.IH]) (auto simp: dealInvalid_def processed_def)
next
  case (run_evict s acc inc curHigh)
  then show ?case by (intro pool_invI [OF run_evict.IH]) (auto simp: FitOnChain_def processed_def)
next
  case (run_stop s acc inc)
  then show ?case by (intro pool_invI [OF run_stop.IH]) (auto simp: stopLoop_def processed_def)
qed (blast intro: pool_inv_full pool_inv_verify pool_inv_pending pool_inv_ended pool_inv_block)+

section \<open>Properties\<close>



text \<open>
  Handing out work and taking it back.  \<open>Pending\<close> gives at most the requested number of pending transactions,
  each once, and removes exactly these; ending the work without success restores the pending transactions.
\<close>

theorem pending_roundtrip:
  assumes "keyed hs (tp_pending p)" "tp_working p workid = None"
    and "Pending hs order workid maxtxs p = (txs, p')"
  shows "length txs \<le> maxtxs \<and> distinct (map hs txs) \<and> (\<forall>tx\<in>set txs. tp_pending p (hs tx) = Some tx)
    \<and> tp_pending p' = tp_pending p |` (- hs ` set txs)
    \<and> tp_pending (WorkEnded hs workid n False p') = tp_pending p
    \<and> tp_working (WorkEnded hs workid n False p') = tp_working p"
proof -
  from Pending_range_spec [OF assms(1), where order = order and i = 0 and maxtxs = maxtxs and txs = "[]"] assms(3)
  have txs: "length txs \<le> maxtxs" "distinct (map hs txs)" "\<forall>tx\<in>set txs. tp_pending p (hs tx) = Some tx"
    and p': "p' = (if txs \<noteq> [] then p\<lparr>tp_pending := tp_pending p |` (- hs ` set txs), tp_working := (tp_working p)(workid \<mapsto> txs)\<rparr>
      else p\<lparr>tp_pending := tp_pending p |` (- hs ` set txs)\<rparr>)" by (auto simp: Pending_def Let_def)
  have "(tp_pending p |` (- hs ` set txs)) ++ entries hs id txs = tp_pending p"
  proof
    fix k
    show "((tp_pending p |` (- hs ` set txs)) ++ entries hs id txs) k = tp_pending p k"
    proof (cases "entries hs id txs k")
      case None
      then have "k \<notin> hs ` set txs" using dom_entries [of hs id txs] by auto
      with None show ?thesis by (simp add: map_add_def)
    next
      case (Some tx)
      with entries_SomeD [OF Some] txs(3) show ?thesis by (auto simp: map_add_def)
    qed
  qed
  with txs p' assms(2) show ?thesis
    by (cases "txs = []") (auto simp: WorkEnded_def WorkEnded_loop_spec restrict_map_def)
qed

theorem pending_roundtrip_witness:
  "\<exists>txs p'. Pending (\<lambda>n::nat. [of_nat n]) [[7]] 1 10 (NewTxPool\<lparr>tp_pending := [[7] \<mapsto> 7]\<rparr>) = (txs, p')
    \<and> tp_pending (WorkEnded (\<lambda>n. [of_nat n]) 1 0 False p') = [[7] \<mapsto> 7]"
proof -
  obtain txs p' where e: "Pending (\<lambda>n::nat. [of_nat n :: byte]) [[7]] 1 10 (NewTxPool\<lparr>tp_pending := [[7] \<mapsto> 7]\<rparr>) = (txs, p')"
    by force
  have "keyed (\<lambda>n::nat. [of_nat n]) (tp_pending (NewTxPool\<lparr>tp_pending := [[7] \<mapsto> 7]\<rparr>))"
    by (auto simp: keyed_def split: if_splits)
  from pending_roundtrip [OF this _ e] e show ?thesis by (auto simp: NewTxPool_def)
qed

text \<open>Running one goroutine for a number of steps.\<close>

fun full_steps :: "('tx \<Rightarrow> hash) \<Rightarrow> nat \<Rightarrow> nat \<Rightarrow> 'tx sys \<Rightarrow> (unit, 'tx sys) res" where
  "full_steps hs i 0 s = Ok s"
| "full_steps hs i (Suc n) s = res_bind (fullRoutine hs i s) (full_steps hs i n)"

fun verify_steps :: "('tx \<Rightarrow> hash) \<Rightarrow> nat \<Rightarrow> nat \<Rightarrow> 'tx sys \<Rightarrow> (unit, 'tx sys) res" where
  "verify_steps hs i 0 s = Ok s"
| "verify_steps hs i (Suc n) s = res_bind (verifyRoutine hs i s) (verify_steps hs i n)"

lemma full_drain:
  assumes "i < length (tp_fullCh (sy_pool s))" "i < length (tp_verifyCh (sy_pool s))" "sy_full s i = FIdle"
    and "tp_fullCh (sy_pool s) ! i = txs" "\<not> tp_closed (sy_pool s)"
    and "length (tp_verifyCh (sy_pool s) ! i) + length txs \<le> chanSize"
  shows "full_steps hs i (3 * length txs) s = Ok (s\<lparr>sy_pool := (sy_pool s)
    \<lparr>tp_fullCh := (tp_fullCh (sy_pool s))[i := []], tp_verifyCh := (tp_verifyCh (sy_pool s))[i := tp_verifyCh (sy_pool s) ! i @ txs],
     tp_queue := tp_queue (sy_pool s) ++ entries hs id txs\<rparr>\<rparr>)"
  using assms
proof (induction txs arbitrary: s)
  case Nil
  then have "(tp_fullCh (sy_pool s))[i := []] = tp_fullCh (sy_pool s)" by (metis list_update_id)
  then show ?case by (simp add: entries_simps)
next
  case (Cons tx txs)
  let ?p = "sy_pool s"
  define s3 where "s3 = s\<lparr>sy_pool := ?p\<lparr>tp_fullCh := (tp_fullCh ?p)[i := txs],
    tp_queue := (tp_queue ?p)(hs tx \<mapsto> tx), tp_verifyCh := (tp_verifyCh ?p)[i := tp_verifyCh ?p ! i @ [tx]]\<rparr>\<rparr>"
  have idle: "(sy_full s)(i := FIdle) = sy_full s" using Cons.prems(3) by auto
  have n: "3 * length (tx # txs) = Suc (Suc (Suc (3 * length txs)))" by simp
  have "full_steps hs i (3 * length (tx # txs)) s = full_steps hs i (3 * length txs) s3"
    unfolding n using Cons.prems idle
    by (simp add: fullRoutine_def sendToVerify_def Let_def s3_def fun_upd_same del: fun_upd_apply)
  moreover have "full_steps hs i (3 * length txs) s3 = Ok (s3\<lparr>sy_pool := (sy_pool s3)
    \<lparr>tp_fullCh := (tp_fullCh (sy_pool s3))[i := []], tp_verifyCh := (tp_verifyCh (sy_pool s3))[i := tp_verifyCh (sy_pool s3) ! i @ txs],
     tp_queue := tp_queue (sy_pool s3) ++ entries hs id txs\<rparr>\<rparr>)"
    by (rule Cons.IH) (use Cons.prems in \<open>auto simp: s3_def\<close>)
  ultimately show ?case
    using Cons.prems by (simp add: s3_def entries_simps id_def)
qed

lemma verify_drain:
  assumes "i < length (tp_verifyCh (sy_pool s))" "sy_verify s i = VIdle" "tp_verifyCh (sy_pool s) ! i = txs"
  shows "verify_steps hs i (3 * length txs) s = Ok (s\<lparr>sy_pool := (sy_pool s)
    \<lparr>tp_verifyCh := (tp_verifyCh (sy_pool s))[i := []], tp_pending := tp_pending (sy_pool s) ++ entries hs id txs,
     tp_queue := tp_queue (sy_pool s) |` (- hs ` set txs)\<rparr>\<rparr>)"
  using assms
proof (induction txs arbitrary: s)
  case Nil
  then have "(tp_verifyCh (sy_pool s))[i := []] = tp_verifyCh (sy_pool s)" by (metis list_update_id)
  then show ?case by (simp add: entries_simps restrict_map_def)
next
  case (Cons tx txs)
  let ?p = "sy_pool s"
  define s3 where "s3 = s\<lparr>sy_pool := ?p\<lparr>tp_verifyCh := (tp_verifyCh ?p)[i := txs],
    tp_pending := (tp_pending ?p)(hs tx \<mapsto> tx), tp_queue := (tp_queue ?p)(hs tx := None)\<rparr>\<rparr>"
  have idle: "(sy_verify s)(i := VIdle) = sy_verify s" using Cons.prems(2) by auto
  have n: "3 * length (tx # txs) = Suc (Suc (Suc (3 * length txs)))" by simp
  have "verify_steps hs i (3 * length (tx # txs)) s = verify_steps hs i (3 * length txs) s3"
    unfolding n using Cons.prems idle
    by (simp add: verifyRoutine_def verifyTx_def Let_def s3_def fun_upd_same del: fun_upd_apply)
  moreover have "verify_steps hs i (3 * length txs) s3 = Ok (s3\<lparr>sy_pool := (sy_pool s3)
    \<lparr>tp_verifyCh := (tp_verifyCh (sy_pool s3))[i := []], tp_pending := tp_pending (sy_pool s3) ++ entries hs id txs,
     tp_queue := tp_queue (sy_pool s3) |` (- hs ` set txs)\<rparr>\<rparr>)"
    by (rule Cons.IH) (use Cons.prems in \<open>auto simp: s3_def\<close>)
  moreover have "(tp_queue ?p)(hs tx := None) |` (- hs ` set txs) = tp_queue ?p |` (- hs ` set (tx # txs))"
    by (auto simp: restrict_map_def fun_eq_iff)
  ultimately show ?case
    using Cons.prems by (simp add: s3_def entries_simps id_def del: fun_upd_restrict_conv)
qed



text \<open>
  C37: A transaction refused for lack of room cannot be submitted again.  When every full channel is full, \<open>AddTx\<close>
  fails but has already recorded the hash as known, so the next attempt is refused as a duplicate, although the
  transaction is nowhere in the pool.
\<close>

theorem AddTx_full_blocks_retry:
  assumes "\<not> tp_closed p" "0 < tp_threadsNum p" "\<And>i. i < tp_threadsNum p \<Longrightarrow> chanSize \<le> length (tp_fullCh p ! i)"
    and "DupTx hs p tx = None"
  shows "\<exists>p'. AddTx hs start tx p = Ok (p', Some FullChFull) \<and> tp_queue p' (hs tx) = None \<and> tp_pending p' (hs tx) = None
    \<and> tp_fullCh p' = tp_fullCh p \<and> AddTx hs start' tx p' = Ok (p', Some (KnownTransaction (hs tx)))"
proof -
  have loop: "AddTx_loop js tx q = Ok (q, Some FullChFull)"
    if "\<not> tp_closed q" "\<forall>i\<in>set js. \<not> length (tp_fullCh q ! i) < chanSize" for js q
    using that by (induction js) (auto simp: sendToFull_def)
  have "AddTx hs start tx p = Ok (KnownTxAdd (hs tx) p, Some FullChFull)"
  proof -
    have "\<not> length (tp_fullCh p ! (j mod tp_threadsNum p)) < chanSize" for j
      using assms(2,3) by (simp add: not_less)
    with assms(1,2,4) show ?thesis
      unfolding AddTx_def by (auto simp: Let_def KnownTxAdd_def intro!: loop)
  qed
  with assms(4) show ?thesis
    by (intro exI [of _ "KnownTxAdd (hs tx) p"]) (auto simp: AddTx_def DupTx_def KnownTxAdd_def Let_def split: if_splits)
qed

theorem AddTx_full_blocks_retry_witness:
  "\<exists>p'. AddTx (\<lambda>n::nat. [of_nat n]) 0 7 (NewTxPool\<lparr>tp_fullCh := replicate 4 (replicate chanSize 1)\<rparr>) = Ok (p', Some FullChFull)
    \<and> AddTx (\<lambda>n::nat. [of_nat n]) 2 7 p' = Ok (p', Some (KnownTransaction [7]))"
  using AddTx_full_blocks_retry [of "NewTxPool\<lparr>tp_fullCh := replicate 4 (replicate chanSize 1)\<rparr>" "\<lambda>n::nat. [of_nat n]" 7 0 2]
  by (auto simp: NewTxPool_def maxThreadNumber_def DupTx_def)

text \<open>
  C38: Eviction evicts nothing.  As long as no transaction is recorded above the head of the chain (and the head plus
  the pool's block count does not overflow), \<open>FitOnChain\<close> leaves the recorded transactions as they are.
\<close>

theorem FitOnChain_keeps_all:
  assumes "\<And>k n. tp_onChain p k = Some n \<Longrightarrow> n \<le> curHigh"
    and "unat curHigh + unat (tp_poolBlockCount p) < 2 ^ 64"
  shows "FitOnChain curHigh p = p"
proof -
  have "curHigh \<le> curHigh + tp_poolBlockCount p" using assms(2) by (simp add: word_le_nat_alt unat_word_ariths)
  then have "\<not> n > curHigh + tp_poolBlockCount p" if "tp_onChain p k = Some n" for k n
    using assms(1) [OF that] by simp
  then have "(\<lambda>k. case tp_onChain p k of None \<Rightarrow> None
      | Some number \<Rightarrow> if number > curHigh + tp_poolBlockCount p then None else Some number) = tp_onChain p"
    by (auto simp: fun_eq_iff split: option.split)
  then show ?thesis by (simp add: FitOnChain_def)
qed

theorem FitOnChain_keeps_all_witness:
  "FitOnChain 1000000 (NewTxPool\<lparr>tp_onChain := [[7] \<mapsto> 1]\<rparr> :: nat TxPool) = NewTxPool\<lparr>tp_onChain := [[7] \<mapsto> 1]\<rparr>"
  by (rule FitOnChain_keeps_all) (auto simp: NewTxPool_def split: if_splits)

text \<open>
  C39: Stopping can crash.  There is a run in which the pool is stopped while a transaction is on its way to
  verification; the next step of its goroutine sends on the closed channel and panics.
\<close>

theorem stop_can_panic:
  "\<exists>s acc. pool_run (\<lambda>n::nat. [of_nat n]) s acc {} \<and> fullRoutine (\<lambda>n. [of_nat n]) 0 s = Panic"
proof -
  let ?hs = "\<lambda>n::nat. [of_nat n :: byte]"
  let ?s = "\<lparr>sy_pool = NewTxPool, sy_full = \<lambda>_. FIdle, sy_verify = \<lambda>_. VIdle\<rparr> :: nat sys"
  obtain p where p: "AddTx ?hs 0 7 (sy_pool ?s) = Ok (p, None)" "tp_fullCh p ! 0 = [7]"
    by (simp add: AddTx_def NewTxPool_def DupTx_def KnownTxAdd_def maxThreadNumber_def Let_def upt_rec sendToFull_def chanSize_def)
  let ?s1 = "?s\<lparr>sy_pool := p\<rparr>"
  obtain s2 s3 where s: "fullRoutine ?hs 0 ?s1 = Ok s2" "fullRoutine ?hs 0 s2 = Ok s3" "sy_full s3 0 = FStored 7"
    using p(2) by (simp add: fullRoutine_def Let_def)
  have "pool_run ?hs s3 {?hs 7} {}"
    using run_full [OF run_full [OF run_add [OF run_init p(1)] _ s(1)] _ s(2)] by (simp add: maxThreadNumber_def)
  from run_stop [OF this] s(3) show ?thesis
    by (intro exI [of _ "s3\<lparr>sy_pool := stopLoop (sy_pool s3)\<rparr>"] exI [of _ "{?hs 7}"])
      (simp add: fullRoutine_def Let_def sendToVerify_def stopLoop_def)
qed

end
