(* ===== verification/Secure_Trie.thy ===== *)
theory Secure_Trie
  imports Trie_Commit
begin

text \<open>
  The secure trie, \<^verbatim>\<open>src/common/trie/secure_trie.go\<close>: a trie whose keys are hashed, with a cache of the keys behind
  the hashes.  The hash function is the parameter \<open>kec\<close> and the trie's database the parameter \<open>db\<close> of the operations.
  The interface \<open>Trie\<close> of \<^verbatim>\<open>src/blockchain/state/database.go\<close>, which the state is written against, is the record
  \<open>trie_backend\<close>; the locale \<open>backend\<close> states what the state relies on, and the secure trie is shown to provide it.
\<close>

section \<open>The secure trie\<close>

text \<open>\<open>sec_owner\<close>: the cache belongs to this trie and not to the one it was copied from.\<close>

record SecureTrie =
  sec_trie :: Trie
  sec_cache :: "bytes \<rightharpoonup> bytes"
  sec_owner :: bool

definition secureKeyPrefix :: bytes where
  "secureKeyPrefix = [0x73, 0x65, 0x63, 0x75, 0x72, 0x65, 0x2d, 0x6b, 0x65, 0x79, 0x2d]"

definition NewSecure :: "hash \<Rightarrow> db option \<Rightarrow> u16 \<Rightarrow> (trie_error, SecureTrie) res" where
  "NewSecure root db cachelimit =
     (case db of
        None \<Rightarrow> Panic
      | Some _ \<Rightarrow>
          res_map (\<lambda>trie. \<lparr>sec_trie = SetCacheLimit cachelimit trie, sec_cache = Map.empty, sec_owner = False\<rparr>)
            (Trie_New root db))"

definition secKey :: "bytes \<Rightarrow> bytes" where
  "secKey key = secureKeyPrefix @ key"

definition hashKey :: "(bytes \<Rightarrow> bytes) \<Rightarrow> bytes \<Rightarrow> bytes" where
  "hashKey kec key = kec key"

definition getSecKeyCache :: "SecureTrie \<Rightarrow> SecureTrie" where
  "getSecKeyCache t = (if sec_owner t then t else t\<lparr>sec_owner := True, sec_cache := Map.empty\<rparr>)"

definition sec_TryGet :: "(bytes \<Rightarrow> bytes) \<Rightarrow> nat \<Rightarrow> db \<Rightarrow> SecureTrie \<Rightarrow> bytes \<Rightarrow> (trie_error, bytes option \<times> SecureTrie) res" where
  "sec_TryGet kec fuel db t key =
     res_map (\<lambda>(v, tr). (v, t\<lparr>sec_trie := tr\<rparr>)) (TryGet fuel db (sec_trie t) (hashKey kec key))"

definition sec_TryUpdate :: "(bytes \<Rightarrow> bytes) \<Rightarrow> nat \<Rightarrow> db \<Rightarrow> SecureTrie \<Rightarrow> bytes \<Rightarrow> bytes \<Rightarrow> (trie_error, SecureTrie) res" where
  "sec_TryUpdate kec fuel db t key value =
     (let hk = hashKey kec key
      in res_map (\<lambda>tr. let t' = getSecKeyCache (t\<lparr>sec_trie := tr\<rparr>) in t'\<lparr>sec_cache := (sec_cache t')(hk \<mapsto> key)\<rparr>)
           (TryUpdate fuel db (sec_trie t) hk value))"

text \<open>The cache entry is removed also when the trie then returns an error.\<close>

definition sec_TryDelete :: "(bytes \<Rightarrow> bytes) \<Rightarrow> nat \<Rightarrow> db \<Rightarrow> SecureTrie \<Rightarrow> bytes \<Rightarrow> (unit, trie_error option \<times> SecureTrie) res" where
  "sec_TryDelete kec fuel db t key =
     (let hk = hashKey kec key; t1 = getSecKeyCache t; t2 = t1\<lparr>sec_cache := (sec_cache t1)(hk := None)\<rparr>
      in case TryDelete fuel db (sec_trie t) hk of
           Ok tr \<Rightarrow> Ok (None, t2\<lparr>sec_trie := tr\<rparr>)
         | Err e \<Rightarrow> Ok (Some e, t2)
         | Panic \<Rightarrow> Panic
         | Diverge \<Rightarrow> Diverge)"

text \<open>\<open>Get\<close>, \<open>Update\<close> and \<open>Delete\<close> log an error and go on.\<close>

definition sec_Get :: "(bytes \<Rightarrow> bytes) \<Rightarrow> nat \<Rightarrow> db \<Rightarrow> SecureTrie \<Rightarrow> bytes \<Rightarrow> (trie_error, bytes option \<times> SecureTrie) res" where
  "sec_Get kec fuel db t key = (case sec_TryGet kec fuel db t key of Err e \<Rightarrow> Ok (None, t) | r \<Rightarrow> r)"

definition sec_Update :: "(bytes \<Rightarrow> bytes) \<Rightarrow> nat \<Rightarrow> db \<Rightarrow> SecureTrie \<Rightarrow> bytes \<Rightarrow> bytes \<Rightarrow> (trie_error, SecureTrie) res" where
  "sec_Update kec fuel db t key value = (case sec_TryUpdate kec fuel db t key value of Err e \<Rightarrow> Ok t | r \<Rightarrow> r)"

definition sec_Delete :: "(bytes \<Rightarrow> bytes) \<Rightarrow> nat \<Rightarrow> db \<Rightarrow> SecureTrie \<Rightarrow> bytes \<Rightarrow> (unit, SecureTrie) res" where
  "sec_Delete kec fuel db t key = res_map snd (sec_TryDelete kec fuel db t key)"

definition sec_GetKey :: "db \<Rightarrow> SecureTrie \<Rightarrow> bytes \<Rightarrow> bytes option \<times> SecureTrie" where
  "sec_GetKey db t shaKey =
     (let t' = getSecKeyCache t
      in case sec_cache t' shaKey of Some key \<Rightarrow> (Some key, t') | None \<Rightarrow> (db (secKey shaKey), t'))"

definition sec_Hash :: "(bytes \<Rightarrow> bytes) \<Rightarrow> SecureTrie \<Rightarrow> (trie_error, hash \<times> SecureTrie) res" where
  "sec_Hash kec t = res_map (\<lambda>(h, tr). (h, t\<lparr>sec_trie := tr\<rparr>)) (Trie_Hash kec (sec_trie t))"

definition sec_Copy :: "SecureTrie \<Rightarrow> SecureTrie" where
  "sec_Copy t = t\<lparr>sec_owner := False\<rparr>"

text \<open>The loop over the cache visits its keys in the order given.\<close>

fun put_preimages :: "('e, 'd) putter \<Rightarrow> (bytes \<rightharpoonup> bytes) \<Rightarrow> bytes list \<Rightarrow> 'd \<Rightarrow> ('e, 'd) res" where
  "put_preimages put cache [] d = Ok d"
| "put_preimages put cache (hk # order) d =
     (case cache hk of
        None \<Rightarrow> put_preimages put cache order d
      | Some key \<Rightarrow> res_bind (put d (secKey hk) key) (put_preimages put cache order))"

definition sec_CommitTo ::
  "(bytes \<Rightarrow> bytes) \<Rightarrow> ('e, 'd) putter \<Rightarrow> bytes list \<Rightarrow> SecureTrie \<Rightarrow> 'd \<Rightarrow> ('e, hash \<times> SecureTrie \<times> 'd) res" where
  "sec_CommitTo kec put order t d =
     (let t = getSecKeyCache t
      in res_bind (put_preimages put (sec_cache t) order d) (\<lambda>d'.
         res_map (\<lambda>(root, tr, d''). (root, t\<lparr>sec_trie := tr, sec_cache := Map.empty\<rparr>, d''))
           (CommitTo kec put (sec_trie t) d')))"

section \<open>The interface of the state\<close>

text \<open>
  The methods of the interfaces \<open>Trie\<close> and \<open>Database\<close> that the state calls.  An error comes with the trie it leaves.
  The storage tries of all accounts are opened from the same database.
\<close>

record 't trie_backend =
  be_get :: "'t \<Rightarrow> bytes \<Rightarrow> (unit, trie_error option \<times> bytes option \<times> 't) res"
  be_update :: "'t \<Rightarrow> bytes \<Rightarrow> bytes \<Rightarrow> (unit, trie_error option \<times> 't) res"
  be_delete :: "'t \<Rightarrow> bytes \<Rightarrow> (unit, trie_error option \<times> 't) res"
  be_hash :: "'t \<Rightarrow> (unit, hash \<times> 't) res"
  be_openTrie :: "hash \<Rightarrow> (trie_error, 't) res"
  be_openStorageTrie :: "hash \<Rightarrow> hash \<Rightarrow> (trie_error, 't) res"

fun with_error :: "'a \<Rightarrow> ('e, 'a) res \<Rightarrow> (unit, 'e option \<times> 'a) res" where
  "with_error a (Ok x) = Ok (None, x)"
| "with_error a (Err e) = Ok (Some e, a)"
| "with_error a Panic = Panic"
| "with_error a Diverge = Diverge"

fun no_error :: "('e, 'a) res \<Rightarrow> ('f, 'a) res" where
  "no_error (Ok x) = Ok x"
| "no_error (Err e) = Panic"
| "no_error Panic = Panic"
| "no_error Diverge = Diverge"

definition OpenStorageTrie :: "db \<Rightarrow> hash \<Rightarrow> hash \<Rightarrow> (trie_error, SecureTrie) res" where
  "OpenStorageTrie db addrHash root = NewSecure root (Some db) 0"

definition MaxTrieCacheGen :: u16 where "MaxTrieCacheGen = 120"

text \<open>
  The secure trie as the state's backend.  The account tries that \<^verbatim>\<open>cachingDB\<close> remembers after a commit (\<open>pastTries\<close>) are
  not modelled: opening reads the database.
\<close>

definition secure_backend :: "(bytes \<Rightarrow> bytes) \<Rightarrow> nat \<Rightarrow> db \<Rightarrow> SecureTrie trie_backend" where
  "secure_backend kec fuel db =
     \<lparr>be_get = (\<lambda>t k. with_error (None, t) (sec_TryGet kec fuel db t k)),
      be_update = (\<lambda>t k v. with_error t (sec_TryUpdate kec fuel db t k v)),
      be_delete = (\<lambda>t k. sec_TryDelete kec fuel db t k),
      be_hash = (\<lambda>t. no_error (sec_Hash kec t)),
      be_openTrie = (\<lambda>root. NewSecure root (Some db) MaxTrieCacheGen),
      be_openStorageTrie = OpenStorageTrie db\<rparr>"

text \<open>
  What the state relies on: a relation between tries and finite maps such that reading returns what the map holds and
  does not change it, and writing and deleting change one binding.
\<close>

locale backend =
  fixes be :: "'t trie_backend"
    and rep :: "'t \<Rightarrow> (bytes \<Rightarrow> bytes option) \<Rightarrow> bool"
    and keys :: "bytes set"
  assumes rep_get: "rep t m \<Longrightarrow> k \<in> keys \<Longrightarrow> \<exists>t'. be_get be t k = Ok (None, m k, t') \<and> rep t' m"
    and rep_update: "rep t m \<Longrightarrow> k \<in> keys \<Longrightarrow> v \<noteq> [] \<Longrightarrow> \<exists>t'. be_update be t k v = Ok (None, t') \<and> rep t' (m(k \<mapsto> v))"
    and rep_delete: "rep t m \<Longrightarrow> k \<in> keys \<Longrightarrow> \<exists>t'. be_delete be t k = Ok (None, t') \<and> rep t' (m(k := None))"
    and rep_fun: "rep t m \<Longrightarrow> rep t m' \<Longrightarrow> k \<in> keys \<Longrightarrow> m k = m' k"
begin

lemma rep_getD: "rep t m \<Longrightarrow> k \<in> keys \<Longrightarrow> be_get be t k = Ok (e, v, t') \<Longrightarrow> e = None \<and> v = m k \<and> rep t' m"
  using rep_get [of t m k] by auto

end

text \<open>
  The secure trie represents a map on the keys \<open>K\<close> when the hash function does not identify two of them, the fuel is
  enough for their hashes, and the trie under it holds the map's bindings.
\<close>

definition sec_rep :: "(bytes \<Rightarrow> bytes) \<Rightarrow> nat \<Rightarrow> db \<Rightarrow> bytes set \<Rightarrow> SecureTrie \<Rightarrow> (bytes \<Rightarrow> bytes option) \<Rightarrow> bool" where
  "sec_rep kec fuel db K t m \<longleftrightarrow>
     inj_on kec K \<and> (\<forall>k\<in>K. enough fuel (kec k))
     \<and> (\<exists>p. represents db (sec_trie t) p \<and> (\<forall>k\<in>K. content p (kec k) = m k))"

lemma TryGet_represents:
  "represents db t p \<Longrightarrow> enough fuel key \<Longrightarrow> \<exists>t'. TryGet fuel db t key = Ok (content p key, t') \<and> represents db t' p"
  using plain.TryGet_reps unfolding represents_reps .

lemma TryDelete_represents:
  assumes "represents db t p" "enough fuel key"
  shows "\<exists>t' p'. TryDelete fuel db t key = Ok t' \<and> represents db t' p' \<and> content p' = (content p)(key := None)"
proof -
  have "canon_root p" using assms(1) by (simp add: represents_def)
  from content_pdelete [OF this, of key] plain.TryDelete_reps [of db t p fuel key] assms show ?thesis
    unfolding represents_reps by blast
qed

lemma TryUpdate_represents:
  assumes "represents db t p" "enough fuel key" "v \<noteq> []"
  shows "\<exists>t' p'. TryUpdate fuel db t key v = Ok t' \<and> represents db t' p' \<and> content p' = (content p)(key \<mapsto> v)"
proof -
  have c: "canon_root p" using assms(1) by (simp add: represents_def)
  from plain.TryUpdate_reps [of db t p fuel "(key, v)"] assms show ?thesis
    unfolding represents_reps using content_pinsert [OF c assms(3), of key]
    by (auto simp: ptree_ops_def hex_op_def)
qed

interpretation sec: backend "secure_backend kec fuel db" "sec_rep kec fuel db K" K for kec fuel db K
proof
  fix t m k
  assume r: "sec_rep kec fuel db K t m" "k \<in> K"
  then obtain p where p: "represents db (sec_trie t) p" "\<forall>k\<in>K. content p (kec k) = m k"
    and inj: "inj_on kec K" and f: "\<forall>k\<in>K. enough fuel (kec k)"
    by (auto simp: sec_rep_def)
  have fk: "enough fuel (kec k)" using f r(2) by blast
  have upd: "\<forall>k'\<in>K. ((content p)(kec k := x)) (kec k') = (m(k := x)) k'" for x
    using p(2) inj r(2) by (auto simp: inj_on_def)
  show "\<exists>t'. be_get (secure_backend kec fuel db) t k = Ok (None, m k, t') \<and> sec_rep kec fuel db K t' m"
    using TryGet_represents [OF p(1) fk] p(2) r(2) inj f
    by (auto simp: secure_backend_def sec_TryGet_def hashKey_def sec_rep_def)
  have rep': "sec_rep kec fuel db K u (m(k := x))" if "represents db (sec_trie u) p'" "content p' = (content p)(kec k := x)" for u p' x
    unfolding sec_rep_def using inj f upd [of x] that by (intro conjI exI [of _ p']) simp_all
  show "\<exists>t'. be_delete (secure_backend kec fuel db) t k = Ok (None, t') \<and> sec_rep kec fuel db K t' (m(k := None))"
    using TryDelete_represents [OF p(1) fk] rep' by (fastforce simp: secure_backend_def sec_TryDelete_def hashKey_def Let_def)
  show "\<exists>t'. be_update (secure_backend kec fuel db) t k v = Ok (None, t') \<and> sec_rep kec fuel db K t' (m(k \<mapsto> v))"
    if "v \<noteq> []" for v
  proof -
    from TryUpdate_represents [OF p(1) fk that] obtain tr p' where
      "TryUpdate fuel db (sec_trie t) (kec k) v = Ok tr" "represents db tr p'" "content p' = (content p)(kec k \<mapsto> v)" by blast
    then show ?thesis
      using rep' [where p' = p'] by (simp add: secure_backend_def sec_TryUpdate_def getSecKeyCache_def hashKey_def Let_def)
  qed
next
  fix t m m' k
  assume r: "sec_rep kec fuel db K t m" "sec_rep kec fuel db K t m'" "k \<in> K"
  then obtain p p' where p: "represents db (sec_trie t) p" "content p (kec k) = m k"
    "represents db (sec_trie t) p'" "content p' (kec k) = m' k" "enough fuel (kec k)"
    by (auto simp: sec_rep_def)
  from TryGet_represents [OF p(1,5)] TryGet_represents [OF p(3,5)] p(2,4) show "m k = m' k" by auto
qed

end
