(* ===== verification/State_DB.thy ===== *)
theory State_DB
  imports Secure_Trie Rlp_Decode
begin

text \<open>
  The world state, \<^verbatim>\<open>src/blockchain/state\<close>: accounts with storage (\<^verbatim>\<open>state_object.go\<close>), the journal of changes
  (\<^verbatim>\<open>journal.go\<close>) and the state with its snapshots (\<^verbatim>\<open>statedb.go\<close>).  The tries are used through the interface of
  \<open>Secure_Trie\<close>, the argument \<open>be\<close>.  A live object is the value in the map of live objects: the code reaches it
  through that map only, and a change through its pointer is an update of the map.  The range over a map visits its
  keys in an order that is an argument.  Balances, nonces and code are stubs in the code: the setters create the
  account and nothing else.
\<close>

section \<open>Accounts\<close>

datatype state_error = TrieError trie_error | OpenError trie_error | SplitError rlp_error

text \<open>\<open>so_onDirty\<close>: the callback that marks the object dirty is still set.\<close>

record 't stateObject =
  so_address :: address
  so_addrHash :: hash
  so_root :: hash
  so_dbErr :: "state_error option"
  so_trie :: "'t option"
  so_cached :: "hash \<rightharpoonup> hash"
  so_dirty :: "hash \<rightharpoonup> hash"
  so_suicided :: bool
  so_touched :: bool
  so_deleted :: bool
  so_onDirty :: bool

definition newObject :: "(bytes \<Rightarrow> bytes) \<Rightarrow> address \<Rightarrow> hash \<Rightarrow> bool \<Rightarrow> 't stateObject" where
  "newObject kec addr root onDirty =
     \<lparr>so_address = addr, so_addrHash = kec addr, so_root = root, so_dbErr = None, so_trie = None, so_cached = Map.empty,
      so_dirty = Map.empty, so_suicided = False, so_touched = False, so_deleted = False, so_onDirty = onDirty\<rparr>"

definition emptyCodeHash :: "(bytes \<Rightarrow> bytes) \<Rightarrow> hash" where
  "emptyCodeHash kec = kec []"

definition so_empty :: "(bytes \<Rightarrow> bytes) \<Rightarrow> 't stateObject \<Rightarrow> bool" where
  "so_empty kec o' = (so_root o' = emptyCodeHash kec)"

definition first_error :: "'e option \<Rightarrow> 'e option \<Rightarrow> 'e option" where
  "first_error old new = (case old of None \<Rightarrow> new | Some e \<Rightarrow> Some e)"

definition so_setError :: "state_error option \<Rightarrow> 't stateObject \<Rightarrow> 't stateObject" where
  "so_setError err o' = o'\<lparr>so_dbErr := first_error (so_dbErr o') err\<rparr>"

definition so_getTrie :: "'t trie_backend \<Rightarrow> 't stateObject \<Rightarrow> (unit, 't \<times> 't stateObject) res" where
  "so_getTrie be o' =
     (case so_trie o' of
        Some t \<Rightarrow> Ok (t, o')
      | None \<Rightarrow>
          (case be_openStorageTrie be (so_addrHash o') (so_root o') of
             Ok t \<Rightarrow> Ok (t, o'\<lparr>so_trie := Some t\<rparr>)
           | Err e \<Rightarrow>
               (case be_openStorageTrie be (so_addrHash o') zeroHash of
                  Ok t \<Rightarrow> Ok (t, so_setError (Some (OpenError e)) (o'\<lparr>so_trie := Some t\<rparr>))
                | Err e' \<Rightarrow> Panic
                | Panic \<Rightarrow> Panic
                | Diverge \<Rightarrow> Diverge)
           | Panic \<Rightarrow> Panic
           | Diverge \<Rightarrow> Diverge))"

definition so_loaded :: "hash \<Rightarrow> hash \<Rightarrow> 't stateObject \<Rightarrow> hash \<times> 't stateObject" where
  "so_loaded key v o' = (v, if v \<noteq> zeroHash then o'\<lparr>so_cached := (so_cached o')(key \<mapsto> v)\<rparr> else o')"

definition so_GetState :: "'t trie_backend \<Rightarrow> hash \<Rightarrow> 't stateObject \<Rightarrow> (unit, hash \<times> 't stateObject) res" where
  "so_GetState be key o' =
     (case so_cached o' key of
        Some v \<Rightarrow> Ok (v, o')
      | None \<Rightarrow>
          res_bind (so_getTrie be o') (\<lambda>(t, o').
          res_bind (be_get be t key) (\<lambda>(err, enc, t').
            let o' = o'\<lparr>so_trie := Some t'\<rparr>
            in case err of
                 Some e \<Rightarrow> Ok (zeroHash, so_setError (Some (TrieError e)) o')
               | None \<Rightarrow>
                   (case enc of
                      None \<Rightarrow> Ok (so_loaded key zeroHash o')
                    | Some b \<Rightarrow>
                        if length b > 0 then
                          (case Split b of
                             Ok (_, c, _) \<Rightarrow> Ok (so_loaded key (BytesToHash c) o')
                           | Err e \<Rightarrow> Ok (so_loaded key zeroHash (so_setError (Some (SplitError e)) o'))
                           | Panic \<Rightarrow> Panic
                           | Diverge \<Rightarrow> Diverge)
                        else Ok (so_loaded key zeroHash o')))))"

definition so_setState :: "hash \<Rightarrow> hash \<Rightarrow> 't stateObject \<Rightarrow> 't stateObject" where
  "so_setState key v o' =
     o'\<lparr>so_cached := (so_cached o')(key \<mapsto> v), so_dirty := (so_dirty o')(key \<mapsto> v), so_onDirty := False\<rparr>"

definition so_markSuicided :: "'t stateObject \<Rightarrow> 't stateObject" where
  "so_markSuicided o' = o'\<lparr>so_suicided := True, so_onDirty := False\<rparr>"

fun TrimLeft :: "bytes \<Rightarrow> bytes" where
  "TrimLeft (b # bs) = (if b = 0 then TrimLeft bs else b # bs)"
| "TrimLeft [] = []"

text \<open>The body of the range over the dirty storage; \<open>t\<close> is the storage trie.\<close>

fun updateTrie_loop :: "'t trie_backend \<Rightarrow> hash list \<Rightarrow> 't \<Rightarrow> 't stateObject \<Rightarrow> (unit, 't \<times> 't stateObject) res" where
  "updateTrie_loop be [] t o' = Ok (t, o')"
| "updateTrie_loop be (key # order) t o' =
     (case so_dirty o' key of
        None \<Rightarrow> updateTrie_loop be order t o'
      | Some v \<Rightarrow>
          (let o' = o'\<lparr>so_dirty := (so_dirty o')(key := None)\<rparr>
           in if v = zeroHash then
                res_bind (be_delete be t key) (\<lambda>(err, t').
                  updateTrie_loop be order t' (so_setError (map_option TrieError err) o'))
              else
                (case EncodeToBytes (BytesV (TrimLeft v)) of
                   Ok enc \<Rightarrow>
                     res_bind (be_update be t key enc) (\<lambda>(err, t').
                       updateTrie_loop be order t' (so_setError (map_option TrieError err) o'))
                 | _ \<Rightarrow> Panic)))"

definition so_updateTrie :: "'t trie_backend \<Rightarrow> hash list \<Rightarrow> 't stateObject \<Rightarrow> (unit, 't stateObject) res" where
  "so_updateTrie be order o' =
     res_bind (so_getTrie be o') (\<lambda>(t, o').
     res_bind (updateTrie_loop be order t o') (\<lambda>(t', o'). Ok (o'\<lparr>so_trie := Some t'\<rparr>)))"

definition so_updateRoot :: "'t trie_backend \<Rightarrow> hash list \<Rightarrow> 't stateObject \<Rightarrow> (unit, 't stateObject) res" where
  "so_updateRoot be order o' =
     res_bind (so_updateTrie be order o') (\<lambda>o'.
       case so_trie o' of
         None \<Rightarrow> Panic
       | Some t \<Rightarrow> res_bind (be_hash be t) (\<lambda>(h, t'). Ok (o'\<lparr>so_root := h, so_trie := Some t'\<rparr>)))"

text \<open>\<open>commit\<close> is the \<open>CommitTo\<close> of the trie, to the writer \<open>d\<close>.\<close>

definition so_CommitTrie ::
  "'t trie_backend \<Rightarrow> ('t \<Rightarrow> 'd \<Rightarrow> (state_error, hash \<times> 't \<times> 'd) res) \<Rightarrow> hash list \<Rightarrow> 't stateObject \<Rightarrow> 'd
    \<Rightarrow> (unit, state_error option \<times> 't stateObject \<times> 'd) res" where
  "so_CommitTrie be commit order o' d =
     res_bind (so_updateTrie be order o') (\<lambda>o'.
       case so_dbErr o' of
         Some e \<Rightarrow> Ok (Some e, o', d)
       | None \<Rightarrow>
           (case so_trie o' of
              None \<Rightarrow> Panic
            | Some t \<Rightarrow>
                (case commit t d of
                   Ok (root, t', d') \<Rightarrow> Ok (None, o'\<lparr>so_root := root, so_trie := Some t'\<rparr>, d')
                 | Err e \<Rightarrow> Ok (Some e, o', d)
                 | Panic \<Rightarrow> Panic
                 | Diverge \<Rightarrow> Diverge)))"

section \<open>The state\<close>

record 'l Log =
  lg_body :: 'l
  lg_txHash :: hash
  lg_blockHash :: hash
  lg_txIndex :: u64
  lg_index :: u64

datatype 't journalEntry =
    CreateObjectChange address
  | ResetObjectChange "'t stateObject"
  | SuicideChange address bool int
  | StorageChange address hash hash
  | RefundChange int
  | AddLogChange hash
  | AddPreimageChange hash
  | TouchChange address bool bool

record revision =
  rv_id :: int
  rv_journalIndex :: nat

record ('t, 'l) StateDB =
  sd_trie :: 't
  sd_objects :: "address \<rightharpoonup> 't stateObject"
  sd_dirty :: "address set"
  sd_dbErr :: "state_error option"
  sd_refund :: int
  sd_thash :: hash
  sd_bhash :: hash
  sd_txIndex :: u64
  sd_logs :: "hash \<rightharpoonup> 'l Log list"
  sd_logSize :: u64
  sd_preimages :: "hash \<rightharpoonup> bytes"
  sd_journal :: "'t journalEntry list"
  sd_validRevisions :: "revision list"
  sd_nextRevisionId :: int

definition State_New :: "'t trie_backend \<Rightarrow> hash \<Rightarrow> (trie_error, ('t, 'l) StateDB) res" where
  "State_New be root =
     res_map (\<lambda>tr.
       \<lparr>sd_trie = tr, sd_objects = Map.empty, sd_dirty = {}, sd_dbErr = None, sd_refund = 0, sd_thash = zeroHash,
        sd_bhash = zeroHash, sd_txIndex = 0, sd_logs = Map.empty, sd_logSize = 0, sd_preimages = Map.empty,
        sd_journal = [], sd_validRevisions = [], sd_nextRevisionId = 0\<rparr>)
       (be_openTrie be root)"

definition sd_setError :: "state_error option \<Rightarrow> ('t, 'l) StateDB \<Rightarrow> ('t, 'l) StateDB" where
  "sd_setError err s = s\<lparr>sd_dbErr := first_error (sd_dbErr s) err\<rparr>"

definition clearJournalAndRefund :: "('t, 'l) StateDB \<Rightarrow> ('t, 'l) StateDB" where
  "clearJournalAndRefund s = s\<lparr>sd_journal := [], sd_validRevisions := [], sd_refund := 0\<rparr>"

definition sd_Reset :: "'t trie_backend \<Rightarrow> hash \<Rightarrow> ('t, 'l) StateDB \<Rightarrow> (trie_error, ('t, 'l) StateDB) res" where
  "sd_Reset be root s =
     res_map (\<lambda>tr. clearJournalAndRefund
       (s\<lparr>sd_trie := tr, sd_objects := Map.empty, sd_dirty := {}, sd_thash := zeroHash, sd_bhash := zeroHash, sd_txIndex := 0,
          sd_logs := Map.empty, sd_logSize := 0, sd_preimages := Map.empty\<rparr>))
       (be_openTrie be root)"

definition append_journal :: "'t journalEntry \<Rightarrow> ('t, 'l) StateDB \<Rightarrow> ('t, 'l) StateDB" where
  "append_journal ch s = s\<lparr>sd_journal := sd_journal s @ [ch]\<rparr>"

definition AddLog :: "'l Log \<Rightarrow> ('t, 'l) StateDB \<Rightarrow> ('t, 'l) StateDB" where
  "AddLog log s =
     (let s = append_journal (AddLogChange (sd_thash s)) s;
          log = log\<lparr>lg_txHash := sd_thash s, lg_blockHash := sd_bhash s, lg_txIndex := sd_txIndex s, lg_index := sd_logSize s\<rparr>;
          logs = (case sd_logs s (sd_thash s) of None \<Rightarrow> [] | Some ls \<Rightarrow> ls)
      in s\<lparr>sd_logs := (sd_logs s)(sd_thash s \<mapsto> logs @ [log]), sd_logSize := sd_logSize s + 1\<rparr>)"

definition GetLogs :: "hash \<Rightarrow> ('t, 'l) StateDB \<Rightarrow> 'l Log list" where
  "GetLogs h s = (case sd_logs s h of None \<Rightarrow> [] | Some ls \<Rightarrow> ls)"

definition AddPreimage :: "hash \<Rightarrow> bytes \<Rightarrow> ('t, 'l) StateDB \<Rightarrow> ('t, 'l) StateDB" where
  "AddPreimage h preimage s =
     (if sd_preimages s h = None
      then (append_journal (AddPreimageChange h) s)\<lparr>sd_preimages := (sd_preimages s)(h \<mapsto> preimage)\<rparr>
      else s)"

definition AddRefund :: "int \<Rightarrow> ('t, 'l) StateDB \<Rightarrow> ('t, 'l) StateDB" where
  "AddRefund gas s = (append_journal (RefundChange (sd_refund s)) s)\<lparr>sd_refund := sd_refund s + gas\<rparr>"

definition setStateObject :: "'t stateObject \<Rightarrow> ('t, 'l) StateDB \<Rightarrow> ('t, 'l) StateDB" where
  "setStateObject o' s = s\<lparr>sd_objects := (sd_objects s)(so_address o' \<mapsto> o')\<rparr>"

definition MarkStateObjectDirty :: "address \<Rightarrow> ('t, 'l) StateDB \<Rightarrow> ('t, 'l) StateDB" where
  "MarkStateObjectDirty addr s = s\<lparr>sd_dirty := insert addr (sd_dirty s)\<rparr>"

text \<open>An account is encoded as a struct with one field, the root of its storage trie.\<close>

definition Account_type :: rtype where
  "Account_type = TStruct [TByteArray HashLength]"

definition decodeAccount :: "bytes \<Rightarrow> (rlp_error, hash) res" where
  "decodeAccount enc =
     (case DecodeBytes (length enc + 3) Account_type enc of
        Ok (ListV [BytesV root]) \<Rightarrow> Ok root
      | Ok _ \<Rightarrow> Panic
      | Err e \<Rightarrow> Err e
      | Panic \<Rightarrow> Panic
      | Diverge \<Rightarrow> Diverge)"

definition getStateObject ::
  "'t trie_backend \<Rightarrow> (bytes \<Rightarrow> bytes) \<Rightarrow> address \<Rightarrow> ('t, 'l) StateDB \<Rightarrow> (unit, 't stateObject option \<times> ('t, 'l) StateDB) res" where
  "getStateObject be kec addr s =
     (case sd_objects s addr of
        Some obj \<Rightarrow> if so_deleted obj then Ok (None, s) else Ok (Some obj, s)
      | None \<Rightarrow>
          res_bind (be_get be (sd_trie s) addr) (\<lambda>(err, enc, t').
            let s = s\<lparr>sd_trie := t'\<rparr>
            in case enc of
                 None \<Rightarrow> Ok (None, sd_setError (map_option TrieError err) s)
               | Some b \<Rightarrow>
                   if length b = 0 then Ok (None, sd_setError (map_option TrieError err) s)
                   else (case decodeAccount b of
                           Ok root \<Rightarrow> let obj = newObject kec addr root True in Ok (Some obj, setStateObject obj s)
                         | Err e \<Rightarrow> Ok (None, s)
                         | Panic \<Rightarrow> Panic
                         | Diverge \<Rightarrow> Diverge)))"

definition createObject ::
  "'t trie_backend \<Rightarrow> (bytes \<Rightarrow> bytes) \<Rightarrow> address \<Rightarrow> ('t, 'l) StateDB
    \<Rightarrow> (unit, 't stateObject \<times> 't stateObject option \<times> ('t, 'l) StateDB) res" where
  "createObject be kec addr s =
     res_bind (getStateObject be kec addr s) (\<lambda>(prev, s).
       let newobj = newObject kec addr zeroHash True;
           s = append_journal (case prev of None \<Rightarrow> CreateObjectChange addr | Some p \<Rightarrow> ResetObjectChange p) s
       in Ok (newobj, prev, setStateObject newobj s))"

definition GetOrNewStateObject ::
  "'t trie_backend \<Rightarrow> (bytes \<Rightarrow> bytes) \<Rightarrow> address \<Rightarrow> ('t, 'l) StateDB \<Rightarrow> (unit, 't stateObject \<times> ('t, 'l) StateDB) res" where
  "GetOrNewStateObject be kec addr s =
     res_bind (getStateObject be kec addr s) (\<lambda>(obj, s).
       case obj of
         Some o' \<Rightarrow>
           if so_deleted o' then res_map (\<lambda>(newobj, _, s). (newobj, s)) (createObject be kec addr s) else Ok (o', s)
       | None \<Rightarrow> res_map (\<lambda>(newobj, _, s). (newobj, s)) (createObject be kec addr s))"

definition CreateAccount :: "'t trie_backend \<Rightarrow> (bytes \<Rightarrow> bytes) \<Rightarrow> address \<Rightarrow> ('t, 'l) StateDB \<Rightarrow> (unit, ('t, 'l) StateDB) res" where
  "CreateAccount be kec addr s = res_map (\<lambda>(_, _, s). s) (createObject be kec addr s)"

definition Exist :: "'t trie_backend \<Rightarrow> (bytes \<Rightarrow> bytes) \<Rightarrow> address \<Rightarrow> ('t, 'l) StateDB \<Rightarrow> (unit, bool \<times> ('t, 'l) StateDB) res" where
  "Exist be kec addr s = res_map (\<lambda>(obj, s). (obj \<noteq> None, s)) (getStateObject be kec addr s)"

definition Empty :: "'t trie_backend \<Rightarrow> (bytes \<Rightarrow> bytes) \<Rightarrow> address \<Rightarrow> ('t, 'l) StateDB \<Rightarrow> (unit, bool \<times> ('t, 'l) StateDB) res" where
  "Empty be kec addr s =
     res_map (\<lambda>(obj, s). (case obj of None \<Rightarrow> True | Some o' \<Rightarrow> so_empty kec o', s)) (getStateObject be kec addr s)"

definition HasSuicided :: "'t trie_backend \<Rightarrow> (bytes \<Rightarrow> bytes) \<Rightarrow> address \<Rightarrow> ('t, 'l) StateDB \<Rightarrow> (unit, bool \<times> ('t, 'l) StateDB) res" where
  "HasSuicided be kec addr s =
     res_map (\<lambda>(obj, s). (case obj of None \<Rightarrow> False | Some o' \<Rightarrow> so_suicided o', s)) (getStateObject be kec addr s)"

definition GetState ::
  "'t trie_backend \<Rightarrow> (bytes \<Rightarrow> bytes) \<Rightarrow> address \<Rightarrow> hash \<Rightarrow> ('t, 'l) StateDB \<Rightarrow> (unit, hash \<times> ('t, 'l) StateDB) res" where
  "GetState be kec addr key s =
     res_bind (getStateObject be kec addr s) (\<lambda>(obj, s).
       case obj of
         None \<Rightarrow> Ok (zeroHash, s)
       | Some o' \<Rightarrow> res_bind (so_GetState be key o') (\<lambda>(v, o'). Ok (v, setStateObject o' s)))"

text \<open>A change of a live object; its callback marks it dirty.\<close>

definition change_object :: "('t stateObject \<Rightarrow> 't stateObject) \<Rightarrow> 't stateObject \<Rightarrow> ('t, 'l) StateDB \<Rightarrow> ('t, 'l) StateDB" where
  "change_object f o' s =
     (let s = (if so_onDirty o' then MarkStateObjectDirty (so_address o') s else s) in setStateObject (f o') s)"

text \<open>\<open>AddBalance\<close>, \<open>SubBalance\<close>, \<open>SetBalance\<close>, \<open>SetNonce\<close> and \<open>SetCode\<close>: the setters of the account are empty.\<close>

definition AddBalance :: "'t trie_backend \<Rightarrow> (bytes \<Rightarrow> bytes) \<Rightarrow> address \<Rightarrow> int \<Rightarrow> ('t, 'l) StateDB \<Rightarrow> (unit, ('t, 'l) StateDB) res" where
  "AddBalance be kec addr amount s = res_map snd (GetOrNewStateObject be kec addr s)"

definition SetState ::
  "'t trie_backend \<Rightarrow> (bytes \<Rightarrow> bytes) \<Rightarrow> address \<Rightarrow> hash \<Rightarrow> hash \<Rightarrow> ('t, 'l) StateDB \<Rightarrow> (unit, ('t, 'l) StateDB) res" where
  "SetState be kec addr key v s =
     res_bind (GetOrNewStateObject be kec addr s) (\<lambda>(o', s).
     res_bind (so_GetState be key o') (\<lambda>(prevalue, o').
       Ok (change_object (so_setState key v) o' (append_journal (StorageChange addr key prevalue) s))))"

definition Suicide ::
  "'t trie_backend \<Rightarrow> (bytes \<Rightarrow> bytes) \<Rightarrow> address \<Rightarrow> ('t, 'l) StateDB \<Rightarrow> (unit, bool \<times> ('t, 'l) StateDB) res" where
  "Suicide be kec addr s =
     res_bind (getStateObject be kec addr s) (\<lambda>(obj, s).
       case obj of
         None \<Rightarrow> Ok (False, s)
       | Some o' \<Rightarrow>
           Ok (True, change_object so_markSuicided o' (append_journal (SuicideChange addr (so_suicided o') 0) s)))"

definition so_touch :: "'t stateObject \<Rightarrow> ('t, 'l) StateDB \<Rightarrow> ('t, 'l) StateDB" where
  "so_touch o' s =
     change_object (\<lambda>o'. o'\<lparr>so_onDirty := False, so_touched := True\<rparr>) o'
       (append_journal (TouchChange (so_address o') (so_touched o') (\<not> so_onDirty o')) s)"

definition Prepare :: "hash \<Rightarrow> hash \<Rightarrow> u64 \<Rightarrow> ('t, 'l) StateDB \<Rightarrow> ('t, 'l) StateDB" where
  "Prepare thash bhash ti s = s\<lparr>sd_thash := thash, sd_bhash := bhash, sd_txIndex := ti\<rparr>"

section \<open>Snapshots\<close>

definition ripemd :: address where
  "ripemd = replicate 19 0 @ [3]"

fun undo :: "'t trie_backend \<Rightarrow> (bytes \<Rightarrow> bytes) \<Rightarrow> 't journalEntry \<Rightarrow> ('t, 'l) StateDB \<Rightarrow> (unit, ('t, 'l) StateDB) res" where
  "undo be kec (CreateObjectChange addr) s =
     Ok (s\<lparr>sd_objects := (sd_objects s)(addr := None), sd_dirty := sd_dirty s - {addr}\<rparr>)"
| "undo be kec (ResetObjectChange prev) s = Ok (setStateObject prev s)"
| "undo be kec (SuicideChange addr prev prevbalance) s =
     res_bind (getStateObject be kec addr s) (\<lambda>(obj, s).
       case obj of None \<Rightarrow> Ok s | Some o' \<Rightarrow> Ok (setStateObject (o'\<lparr>so_suicided := prev\<rparr>) s))"
| "undo be kec (TouchChange addr prev prevDirty) s =
     (if \<not> prev \<and> addr \<noteq> ripemd then
        res_bind (getStateObject be kec addr s) (\<lambda>(obj, s).
          case obj of
            None \<Rightarrow> Panic
          | Some o' \<Rightarrow>
              (let s = setStateObject (o'\<lparr>so_touched := prev\<rparr>) s
               in Ok (if \<not> prevDirty then s\<lparr>sd_dirty := sd_dirty s - {addr}\<rparr> else s)))
      else Ok s)"
| "undo be kec (StorageChange addr key prevalue) s =
     res_bind (getStateObject be kec addr s) (\<lambda>(obj, s).
       case obj of None \<Rightarrow> Panic | Some o' \<Rightarrow> Ok (change_object (so_setState key prevalue) o' s))"
| "undo be kec (RefundChange prev) s = Ok (s\<lparr>sd_refund := prev\<rparr>)"
| "undo be kec (AddLogChange txhash) s =
     (let logs = GetLogs txhash s
      in if length logs = 1 then Ok (s\<lparr>sd_logs := (sd_logs s)(txhash := None), sd_logSize := sd_logSize s - 1\<rparr>)
         else if logs = [] then Panic
         else Ok (s\<lparr>sd_logs := (sd_logs s)(txhash \<mapsto> butlast logs), sd_logSize := sd_logSize s - 1\<rparr>))"
| "undo be kec (AddPreimageChange h) s = Ok (s\<lparr>sd_preimages := (sd_preimages s)(h := None)\<rparr>)"

definition Snapshot :: "('t, 'l) StateDB \<Rightarrow> int \<times> ('t, 'l) StateDB" where
  "Snapshot s =
     (let id = sd_nextRevisionId s
      in (id, s\<lparr>sd_nextRevisionId := id + 1,
               sd_validRevisions := sd_validRevisions s @ [\<lparr>rv_id = id, rv_journalIndex = length (sd_journal s)\<rparr>]\<rparr>))"

text \<open>\<^verbatim>\<open>sort.Search\<close>: the binary search of the standard library.\<close>

function sort_Search :: "(nat \<Rightarrow> bool) \<Rightarrow> nat \<Rightarrow> nat \<Rightarrow> nat" where
  "sort_Search f i j =
     (if i < j then let h = (i + j) div 2 in if \<not> f h then sort_Search f (h + 1) j else sort_Search f i h else i)"
  by pat_completeness auto
termination by (relation "measure (\<lambda>(f, i, j). j - i)") auto

declare sort_Search.simps [simp del]

text \<open>Undoing the entries of the journal, the last one first.\<close>

fun undo_all :: "'t trie_backend \<Rightarrow> (bytes \<Rightarrow> bytes) \<Rightarrow> 't journalEntry list \<Rightarrow> ('t, 'l) StateDB \<Rightarrow> (unit, ('t, 'l) StateDB) res" where
  "undo_all be kec [] s = Ok s"
| "undo_all be kec (ch # chs) s = res_bind (undo be kec ch s) (undo_all be kec chs)"

definition RevertToSnapshot :: "'t trie_backend \<Rightarrow> (bytes \<Rightarrow> bytes) \<Rightarrow> int \<Rightarrow> ('t, 'l) StateDB \<Rightarrow> (unit, ('t, 'l) StateDB) res" where
  "RevertToSnapshot be kec revid s =
     (let revs = sd_validRevisions s;
          idx = sort_Search (\<lambda>i. rv_id (revs ! i) \<ge> revid) 0 (length revs)
      in if idx = length revs \<or> rv_id (revs ! idx) \<noteq> revid then Panic
         else let snapshot = rv_journalIndex (revs ! idx)
              in res_bind (undo_all be kec (rev (drop snapshot (sd_journal s))) s) (\<lambda>s'.
                   Ok (s'\<lparr>sd_journal := take snapshot (sd_journal s'), sd_validRevisions := take idx (sd_validRevisions s')\<rparr>)))"

section \<open>Writing the state to the tries\<close>

definition updateStateObject :: "'t trie_backend \<Rightarrow> 't stateObject \<Rightarrow> ('t, 'l) StateDB \<Rightarrow> (unit, ('t, 'l) StateDB) res" where
  "updateStateObject be o' s =
     (case EncodeToBytes (ListV [BytesV (so_root o')]) of
        Ok data \<Rightarrow>
          res_bind (be_update be (sd_trie s) (so_address o') data) (\<lambda>(err, t').
            Ok (sd_setError (map_option TrieError err) (s\<lparr>sd_trie := t'\<rparr>)))
      | _ \<Rightarrow> Panic)"

definition deleteStateObject :: "'t trie_backend \<Rightarrow> 't stateObject \<Rightarrow> ('t, 'l) StateDB \<Rightarrow> (unit, ('t, 'l) StateDB) res" where
  "deleteStateObject be o' s =
     (let s = setStateObject (o'\<lparr>so_deleted := True\<rparr>) s
      in res_bind (be_delete be (sd_trie s) (so_address o')) (\<lambda>(err, t').
           Ok (sd_setError (map_option TrieError err) (s\<lparr>sd_trie := t'\<rparr>))))"

text \<open>The dirty accounts are visited in the order \<open>order\<close>, the dirty storage of an account in the order \<open>sorder\<close>.\<close>

fun Finalise_loop ::
  "'t trie_backend \<Rightarrow> (bytes \<Rightarrow> bytes) \<Rightarrow> (address \<Rightarrow> hash list) \<Rightarrow> bool \<Rightarrow> address list \<Rightarrow> ('t, 'l) StateDB \<Rightarrow> (unit, ('t, 'l) StateDB) res" where
  "Finalise_loop be kec sorder deleteEmptyObjects [] s = Ok s"
| "Finalise_loop be kec sorder deleteEmptyObjects (addr # order) s =
     (case sd_objects s addr of
        None \<Rightarrow> Panic
      | Some o' \<Rightarrow>
          res_bind
            (if so_suicided o' \<or> deleteEmptyObjects \<and> so_empty kec o' then deleteStateObject be o' s
             else res_bind (so_updateRoot be (sorder addr) o') (\<lambda>o'. updateStateObject be o' (setStateObject o' s)))
            (Finalise_loop be kec sorder deleteEmptyObjects order))"

definition Finalise ::
  "'t trie_backend \<Rightarrow> (bytes \<Rightarrow> bytes) \<Rightarrow> (address \<Rightarrow> hash list) \<Rightarrow> address list \<Rightarrow> bool \<Rightarrow> ('t, 'l) StateDB \<Rightarrow> (unit, ('t, 'l) StateDB) res" where
  "Finalise be kec sorder order deleteEmptyObjects s =
     res_map clearJournalAndRefund (Finalise_loop be kec sorder deleteEmptyObjects order s)"

definition IntermediateRoot ::
  "'t trie_backend \<Rightarrow> (bytes \<Rightarrow> bytes) \<Rightarrow> (address \<Rightarrow> hash list) \<Rightarrow> address list \<Rightarrow> bool \<Rightarrow> ('t, 'l) StateDB
    \<Rightarrow> (unit, hash \<times> ('t, 'l) StateDB) res" where
  "IntermediateRoot be kec sorder order deleteEmptyObjects s =
     res_bind (Finalise be kec sorder order deleteEmptyObjects s) (\<lambda>s.
     res_bind (be_hash be (sd_trie s)) (\<lambda>(h, t'). Ok (h, s\<lparr>sd_trie := t'\<rparr>)))"

fun DeleteSuicides_loop :: "address list \<Rightarrow> ('t, 'l) StateDB \<Rightarrow> (unit, ('t, 'l) StateDB) res" where
  "DeleteSuicides_loop [] s = Ok s"
| "DeleteSuicides_loop (addr # order) s =
     (case sd_objects s addr of
        None \<Rightarrow> Panic
      | Some o' \<Rightarrow>
          (let s = (if so_suicided o' then setStateObject (o'\<lparr>so_deleted := True\<rparr>) s else s)
           in DeleteSuicides_loop order (s\<lparr>sd_dirty := sd_dirty s - {addr}\<rparr>)))"

definition DeleteSuicides :: "address list \<Rightarrow> ('t, 'l) StateDB \<Rightarrow> (unit, ('t, 'l) StateDB) res" where
  "DeleteSuicides order s = DeleteSuicides_loop order (clearJournalAndRefund s)"

fun CommitTo_loop ::
  "'t trie_backend \<Rightarrow> (bytes \<Rightarrow> bytes) \<Rightarrow> ('t \<Rightarrow> 'd \<Rightarrow> (state_error, hash \<times> 't \<times> 'd) res) \<Rightarrow> (address \<Rightarrow> hash list) \<Rightarrow> bool
    \<Rightarrow> address list \<Rightarrow> ('t, 'l) StateDB \<Rightarrow> 'd \<Rightarrow> (unit, state_error option \<times> ('t, 'l) StateDB \<times> 'd) res" where
  "CommitTo_loop be kec commit sorder deleteEmptyObjects [] s d = Ok (None, s, d)"
| "CommitTo_loop be kec commit sorder deleteEmptyObjects (addr # order) s d =
     (case sd_objects s addr of
        None \<Rightarrow> CommitTo_loop be kec commit sorder deleteEmptyObjects order s d
      | Some o' \<Rightarrow>
          (let isDirty = (addr \<in> sd_dirty s); next_obj = (\<lambda>s d. CommitTo_loop be kec commit sorder deleteEmptyObjects order
                 (s\<lparr>sd_dirty := sd_dirty s - {addr}\<rparr>) d)
           in if so_suicided o' \<or> isDirty \<and> deleteEmptyObjects \<and> so_empty kec o' then
                res_bind (deleteStateObject be o' s) (\<lambda>s. next_obj s d)
              else if isDirty then
                res_bind (so_CommitTrie be commit (sorder addr) o' d) (\<lambda>(err, o', d).
                  case err of
                    Some e \<Rightarrow> Ok (Some e, setStateObject o' s, d)
                  | None \<Rightarrow> res_bind (updateStateObject be o' (setStateObject o' s)) (\<lambda>s. next_obj s d))
              else next_obj s d))"

definition StateDB_CommitTo ::
  "'t trie_backend \<Rightarrow> (bytes \<Rightarrow> bytes) \<Rightarrow> ('t \<Rightarrow> 'd \<Rightarrow> (state_error, hash \<times> 't \<times> 'd) res) \<Rightarrow> (address \<Rightarrow> hash list)
    \<Rightarrow> address list \<Rightarrow> bool \<Rightarrow> ('t, 'l) StateDB \<Rightarrow> 'd \<Rightarrow> (unit, (state_error, hash) res \<times> ('t, 'l) StateDB \<times> 'd) res" where
  "StateDB_CommitTo be kec commit sorder order deleteEmptyObjects s d =
     res_bind (CommitTo_loop be kec commit sorder deleteEmptyObjects order s d) (\<lambda>(err, s, d).
       case err of
         Some e \<Rightarrow> Ok (Err e, clearJournalAndRefund s, d)
       | None \<Rightarrow>
           (case commit (sd_trie s) d of
              Ok (root, t', d') \<Rightarrow> Ok (Ok root, clearJournalAndRefund (s\<lparr>sd_trie := t'\<rparr>), d')
            | Err e \<Rightarrow> Ok (Err e, clearJournalAndRefund s, d)
            | Panic \<Rightarrow> Panic
            | Diverge \<Rightarrow> Diverge))"

end
