(* ===== verification/State_Spec.thy ===== *)
theory State_Spec
  imports State_DB
begin

text \<open>
  What the state promises: the accounts are a map from addresses to storage functions, a snapshot is a copy of the
  whole world and reverting goes back to the copy.  The state of \<open>State_DB\<close>, with its caches, its tries and its journal of
  undo entries, is shown to implement this, for every sequence of operations.
\<close>

section \<open>The specification\<close>

text \<open>An account: its storage, and whether it has been marked for deletion.\<close>

type_synonym acct = "(hash \<Rightarrow> hash) \<times> bool"

record 'l world =
  w_accts :: "address \<Rightarrow> acct option"
  w_logs :: "hash \<Rightarrow> 'l Log list"
  w_logSize :: u64
  w_refund :: int
  w_preimages :: "hash \<rightharpoonup> bytes"

record 'l spec =
  sp_world :: "'l world"
  sp_thash :: hash
  sp_bhash :: hash
  sp_txIndex :: u64
  sp_snaps :: "(int \<times> 'l world) list"
  sp_next :: int

datatype 'l state_op =
    OpSetState address hash hash
  | OpGetState address hash
  | OpExist address
  | OpHasSuicided address
  | OpCreateAccount address
  | OpAddBalance address int
  | OpSuicide address
  | OpAddLog "'l Log"
  | OpGetLogs hash
  | OpAddPreimage hash bytes
  | OpGetPreimage hash
  | OpAddRefund int
  | OpGetRefund
  | OpPrepare hash hash u64
  | OpSnapshot
  | OpRevert int

datatype 'l observation = OutUnit | OutHash hash | OutBool bool | OutInt int | OutLogs "'l Log list" | OutBytes "bytes option"

definition new_acct :: acct where
  "new_acct = ((\<lambda>_. zeroHash), False)"

definition acct_at :: "'l world \<Rightarrow> address \<Rightarrow> acct" where
  "acct_at w a = (case w_accts w a of None \<Rightarrow> new_acct | Some x \<Rightarrow> x)"

fun spec_op :: "'l state_op \<Rightarrow> 'l spec \<Rightarrow> (unit, 'l observation \<times> 'l spec) res" where
  "spec_op (OpSetState a k v) z =
     (let w = sp_world z; (f, b) = acct_at w a
      in Ok (OutUnit, z\<lparr>sp_world := w\<lparr>w_accts := (w_accts w)(a \<mapsto> (f(k := v), b))\<rparr>\<rparr>))"
| "spec_op (OpGetState a k) z = Ok (OutHash (fst (acct_at (sp_world z) a) k), z)"
| "spec_op (OpExist a) z = Ok (OutBool (w_accts (sp_world z) a \<noteq> None), z)"
| "spec_op (OpHasSuicided a) z = Ok (OutBool (snd (acct_at (sp_world z) a)), z)"
| "spec_op (OpCreateAccount a) z =
     (let w = sp_world z in Ok (OutUnit, z\<lparr>sp_world := w\<lparr>w_accts := (w_accts w)(a \<mapsto> new_acct)\<rparr>\<rparr>))"
| "spec_op (OpAddBalance a amount) z =
     (let w = sp_world z in Ok (OutUnit, z\<lparr>sp_world := w\<lparr>w_accts := (w_accts w)(a \<mapsto> acct_at w a)\<rparr>\<rparr>))"
| "spec_op (OpSuicide a) z =
     (let w = sp_world z
      in case w_accts w a of
           None \<Rightarrow> Ok (OutBool False, z)
         | Some (f, b) \<Rightarrow> Ok (OutBool True, z\<lparr>sp_world := w\<lparr>w_accts := (w_accts w)(a \<mapsto> (f, True))\<rparr>\<rparr>))"
| "spec_op (OpAddLog log) z =
     (let w = sp_world z;
          log = log\<lparr>lg_txHash := sp_thash z, lg_blockHash := sp_bhash z, lg_txIndex := sp_txIndex z, lg_index := w_logSize w\<rparr>
      in Ok (OutUnit, z\<lparr>sp_world := w\<lparr>w_logs := (w_logs w)(sp_thash z := w_logs w (sp_thash z) @ [log]), w_logSize := w_logSize w + 1\<rparr>\<rparr>))"
| "spec_op (OpGetLogs h) z = Ok (OutLogs (w_logs (sp_world z) h), z)"
| "spec_op (OpAddPreimage h p) z =
     (let w = sp_world z
      in Ok (OutUnit, if w_preimages w h = None then z\<lparr>sp_world := w\<lparr>w_preimages := (w_preimages w)(h \<mapsto> p)\<rparr>\<rparr> else z))"
| "spec_op (OpGetPreimage h) z = Ok (OutBytes (w_preimages (sp_world z) h), z)"
| "spec_op (OpAddRefund gas) z =
     (let w = sp_world z in Ok (OutUnit, z\<lparr>sp_world := w\<lparr>w_refund := w_refund w + gas\<rparr>\<rparr>))"
| "spec_op OpGetRefund z = Ok (OutInt (w_refund (sp_world z)), z)"
| "spec_op (OpPrepare th bh ti) z = Ok (OutUnit, z\<lparr>sp_thash := th, sp_bhash := bh, sp_txIndex := ti\<rparr>)"
| "spec_op OpSnapshot z =
     Ok (OutInt (sp_next z), z\<lparr>sp_snaps := sp_snaps z @ [(sp_next z, sp_world z)], sp_next := sp_next z + 1\<rparr>)"
| "spec_op (OpRevert rid) z =
     (let i = length (takeWhile (\<lambda>s. fst s < rid) (sp_snaps z))
      in if i = length (sp_snaps z) \<or> fst (sp_snaps z ! i) \<noteq> rid then Panic
         else Ok (OutUnit, z\<lparr>sp_world := snd (sp_snaps z ! i), sp_snaps := take i (sp_snaps z)\<rparr>))"

fun spec_run :: "'l state_op list \<Rightarrow> 'l spec \<Rightarrow> (unit, 'l observation list \<times> 'l spec) res" where
  "spec_run [] z = Ok ([], z)"
| "spec_run (op # ops) z =
     res_bind (spec_op op z) (\<lambda>(out, z). res_map (\<lambda>(outs, z). (out # outs, z)) (spec_run ops z))"

text \<open>The same operations on the state.\<close>

fun run_op :: "'t trie_backend \<Rightarrow> (bytes \<Rightarrow> bytes) \<Rightarrow> 'l state_op \<Rightarrow> ('t, 'l) StateDB \<Rightarrow> (unit, 'l observation \<times> ('t, 'l) StateDB) res" where
  "run_op be kec (OpSetState a k v) s = res_map (\<lambda>s. (OutUnit, s)) (SetState be kec a k v s)"
| "run_op be kec (OpGetState a k) s = res_map (\<lambda>(v, s). (OutHash v, s)) (GetState be kec a k s)"
| "run_op be kec (OpExist a) s = res_map (\<lambda>(b, s). (OutBool b, s)) (Exist be kec a s)"
| "run_op be kec (OpHasSuicided a) s = res_map (\<lambda>(b, s). (OutBool b, s)) (HasSuicided be kec a s)"
| "run_op be kec (OpCreateAccount a) s = res_map (\<lambda>s. (OutUnit, s)) (CreateAccount be kec a s)"
| "run_op be kec (OpAddBalance a amount) s = res_map (\<lambda>s. (OutUnit, s)) (AddBalance be kec a amount s)"
| "run_op be kec (OpSuicide a) s = res_map (\<lambda>(b, s). (OutBool b, s)) (Suicide be kec a s)"
| "run_op be kec (OpAddLog log) s = Ok (OutUnit, AddLog log s)"
| "run_op be kec (OpGetLogs h) s = Ok (OutLogs (GetLogs h s), s)"
| "run_op be kec (OpAddPreimage h p) s = Ok (OutUnit, AddPreimage h p s)"
| "run_op be kec (OpGetPreimage h) s = Ok (OutBytes (sd_preimages s h), s)"
| "run_op be kec (OpAddRefund gas) s = Ok (OutUnit, AddRefund gas s)"
| "run_op be kec OpGetRefund s = Ok (OutInt (sd_refund s), s)"
| "run_op be kec (OpPrepare th bh ti) s = Ok (OutUnit, Prepare th bh ti s)"
| "run_op be kec OpSnapshot s = (let (rid, s) = Snapshot s in Ok (OutInt rid, s))"
| "run_op be kec (OpRevert rid) s = res_map (\<lambda>s. (OutUnit, s)) (RevertToSnapshot be kec rid s)"

fun run_ops_state :: "'t trie_backend \<Rightarrow> (bytes \<Rightarrow> bytes) \<Rightarrow> 'l state_op list \<Rightarrow> ('t, 'l) StateDB \<Rightarrow> (unit, 'l observation list \<times> ('t, 'l) StateDB) res" where
  "run_ops_state be kec [] s = Ok ([], s)"
| "run_ops_state be kec (op # ops) s =
     res_bind (run_op be kec op s) (\<lambda>(out, s). res_map (\<lambda>(outs, s). (out # outs, s)) (run_ops_state be kec ops s))"

fun op_keys :: "'l state_op \<Rightarrow> bytes set" where
  "op_keys (OpSetState a k v) = {a, k}"
| "op_keys (OpGetState a k) = {a, k}"
| "op_keys (OpExist a) = {a}"
| "op_keys (OpHasSuicided a) = {a}"
| "op_keys (OpCreateAccount a) = {a}"
| "op_keys (OpAddBalance a amount) = {a}"
| "op_keys (OpSuicide a) = {a}"
| "op_keys _ = {}"

section \<open>The search for a revision\<close>

lemma sort_Search_spec:
  assumes mono: "\<And>x y. x \<le> y \<Longrightarrow> y < n \<Longrightarrow> f x \<Longrightarrow> f y"
  shows "i \<le> j \<Longrightarrow> j \<le> n \<Longrightarrow> (\<And>x. x < i \<Longrightarrow> \<not> f x) \<Longrightarrow> (j < n \<Longrightarrow> f j)
    \<Longrightarrow> sort_Search f i j \<le> n \<and> (\<forall>x. x < sort_Search f i j \<longrightarrow> \<not> f x) \<and> (sort_Search f i j < n \<longrightarrow> f (sort_Search f i j))"
proof (induction "j - i" arbitrary: i j rule: less_induct)
  case less
  let ?h = "(i + j) div 2"
  show ?case
  proof (cases "i < j")
    case True
    then have h: "i \<le> ?h" "?h < j" by auto
    show ?thesis
    proof (cases "f ?h")
      case t: True
      then have e: "sort_Search f i j = sort_Search f i ?h" using True by (simp add: sort_Search.simps [of f i j] Let_def)
      show ?thesis unfolding e by (rule less.hyps) (use True h t less.prems in auto)
    next
      case False
      then have e: "sort_Search f i j = sort_Search f (?h + 1) j" using True by (simp add: sort_Search.simps [of f i j] Let_def)
      have "\<not> f x" if "x < ?h + 1" for x using mono [of x ?h] that False h(2) less.prems(2) by auto
      then show ?thesis unfolding e by (intro less.hyps) (use True h less.prems in auto)
    qed
  next
    case False
    then have "sort_Search f i j = i" by (simp add: sort_Search.simps [of f i j])
    with False less.prems show ?thesis by auto
  qed
qed

lemma sort_Search_takeWhile:
  fixes f :: "'b \<Rightarrow> 'a::linorder"
  assumes "sorted (map f xs)"
  shows "sort_Search (\<lambda>i. rid \<le> f (xs ! i)) 0 (length xs) = length (takeWhile (\<lambda>x. f x < rid) xs)"
proof -
  let ?r = "sort_Search (\<lambda>i. rid \<le> f (xs ! i)) 0 (length xs)"
  have r: "?r \<le> length xs \<and> (\<forall>x. x < ?r \<longrightarrow> \<not> rid \<le> f (xs ! x)) \<and> (?r < length xs \<longrightarrow> rid \<le> f (xs ! ?r))"
  proof (rule sort_Search_spec)
    show "rid \<le> f (xs ! y)" if "x \<le> y" "y < length xs" "rid \<le> f (xs ! x)" for x y
      using sorted_nth_mono [OF assms that(1)] that by simp
  qed simp_all
  then have "takeWhile (\<lambda>x. f x < rid) xs = take ?r xs"
    by (intro takeWhile_eq_take_P_nth) (auto simp: not_le not_less)
  with r show ?thesis by simp
qed

section \<open>Abstraction\<close>

text \<open>What a storage trie holds under a key, and the tries on which reading it does not panic.\<close>

definition val_of :: "bytes option \<Rightarrow> hash" where
  "val_of enc =
     (case enc of
        None \<Rightarrow> zeroHash
      | Some b \<Rightarrow> if length b > 0 then (case Split b of Ok (_, c, _) \<Rightarrow> BytesToHash c | _ \<Rightarrow> zeroHash) else zeroHash)"

definition readable :: "bytes set \<Rightarrow> (bytes \<Rightarrow> bytes option) \<Rightarrow> bool" where
  "readable keys m \<longleftrightarrow> (\<forall>k\<in>keys. \<forall>b. m k = Some b \<longrightarrow> Split b \<noteq> Panic \<and> Split b \<noteq> Diverge)"

lemma newObject_simps [simp]:
  "so_address (newObject kec a root d) = a" "so_addrHash (newObject kec a root d) = kec a" "so_root (newObject kec a root d) = root"
  "so_trie (newObject kec a root d) = None" "so_cached (newObject kec a root d) = Map.empty"
  "so_suicided (newObject kec a root d) = False" "so_deleted (newObject kec a root d) = False" "so_onDirty (newObject kec a root d) = d"
  by (simp_all add: newObject_def)

text \<open>
  The backend with the hash of addresses; an account without storage opens an empty trie.
\<close>

locale state_backend = backend be rep keys
  for be :: "'t trie_backend" and rep keys +
  fixes kec :: "bytes \<Rightarrow> bytes"
  assumes open_zero: "rep t m \<Longrightarrow> \<exists>t'. be_openStorageTrie be ah zeroHash = Ok t' \<and> rep t' Map.empty"
begin

definition st_map :: "'t stateObject \<Rightarrow> (bytes \<Rightarrow> bytes option) \<Rightarrow> bool" where
  "st_map ob m \<longleftrightarrow> readable keys m \<and>
     (case so_trie ob of
        Some t \<Rightarrow> rep t m
      | None \<Rightarrow> \<exists>t. be_openStorageTrie be (so_addrHash ob) (so_root ob) = Ok t \<and> rep t m)"

definition view :: "'t stateObject \<Rightarrow> (bytes \<Rightarrow> bytes option) \<Rightarrow> hash \<Rightarrow> hash" where
  "view ob m k = (if k \<in> keys then case so_cached ob k of Some v \<Rightarrow> v | None \<Rightarrow> val_of (m k) else zeroHash)"

definition obj_abs :: "'t stateObject \<Rightarrow> acct \<Rightarrow> bool" where
  "obj_abs ob x \<longleftrightarrow> (\<exists>m. st_map ob m \<and> x = (view ob m, so_suicided ob))"

text \<open>The account under \<open>a\<close> in the account trie, whose map is \<open>m\<close>.\<close>

definition base_abs :: "(bytes \<Rightarrow> bytes option) \<Rightarrow> address \<Rightarrow> acct option \<Rightarrow> bool" where
  "base_abs m a x \<longleftrightarrow>
     (case m a of
        None \<Rightarrow> x = None
      | Some b \<Rightarrow>
          if length b = 0 then x = None
          else (case decodeAccount b of
                  Ok root \<Rightarrow> \<exists>y. obj_abs (newObject kec a root True) y \<and> x = Some y
                | Err e \<Rightarrow> x = None
                | _ \<Rightarrow> False))"

definition live_abs :: "(bytes \<Rightarrow> bytes option) \<Rightarrow> address \<Rightarrow> 't stateObject option \<Rightarrow> acct option \<Rightarrow> bool" where
  "live_abs m a ob x \<longleftrightarrow>
     (case ob of
        None \<Rightarrow> base_abs m a x
      | Some ob \<Rightarrow> so_address ob = a \<and> (if so_deleted ob then x = None \<and> base_abs m a None else \<exists>y. obj_abs ob y \<and> x = Some y))"

definition state_abs :: "(bytes \<Rightarrow> bytes option) \<Rightarrow> ('t, 'l) StateDB \<Rightarrow> 'l world \<Rightarrow> bool" where
  "state_abs m s w \<longleftrightarrow> rep (sd_trie s) m \<and> (\<forall>a\<in>keys. live_abs m a (sd_objects s a) (w_accts w a))
     \<and> w_logs w = (\<lambda>h. GetLogs h s) \<and> w_logSize w = sd_logSize s \<and> w_refund w = sd_refund s \<and> w_preimages w = sd_preimages s"

lemma st_map_cong:
  "so_trie o' = so_trie ob \<Longrightarrow> so_addrHash o' = so_addrHash ob \<Longrightarrow> so_root o' = so_root ob \<Longrightarrow> st_map o' m = st_map ob m"
  by (simp add: st_map_def split: option.split)

lemma live_abs_Some:
  "live_abs m a (Some ob) (Some y) \<longleftrightarrow> so_address ob = a \<and> \<not> so_deleted ob \<and> obj_abs ob y"
  by (simp add: live_abs_def del: split_paired_Ex)

subsection \<open>Reading an account\<close>

lemma state_abs_upd:
  assumes "state_abs m s w" "rep t' m" "\<And>a'. a' \<in> keys \<Longrightarrow> a' \<noteq> a \<Longrightarrow> sd_objects s' a' = sd_objects s a'"
    and "a \<in> keys \<Longrightarrow> live_abs m a (sd_objects s' a) x"
    and "sd_trie s' = t'" "sd_logs s' = sd_logs s" "sd_logSize s' = sd_logSize s" "sd_refund s' = sd_refund s" "sd_preimages s' = sd_preimages s"
  shows "state_abs m s' (w\<lparr>w_accts := (w_accts w)(a := x)\<rparr>)"
  using assms by (auto simp: state_abs_def GetLogs_def)

lemma obj_abs_new:
  assumes "rep t m"
  shows "obj_abs (newObject kec a zeroHash d) new_acct"
proof -
  from open_zero [OF assms] obtain t' where "be_openStorageTrie be (kec a) zeroHash = Ok t'" "rep t' Map.empty" by blast
  then have "st_map (newObject kec a zeroHash d) Map.empty" by (simp add: st_map_def newObject_def readable_def)
  moreover have "view (newObject kec a zeroHash d) Map.empty = (\<lambda>_. zeroHash)"
    by (simp add: view_def newObject_def val_of_def fun_eq_iff)
  ultimately show ?thesis by (auto simp: obj_abs_def new_acct_def newObject_def intro!: exI [of _ Map.empty])
qed

lemma w_accts_same [simp]: "w\<lparr>w_accts := (w_accts w)(a := w_accts w a)\<rparr> = w"
  by simp

lemma getStateObject_abs:
  assumes "state_abs m s w" "a \<in> keys"
  shows "\<exists>ob s'. getStateObject be kec a s = Ok (ob, s') \<and> state_abs m s' w
    \<and> sd_journal s' = sd_journal s \<and> sd_validRevisions s' = sd_validRevisions s \<and> sd_nextRevisionId s' = sd_nextRevisionId s
    \<and> sd_thash s' = sd_thash s \<and> sd_bhash s' = sd_bhash s \<and> sd_txIndex s' = sd_txIndex s
    \<and> (case ob of
         None \<Rightarrow> w_accts w a = None \<and> base_abs m a None
       | Some o' \<Rightarrow> sd_objects s' a = Some o' \<and> \<not> so_deleted o' \<and> so_address o' = a \<and> (\<exists>x. obj_abs o' x \<and> w_accts w a = Some x))"
proof (cases "sd_objects s a")
  case (Some ob)
  have "live_abs m a (sd_objects s a) (w_accts w a)" using assms by (simp add: state_abs_def)
  with assms(1) Some show ?thesis by (auto simp: getStateObject_def live_abs_def split: if_splits)
next
  case None
  have r: "rep (sd_trie s) m" "base_abs m a (w_accts w a)" using assms None by (auto simp: state_abs_def live_abs_def)
  from rep_get [OF r(1) assms(2)] obtain t' where t': "be_get be (sd_trie s) a = Ok (None, m a, t')" "rep t' m" by blast
  have keep: "state_abs m (sd_setError None (s\<lparr>sd_trie := t'\<rparr>)) w" "state_abs m (s\<lparr>sd_trie := t'\<rparr>) w"
    using state_abs_upd [OF assms(1) t'(2), of a] assms None by (auto simp: state_abs_def sd_setError_def GetLogs_def t'(2))
  show ?thesis
  proof (cases "m a = None \<or> m a = Some []")
    case True
    with r(2) t' None keep(1) show ?thesis by (auto simp: getStateObject_def base_abs_def sd_setError_def)
  next
    case False
    then obtain b where b: "m a = Some b" "length b \<noteq> 0" by auto
    show ?thesis
    proof (cases "decodeAccount b")
      case (Ok root)
      let ?o = "newObject kec a root True"
      from Ok b r(2) obtain y where y: "obj_abs ?o y" "w_accts w a = Some y" by (auto simp: base_abs_def)
      have "state_abs m (setStateObject ?o (s\<lparr>sd_trie := t'\<rparr>)) (w\<lparr>w_accts := (w_accts w)(a := w_accts w a)\<rparr>)"
        by (rule state_abs_upd [OF assms(1) t'(2)]) (use y in \<open>simp_all add: setStateObject_def live_abs_Some\<close>)
      then have "state_abs m (setStateObject ?o (s\<lparr>sd_trie := t'\<rparr>)) w" by simp
      with Ok b y t'(1) None show ?thesis
        by (simp add: getStateObject_def Let_def setStateObject_def del: split_paired_Ex)
    next
      case (Err e)
      with r(2) t' None keep(2) b show ?thesis by (auto simp: getStateObject_def base_abs_def)
    qed (use b r(2) in \<open>simp_all add: base_abs_def\<close>)
  qed
qed

lemma so_GetState_abs:
  assumes "obj_abs ob x" "k \<in> keys"
  shows "\<exists>ob'. so_GetState be k ob = Ok (fst x k, ob') \<and> obj_abs ob' x \<and> so_address ob' = so_address ob
    \<and> so_deleted ob' = so_deleted ob \<and> so_suicided ob' = so_suicided ob \<and> so_onDirty ob' = so_onDirty ob"
proof -
  from assms(1) obtain m where m: "st_map ob m" "x = (view ob m, so_suicided ob)" by (auto simp: obj_abs_def)
  show ?thesis
  proof (cases "so_cached ob k")
    case (Some v)
    with m assms show ?thesis by (simp add: so_GetState_def view_def)
  next
    case None
    obtain t ob1 where g: "so_getTrie be ob = Ok (t, ob1)" "rep t m" "ob1 = ob\<lparr>so_trie := Some t\<rparr>"
      using m(1) by (cases "so_trie ob") (auto simp: so_getTrie_def st_map_def)
    from rep_get [OF g(2) assms(2)] obtain t' where t': "be_get be t k = Ok (None, m k, t')" "rep t' m" by blast
    have mk: "m k = Some b \<Longrightarrow> Split b \<noteq> Panic \<and> Split b \<noteq> Diverge" for b
      using m(1) assms(2) by (auto simp: st_map_def readable_def)
    have x: "fst x k = val_of (m k)" using m(2) None assms(2) by (simp add: view_def)
    define ob2 where "ob2 = ob1\<lparr>so_trie := Some t'\<rparr>"
    define err where "err = (case m k of Some b \<Rightarrow> if length b > 0 then case Split b of Err e \<Rightarrow> first_error (so_dbErr ob1) (Some (SplitError e))
        | _ \<Rightarrow> so_dbErr ob1 else so_dbErr ob1 | None \<Rightarrow> so_dbErr ob1)"
    have e: "so_GetState be k ob = Ok (so_loaded k (val_of (m k)) (ob2\<lparr>so_dbErr := err\<rparr>))"
      using None g(1) t'(1) mk
      by (cases "m k") (auto simp: so_GetState_def val_of_def ob2_def so_setError_def Let_def err_def split: res.splits)
    let ?o = "snd (so_loaded k (val_of (m k)) (ob2\<lparr>so_dbErr := err\<rparr>))"
    have "st_map ?o m" using m(1) t'(2) by (simp add: st_map_def so_loaded_def ob2_def)
    moreover have "view ?o m = view ob m"
      using None by (auto simp: view_def so_loaded_def ob2_def g(3) fun_eq_iff)
    ultimately show ?thesis
      using e x m(2) by (intro exI [of _ ?o]) (auto simp: obj_abs_def so_loaded_def ob2_def g(3) intro!: exI [of _ m])
  qed
qed

subsection \<open>Undoing\<close>

text \<open>What undoing an entry does to the world.\<close>

fun undo_abs :: "(bytes \<Rightarrow> bytes option) \<Rightarrow> 't journalEntry \<Rightarrow> 'l world \<Rightarrow> 'l world \<Rightarrow> bool" where
  "undo_abs m (CreateObjectChange a) w w' \<longleftrightarrow>
     a \<in> keys \<and> base_abs m a None \<and> w' = w\<lparr>w_accts := (w_accts w)(a := None)\<rparr>"
| "undo_abs m (ResetObjectChange prev) w w' \<longleftrightarrow>
     so_address prev \<in> keys \<and> \<not> so_deleted prev \<and> (\<exists>x. obj_abs prev x \<and> w' = w\<lparr>w_accts := (w_accts w)(so_address prev \<mapsto> x)\<rparr>)"
| "undo_abs m (SuicideChange a prev bal) w w' \<longleftrightarrow>
     a \<in> keys \<and> (\<exists>f b. w_accts w a = Some (f, b) \<and> w' = w\<lparr>w_accts := (w_accts w)(a \<mapsto> (f, prev))\<rparr>)"
| "undo_abs m (StorageChange a k v) w w' \<longleftrightarrow>
     a \<in> keys \<and> k \<in> keys \<and> (\<exists>f b. w_accts w a = Some (f, b) \<and> w' = w\<lparr>w_accts := (w_accts w)(a \<mapsto> (f(k := v), b))\<rparr>)"
| "undo_abs m (RefundChange r) w w' \<longleftrightarrow> w' = w\<lparr>w_refund := r\<rparr>"
| "undo_abs m (AddLogChange h) w w' \<longleftrightarrow>
     w_logs w h \<noteq> [] \<and> w' = w\<lparr>w_logs := (w_logs w)(h := butlast (w_logs w h)), w_logSize := w_logSize w - 1\<rparr>"
| "undo_abs m (AddPreimageChange h) w w' \<longleftrightarrow> w' = w\<lparr>w_preimages := (w_preimages w)(h := None)\<rparr>"
| "undo_abs m (TouchChange a prev prevDirty) w w' \<longleftrightarrow> False"

text \<open>The parts of the state that only snapshots and \<open>Prepare\<close> change.\<close>

definition same_frame :: "('t, 'l) StateDB \<Rightarrow> ('t, 'l) StateDB \<Rightarrow> bool" where
  "same_frame s s' \<longleftrightarrow> sd_validRevisions s' = sd_validRevisions s \<and> sd_nextRevisionId s' = sd_nextRevisionId s
     \<and> sd_thash s' = sd_thash s \<and> sd_bhash s' = sd_bhash s \<and> sd_txIndex s' = sd_txIndex s"

lemma same_frame_refl [simp]: "same_frame s s"
  and same_frame_trans: "same_frame s s1 \<Longrightarrow> same_frame s1 s2 \<Longrightarrow> same_frame s s2"
  by (simp_all add: same_frame_def)

lemma getStateObjectE:
  assumes "state_abs m s w" "a \<in> keys"
  obtains (none) s' where "getStateObject be kec a s = Ok (None, s')" "state_abs m s' w" "sd_journal s' = sd_journal s" "same_frame s s'"
      "w_accts w a = None" "base_abs m a None"
  | (obj) o' x s' where "getStateObject be kec a s = Ok (Some o', s')" "state_abs m s' w" "sd_journal s' = sd_journal s" "same_frame s s'"
      "sd_objects s' a = Some o'" "\<not> so_deleted o'" "so_address o' = a" "obj_abs o' x" "w_accts w a = Some x"
proof -
  from getStateObject_abs [OF assms] obtain ob s' where g: "getStateObject be kec a s = Ok (ob, s')" "state_abs m s' w"
    "sd_journal s' = sd_journal s" "same_frame s s'"
    and c: "case ob of None \<Rightarrow> w_accts w a = None \<and> base_abs m a None
       | Some o' \<Rightarrow> sd_objects s' a = Some o' \<and> \<not> so_deleted o' \<and> so_address o' = a \<and> (\<exists>x. obj_abs o' x \<and> w_accts w a = Some x)"
    unfolding same_frame_def by blast
  show ?thesis
  proof (cases ob)
    case None
    with g c none show ?thesis by simp
  next
    case (Some o')
    with c obtain x where "sd_objects s' a = Some o'" "\<not> so_deleted o'" "so_address o' = a" "obj_abs o' x" "w_accts w a = Some x"
      by (simp del: split_paired_Ex) blast
    with g Some obj show ?thesis by blast
  qed
qed

text \<open>Replacing the live object of an address.\<close>

lemma state_abs_set:
  assumes "state_abs m s w" "so_address o' = a" "\<not> so_deleted o'" "obj_abs o' x"
  shows "state_abs m (setStateObject o' s) (w\<lparr>w_accts := (w_accts w)(a \<mapsto> x)\<rparr>)"
proof -
  have "rep (sd_trie s) m" using assms(1) by (simp add: state_abs_def)
  from state_abs_upd [OF assms(1) this, of a "setStateObject o' s" "Some x"] assms(2-4) show ?thesis
    by (simp add: setStateObject_def live_abs_Some)
qed

lemma state_abs_simps [simp]:
  "state_abs m (MarkStateObjectDirty a s) w = state_abs m s w"
  "state_abs m (append_journal ch s) w = state_abs m s w"
  "state_abs m (s\<lparr>sd_dirty := D\<rparr>) w = state_abs m s w"
  "state_abs m (s\<lparr>sd_journal := J\<rparr>) w = state_abs m s w"
  "state_abs m (s\<lparr>sd_validRevisions := R\<rparr>) w = state_abs m s w"
  "state_abs m (s\<lparr>sd_nextRevisionId := n\<rparr>) w = state_abs m s w"
  by (simp_all add: state_abs_def MarkStateObjectDirty_def append_journal_def GetLogs_def)

lemma frame_simps [simp]:
  "sd_journal (setStateObject o' s) = sd_journal s" "same_frame s (setStateObject o' s')  = same_frame s s'"
  "sd_journal (MarkStateObjectDirty a s) = sd_journal s" "same_frame s (MarkStateObjectDirty a s') = same_frame s s'"
  "sd_journal (append_journal ch s) = sd_journal s @ [ch]" "same_frame s (append_journal ch s') = same_frame s s'"
  "same_frame s (s'\<lparr>sd_dirty := D\<rparr>) = same_frame s s'"
  by (simp_all add: setStateObject_def MarkStateObjectDirty_def append_journal_def same_frame_def)

lemma change_object_abs:
  assumes "state_abs m s w" "so_address o' = a" "so_address (f o') = a" "\<not> so_deleted (f o')" "obj_abs (f o') x"
  shows "state_abs m (change_object f o' s) (w\<lparr>w_accts := (w_accts w)(a \<mapsto> x)\<rparr>)"
    "sd_journal (change_object f o' s) = sd_journal s" "same_frame s' (change_object f o' s) = same_frame s' s"
  using state_abs_set [of m s w "f o'" a x] state_abs_set [of m "MarkStateObjectDirty a s" w "f o'" a x] assms
  by (auto simp: change_object_def Let_def)

lemma obj_abs_setState:
  assumes "obj_abs o' (f, b)" "k \<in> keys"
  shows "obj_abs (so_setState k v o') (f(k := v), b)"
proof -
  from assms(1) obtain m where m: "st_map o' m" "f = view o' m" "b = so_suicided o'" by (auto simp: obj_abs_def)
  then have "st_map (so_setState k v o') m" "view (so_setState k v o') m = f(k := v)"
    using assms(2) st_map_cong [of "so_setState k v o'" o' m] by (auto simp: so_setState_def view_def fun_eq_iff)
  with m(3) show ?thesis by (auto simp: obj_abs_def so_setState_def)
qed

lemma obj_abs_suicided:
  assumes "obj_abs o' (f, b)"
  shows "obj_abs (o'\<lparr>so_suicided := p\<rparr>) (f, p)" "obj_abs (so_markSuicided o') (f, True)"
proof -
  from assms obtain m where m: "st_map o' m" "f = view o' m" by (auto simp: obj_abs_def)
  have "view (o'\<lparr>so_suicided := p\<rparr>) m = f" "view (so_markSuicided o') m = f"
    using m(2) by (simp_all add: view_def so_markSuicided_def fun_eq_iff)
  moreover have "st_map (o'\<lparr>so_suicided := p\<rparr>) m" "st_map (so_markSuicided o') m"
    using m(1) st_map_cong [of "o'\<lparr>so_suicided := p\<rparr>" o' m] st_map_cong [of "so_markSuicided o'" o' m]
    by (simp_all add: so_markSuicided_def)
  ultimately show "obj_abs (o'\<lparr>so_suicided := p\<rparr>) (f, p)" "obj_abs (so_markSuicided o') (f, True)"
    by (auto simp: obj_abs_def so_markSuicided_def)
qed

lemma undo_sound:
  assumes "state_abs m s w" "undo_abs m ch w w'"
  shows "\<exists>s'. undo be kec ch s = Ok s' \<and> state_abs m s' w' \<and> sd_journal s' = sd_journal s \<and> same_frame s s'"
proof (cases ch)
  case (CreateObjectChange a)
  have "rep (sd_trie s) m" using assms(1) by (simp add: state_abs_def)
  from state_abs_upd [OF assms(1) this, of a "s\<lparr>sd_objects := (sd_objects s)(a := None), sd_dirty := sd_dirty s - {a}\<rparr>" None]
    assms(2) CreateObjectChange show ?thesis
    by (auto simp: live_abs_def same_frame_def)
next
  case (ResetObjectChange prev)
  with assms state_abs_set [OF assms(1), of prev] show ?thesis by auto
next
  case (SuicideChange a prev bal)
  with assms(2) obtain f b where a: "a \<in> keys" "w_accts w a = Some (f, b)" "w' = w\<lparr>w_accts := (w_accts w)(a \<mapsto> (f, prev))\<rparr>" by auto
  from assms(1) a(1) show ?thesis
  proof (cases rule: getStateObjectE)
    case (obj o' x s')
    then have "obj_abs o' (f, b)" using a(2) by simp
    from state_abs_set [OF obj(2) _ _ obj_abs_suicided(1) [OF this, of prev], of a] obj a(3) SuicideChange show ?thesis
      by simp
  qed (use a in simp)
next
  case (StorageChange a k v)
  with assms(2) obtain f b where a: "a \<in> keys" "k \<in> keys" "w_accts w a = Some (f, b)" "w' = w\<lparr>w_accts := (w_accts w)(a \<mapsto> (f(k := v), b))\<rparr>" by auto
  from assms(1) a(1) show ?thesis
  proof (cases rule: getStateObjectE)
    case (obj o' x s')
    then have "obj_abs o' (f, b)" using a(3) by simp
    note ob = obj_abs_setState [OF this a(2), of v]
    have "so_address (so_setState k v o') = a" "\<not> so_deleted (so_setState k v o')" using obj(6,7) by (simp_all add: so_setState_def)
    note ch = change_object_abs [where f = "so_setState k v", OF obj(2,7) this ob]
    from ch(1) obj(1,3,4) a(4) StorageChange show ?thesis by (simp add: ch(2,3))
  qed (use a in simp)
next
  case (RefundChange r)
  with assms show ?thesis by (auto simp: state_abs_def GetLogs_def same_frame_def)
next
  case (AddLogChange h)
  with assms show ?thesis
    by (auto simp: state_abs_def Let_def same_frame_def GetLogs_def fun_eq_iff length_Suc_conv split: option.splits)
next
  case (AddPreimageChange h)
  with assms show ?thesis by (auto simp: state_abs_def GetLogs_def same_frame_def)
next
  case (TouchChange a p d)
  with assms show ?thesis by simp
qed

subsection \<open>The refinement relation\<close>

text \<open>
  The worlds between the entries of the journal: undoing an entry leads from the world after it to the world before
  it.  A snapshot of the specification is the world at the journal index of its revision.
\<close>

definition linked :: "(bytes \<Rightarrow> bytes option) \<Rightarrow> 't journalEntry list \<Rightarrow> 'l world list \<Rightarrow> bool" where
  "linked m J Xs \<longleftrightarrow> length Xs = Suc (length J) \<and> (\<forall>i<length J. undo_abs m (J ! i) (Xs ! Suc i) (Xs ! i))"

definition revisions_ok :: "revision list \<Rightarrow> int \<Rightarrow> nat \<Rightarrow> bool" where
  "revisions_ok revs nxt n \<longleftrightarrow> sorted (map rv_id revs) \<and> sorted (map rv_journalIndex revs)
     \<and> (\<forall>r\<in>set revs. rv_id r < nxt \<and> rv_journalIndex r \<le> n)"

definition refines :: "(bytes \<Rightarrow> bytes option) \<Rightarrow> ('t, 'l) StateDB \<Rightarrow> 'l spec \<Rightarrow> bool" where
  "refines m s z \<longleftrightarrow>
     (\<exists>Xs. linked m (sd_journal s) Xs \<and> last Xs = sp_world z
        \<and> sp_snaps z = map (\<lambda>r. (rv_id r, Xs ! rv_journalIndex r)) (sd_validRevisions s))
     \<and> state_abs m s (sp_world z) \<and> revisions_ok (sd_validRevisions s) (sd_nextRevisionId s) (length (sd_journal s))
     \<and> sp_next z = sd_nextRevisionId s \<and> sp_thash z = sd_thash s \<and> sp_bhash z = sd_bhash s \<and> sp_txIndex z = sd_txIndex s"

lemma linked_snoc:
  assumes "linked m J Xs" "undo_abs m ch w (last Xs)"
  shows "linked m (J @ [ch]) (Xs @ [w])"
proof -
  have l: "length Xs = Suc (length J)" "Xs \<noteq> []" using assms(1) by (auto simp: linked_def)
  then have "last Xs = Xs ! length J" by (simp add: last_conv_nth)
  with assms l show ?thesis by (auto simp: linked_def nth_append less_Suc_eq)
qed

lemma linked_take:
  "linked m J Xs \<Longrightarrow> j \<le> length J \<Longrightarrow> linked m (take j J) (take (Suc j) Xs)"
  by (auto simp: linked_def)

lemma undo_all_sound:
  assumes "linked m J Xs" "j \<le> length J" "state_abs m s (last Xs)"
  shows "\<exists>s'. undo_all be kec (rev (drop j J)) s = Ok s' \<and> state_abs m s' (Xs ! j) \<and> sd_journal s' = sd_journal s \<and> same_frame s s'"
  using assms
proof (induction "length J - j" arbitrary: J Xs s)
  case 0
  then have "Xs \<noteq> []" "length Xs - 1 = j" by (auto simp: linked_def)
  with 0 show ?case by (auto simp: last_conv_nth)
next
  case (Suc n)
  then obtain J0 ch where J: "J = J0 @ [ch]" by (cases J rule: rev_cases) auto
  have len: "length Xs = Suc (Suc (length J0))" using Suc.prems(1) J by (simp add: linked_def)
  then have "Xs \<noteq> []" by auto
  with len have l: "length Xs = Suc (Suc (length J0))" "last Xs = Xs ! Suc (length J0)" by (simp_all add: last_conv_nth)
  have j: "j \<le> length J0" using Suc.hyps(2) J by auto
  have "undo_abs m ch (last Xs) (Xs ! length J0)" using Suc.prems(1) J l by (auto simp: linked_def)
  from undo_sound [OF Suc.prems(3) this] obtain s1 where s1: "undo be kec ch s = Ok s1" "state_abs m s1 (Xs ! length J0)"
    "sd_journal s1 = sd_journal s" "same_frame s s1" by blast
  let ?Ys = "take (Suc (length J0)) Xs"
  have Y: "linked m J0 ?Ys" using linked_take [OF Suc.prems(1), of "length J0"] J by simp
  have "last ?Ys = Xs ! length J0" using l by (simp add: take_Suc_conv_app_nth)
  moreover have n: "n = length J0 - j" using Suc.hyps(2) J j by (simp add: Suc_diff_le)
  ultimately obtain s' where
    "undo_all be kec (rev (drop j J0)) s1 = Ok s'" "state_abs m s' (?Ys ! j)" "sd_journal s' = sd_journal s1" "same_frame s1 s'"
    using Suc.hyps(1) [OF n Y j, of s1] s1(2) by auto
  with s1 J j show ?case by (auto intro: same_frame_trans)
qed

lemma refines_keep:
  assumes "refines m s z" "state_abs m s' (sp_world z)" "sd_journal s' = sd_journal s" "same_frame s s'"
  shows "refines m s' z"
  using assms by (simp add: refines_def same_frame_def)

lemma refines_log:
  assumes "refines m s z" "state_abs m s' w'" "sd_journal s' = sd_journal s @ [ch]" "same_frame s s'" "undo_abs m ch w' (sp_world z)"
  shows "refines m s' (z\<lparr>sp_world := w'\<rparr>)"
proof -
  from assms(1) obtain Xs where X: "linked m (sd_journal s) Xs" "last Xs = sp_world z"
      "sp_snaps z = map (\<lambda>r. (rv_id r, Xs ! rv_journalIndex r)) (sd_validRevisions s)"
    and r: "revisions_ok (sd_validRevisions s) (sd_nextRevisionId s) (length (sd_journal s))"
    and f: "sp_next z = sd_nextRevisionId s" "sp_thash z = sd_thash s" "sp_bhash z = sd_bhash s" "sp_txIndex z = sd_txIndex s"
    by (auto simp: refines_def)
  have "linked m (sd_journal s') (Xs @ [w'])" using linked_snoc [OF X(1)] X(2) assms(3,5) by simp
  moreover have "sp_snaps z = map (\<lambda>r. (rv_id r, (Xs @ [w']) ! rv_journalIndex r)) (sd_validRevisions s)"
    using X(1,3) r by (auto simp: revisions_ok_def linked_def nth_append)
  moreover have "revisions_ok (sd_validRevisions s') (sd_nextRevisionId s') (length (sd_journal s'))"
    using r assms(3,4) by (auto simp: revisions_ok_def same_frame_def)
  ultimately show ?thesis using assms(2,4) f by (auto simp: refines_def same_frame_def intro!: exI [of _ "Xs @ [w']"])
qed

lemma refines_abs: "refines m s z \<Longrightarrow> state_abs m s (sp_world z)"
  by (simp add: refines_def)

subsection \<open>The operations\<close>

lemma createObject_refines:
  assumes "refines m s z" "a \<in> keys"
  shows "\<exists>prev s'. createObject be kec a s = Ok (newObject kec a zeroHash True, prev, s')
    \<and> refines m s' (z\<lparr>sp_world := (sp_world z)\<lparr>w_accts := (w_accts (sp_world z))(a \<mapsto> new_acct)\<rparr>\<rparr>)"
proof -
  let ?n = "newObject kec a zeroHash True"
  note abs = refines_abs [OF assms(1)]
  have "rep (sd_trie s) m" using abs by (simp add: state_abs_def)
  note new = obj_abs_new [OF this, of a True]
  from abs assms(2) show ?thesis
  proof (cases rule: getStateObjectE)
    case (none s')
    let ?t = "setStateObject ?n (append_journal (CreateObjectChange a) s')"
    have st: "state_abs m ?t ((sp_world z)\<lparr>w_accts := (w_accts (sp_world z))(a \<mapsto> new_acct)\<rparr>)"
      by (rule state_abs_set) (use none new in simp_all)
    have "refines m ?t (z\<lparr>sp_world := (sp_world z)\<lparr>w_accts := (w_accts (sp_world z))(a \<mapsto> new_acct)\<rparr>\<rparr>)"
      by (rule refines_log [OF assms(1) st, of "CreateObjectChange a"]) (use none assms(2) in \<open>simp_all add: fun_upd_idem\<close>)
    with none show ?thesis by (auto simp: createObject_def Let_def)
  next
    case (obj o' x s')
    let ?t = "setStateObject ?n (append_journal (ResetObjectChange o') s')"
    have st: "state_abs m ?t ((sp_world z)\<lparr>w_accts := (w_accts (sp_world z))(a \<mapsto> new_acct)\<rparr>)"
      by (rule state_abs_set) (use obj new in simp_all)
    have "undo_abs m (ResetObjectChange o') ((sp_world z)\<lparr>w_accts := (w_accts (sp_world z))(a \<mapsto> new_acct)\<rparr>) (sp_world z)"
      using obj(6-9) assms(2) by (auto simp: fun_upd_idem simp del: split_paired_Ex intro!: exI [of _ x])
    from refines_log [OF assms(1) st _ _ this] obj
    have "refines m ?t (z\<lparr>sp_world := (sp_world z)\<lparr>w_accts := (w_accts (sp_world z))(a \<mapsto> new_acct)\<rparr>\<rparr>)" by simp
    with obj show ?thesis by (auto simp: createObject_def Let_def)
  qed
qed

lemma GetOrNewStateObject_refines:
  assumes "refines m s z" "a \<in> keys"
  shows "\<exists>o' s'. GetOrNewStateObject be kec a s = Ok (o', s') \<and> so_address o' = a \<and> \<not> so_deleted o'
    \<and> obj_abs o' (acct_at (sp_world z) a)
    \<and> refines m s' (z\<lparr>sp_world := (sp_world z)\<lparr>w_accts := (w_accts (sp_world z))(a \<mapsto> acct_at (sp_world z) a)\<rparr>\<rparr>)"
  using refines_abs [OF assms(1)] assms(2)
proof (cases rule: getStateObjectE)
  case (none s')
  from none have "refines m s' z" by (intro refines_keep [OF assms(1)])
  from createObject_refines [OF this assms(2)] none obj_abs_new [of "sd_trie s'" m a True] show ?thesis
    by (auto simp: GetOrNewStateObject_def acct_at_def state_abs_def)
next
  case (obj o' x s')
  from obj have "refines m s' z" by (intro refines_keep [OF assms(1)])
  with obj show ?thesis by (simp add: GetOrNewStateObject_def acct_at_def fun_upd_idem)
qed

lemma SetState_refines:
  assumes "refines m s z" "a \<in> keys" "k \<in> keys" "acct_at (sp_world z) a = (f, b)"
  shows "\<exists>s'. SetState be kec a k v s = Ok s'
    \<and> refines m s' (z\<lparr>sp_world := (sp_world z)\<lparr>w_accts := (w_accts (sp_world z))(a \<mapsto> (f(k := v), b))\<rparr>\<rparr>)"
proof -
  let ?w = "(sp_world z)\<lparr>w_accts := (w_accts (sp_world z))(a \<mapsto> (f, b))\<rparr>"
  from GetOrNewStateObject_refines [OF assms(1,2)] assms(4) obtain o' s1 where g: "GetOrNewStateObject be kec a s = Ok (o', s1)"
    "so_address o' = a" "\<not> so_deleted o'" "obj_abs o' (f, b)" "refines m s1 (z\<lparr>sp_world := ?w\<rparr>)" by auto
  from so_GetState_abs [OF g(4) assms(3)] obtain o1 where o1: "so_GetState be k o' = Ok (f k, o1)" "obj_abs o1 (f, b)"
    "so_address o1 = a" "\<not> so_deleted o1" using g(2,3) by auto
  let ?s = "append_journal (StorageChange a k (f k)) s1"
  have st: "state_abs m ?s ?w" using refines_abs [OF g(5)] by simp
  have "so_address (so_setState k v o1) = a" "\<not> so_deleted (so_setState k v o1)" using o1(3,4) by (simp_all add: so_setState_def)
  note ch = change_object_abs [where f = "so_setState k v", OF st o1(3) this obj_abs_setState [OF o1(2) assms(3)]]
  from refines_log [OF g(5) ch(1), of "StorageChange a k (f k)"] ch(2,3) assms(2,3) g(1) o1(1) show ?thesis
    by (simp add: SetState_def fun_upd_idem)
qed

lemma GetState_refines:
  assumes "refines m s z" "a \<in> keys" "k \<in> keys"
  shows "\<exists>s'. GetState be kec a k s = Ok (fst (acct_at (sp_world z) a) k, s') \<and> refines m s' z"
  using refines_abs [OF assms(1)] assms(2)
proof (cases rule: getStateObjectE)
  case (none s')
  from none have "refines m s' z" by (intro refines_keep [OF assms(1)])
  with none show ?thesis by (simp add: GetState_def acct_at_def new_acct_def)
next
  case (obj o' x s')
  from so_GetState_abs [OF obj(8) assms(3)] obtain o1 where o1: "so_GetState be k o' = Ok (fst x k, o1)" "obj_abs o1 x"
    "so_address o1 = a" "\<not> so_deleted o1" using obj(6,7) by auto
  have "state_abs m (setStateObject o1 s') (sp_world z)"
    using state_abs_set [OF obj(2) o1(3,4,2)] obj(9) by (simp add: fun_upd_idem)
  with obj o1(1) refines_keep [OF assms(1), of "setStateObject o1 s'"] show ?thesis by (simp add: GetState_def acct_at_def)
qed

lemma Suicide_refines:
  assumes "refines m s z" "a \<in> keys"
  shows "\<exists>s' out z'. Suicide be kec a s = Ok (out, s') \<and> spec_op (OpSuicide a) z = Ok (OutBool out, z') \<and> refines m s' z'"
  using refines_abs [OF assms(1)] assms(2)
proof (cases rule: getStateObjectE)
  case (none s')
  from none have "refines m s' z" by (intro refines_keep [OF assms(1)])
  with none show ?thesis by (auto simp: Suicide_def)
next
  case (obj o' x s')
  obtain f b where x: "x = (f, b)" by (cases x)
  then have ob: "obj_abs o' (f, b)" "so_suicided o' = b" using obj(8) by (auto simp: obj_abs_def)
  let ?s = "append_journal (SuicideChange a b 0) s'"
  have st: "state_abs m ?s (sp_world z)" using obj(2) by simp
  have "so_address (so_markSuicided o') = a" "\<not> so_deleted (so_markSuicided o')" using obj(6,7) by (simp_all add: so_markSuicided_def)
  note ch = change_object_abs [where f = so_markSuicided, OF st obj(7) this obj_abs_suicided(2) [OF ob(1)]]
  from refines_log [OF assms(1) ch(1), of "SuicideChange a b 0"] ch(2,3) obj(1,3,4,9) ob(2) x assms(2) show ?thesis
    by (auto simp: Suicide_def Let_def fun_upd_idem)
qed

lemma Exist_refines:
  assumes "refines m s z" "a \<in> keys"
  shows "\<exists>s'. Exist be kec a s = Ok (w_accts (sp_world z) a \<noteq> None, s') \<and> refines m s' z"
    and "\<exists>s'. HasSuicided be kec a s = Ok (snd (acct_at (sp_world z) a), s') \<and> refines m s' z"
proof -
  have "\<exists>ob s'. getStateObject be kec a s = Ok (ob, s') \<and> refines m s' z
    \<and> (ob \<noteq> None) = (w_accts (sp_world z) a \<noteq> None)
    \<and> (case ob of None \<Rightarrow> False | Some o' \<Rightarrow> so_suicided o') = snd (acct_at (sp_world z) a)"
    using refines_abs [OF assms(1)] assms(2)
  proof (cases rule: getStateObjectE)
    case (none s')
    from none have "refines m s' z" by (intro refines_keep [OF assms(1)])
    with none show ?thesis by (auto simp: acct_at_def new_acct_def)
  next
    case (obj o' x s')
    from obj have "refines m s' z" by (intro refines_keep [OF assms(1)])
    moreover have "so_suicided o' = snd x" using obj(8) by (auto simp: obj_abs_def)
    ultimately show ?thesis using obj by (auto simp: acct_at_def)
  qed
  then show "\<exists>s'. Exist be kec a s = Ok (w_accts (sp_world z) a \<noteq> None, s') \<and> refines m s' z"
    "\<exists>s'. HasSuicided be kec a s = Ok (snd (acct_at (sp_world z) a), s') \<and> refines m s' z"
    by (auto simp: Exist_def HasSuicided_def)
qed

lemma AddLog_refines:
  assumes "refines m s z"
  shows "\<exists>z'. spec_op (OpAddLog lg) z = Ok (OutUnit, z') \<and> refines m (AddLog lg s) z'"
proof -
  let ?l = "lg\<lparr>lg_txHash := sd_thash s, lg_blockHash := sd_bhash s, lg_txIndex := sd_txIndex s, lg_index := sd_logSize s\<rparr>"
  let ?h = "sd_thash s" and ?w = "sp_world z"
  let ?w' = "?w\<lparr>w_logs := (w_logs ?w)(?h := w_logs ?w ?h @ [?l]), w_logSize := w_logSize ?w + 1\<rparr>"
  have e: "sp_thash z = sd_thash s" "sp_bhash z = sd_bhash s" "sp_txIndex z = sd_txIndex s" using assms by (simp_all add: refines_def)
  have a: "state_abs m s ?w" by (rule refines_abs [OF assms])
  then have l: "w_logSize ?w = sd_logSize s" by (simp add: state_abs_def)
  have st: "state_abs m (AddLog lg s) ?w'"
    using a by (auto simp: AddLog_def state_abs_def GetLogs_def append_journal_def Let_def fun_eq_iff split: option.split)
  have fr: "sd_journal (AddLog lg s) = sd_journal s @ [AddLogChange ?h]" "same_frame s (AddLog lg s)"
    by (simp_all add: AddLog_def append_journal_def Let_def same_frame_def)
  from refines_log [OF assms st fr] e l show ?thesis by (simp add: Let_def)
qed

lemma Snapshot_refines:
  assumes "refines m s z"
  shows "\<exists>z'. spec_op OpSnapshot z = Ok (OutInt (fst (Snapshot s)), z') \<and> refines m (snd (Snapshot s)) z'"
proof -
  from assms obtain Xs where X: "linked m (sd_journal s) Xs" "last Xs = sp_world z"
      "sp_snaps z = map (\<lambda>r. (rv_id r, Xs ! rv_journalIndex r)) (sd_validRevisions s)"
    and r: "revisions_ok (sd_validRevisions s) (sd_nextRevisionId s) (length (sd_journal s))"
    and f: "state_abs m s (sp_world z)" "sp_next z = sd_nextRevisionId s" "sp_thash z = sd_thash s" "sp_bhash z = sd_bhash s"
      "sp_txIndex z = sd_txIndex s"
    by (auto simp: refines_def)
  have l: "length Xs = Suc (length (sd_journal s))" using X(1) by (simp add: linked_def)
  then have "Xs \<noteq> []" by auto
  with l X(2) have "Xs ! length (sd_journal s) = sp_world z" by (simp add: last_conv_nth)
  moreover have "revisions_ok (sd_validRevisions s @ [\<lparr>rv_id = sd_nextRevisionId s, rv_journalIndex = length (sd_journal s)\<rparr>])
     (sd_nextRevisionId s + 1) (length (sd_journal s))"
    using r by (auto simp: revisions_ok_def sorted_append)
  ultimately show ?thesis using X f by (auto simp: Snapshot_def Let_def refines_def)
qed

lemma Revert_refines:
  assumes "refines m s z"
  shows "spec_op (OpRevert rid) z = Panic \<and> RevertToSnapshot be kec rid s = Panic
    \<or> (\<exists>s' z'. spec_op (OpRevert rid) z = Ok (OutUnit, z') \<and> RevertToSnapshot be kec rid s = Ok s' \<and> refines m s' z')"
proof -
  let ?revs = "sd_validRevisions s"
  from assms obtain Xs where X: "linked m (sd_journal s) Xs" "last Xs = sp_world z"
      "sp_snaps z = map (\<lambda>r. (rv_id r, Xs ! rv_journalIndex r)) ?revs"
    and r: "revisions_ok ?revs (sd_nextRevisionId s) (length (sd_journal s))"
    and f: "state_abs m s (sp_world z)" "sp_next z = sd_nextRevisionId s" "sp_thash z = sd_thash s" "sp_bhash z = sd_bhash s"
      "sp_txIndex z = sd_txIndex s"
    by (auto simp: refines_def)
  define i where "i = length (takeWhile (\<lambda>r. rv_id r < rid) ?revs)"
  have i: "sort_Search (\<lambda>i. rid \<le> rv_id (?revs ! i)) 0 (length ?revs) = i" "i \<le> length ?revs"
    using sort_Search_takeWhile [of rv_id ?revs rid] r length_takeWhile_le by (auto simp: revisions_ok_def i_def)
  have iz: "length (takeWhile (\<lambda>s. fst s < rid) (sp_snaps z)) = i" by (simp add: X(3) takeWhile_map o_def i_def)
  show ?thesis
  proof (cases "i = length ?revs \<or> rv_id (?revs ! i) \<noteq> rid")
    case True
    with i iz X(3) show ?thesis by (auto simp: RevertToSnapshot_def Let_def)
  next
    case False
    with i(2) have lt: "i < length ?revs" by simp
    define j where "j = rv_journalIndex (?revs ! i)"
    have j: "j \<le> length (sd_journal s)" using r lt by (auto simp: revisions_ok_def j_def)
    from undo_all_sound [OF X(1) j, of s] X(2) f(1) obtain s1 where s1: "undo_all be kec (rev (drop j (sd_journal s))) s = Ok s1"
      "state_abs m s1 (Xs ! j)" "sd_journal s1 = sd_journal s" "same_frame s s1" by auto
    let ?s = "s1\<lparr>sd_journal := take j (sd_journal s1), sd_validRevisions := take i (sd_validRevisions s1)\<rparr>"
    let ?z = "z\<lparr>sp_world := Xs ! j, sp_snaps := take i (sp_snaps z)\<rparr>"
    have ji: "rv_journalIndex x \<le> j" if "x \<in> set (take i ?revs)" for x
      using that r lt sorted_nth_mono [of "map rv_journalIndex ?revs" _ i]
      by (auto simp: revisions_ok_def j_def in_set_conv_nth)
    have l: "length Xs = Suc (length (sd_journal s))" using X(1) by (simp add: linked_def)
    have "last (take (Suc j) Xs) = Xs ! j" using l j by (simp add: take_Suc_conv_app_nth)
    moreover have "take i (sp_snaps z) = map (\<lambda>r. (rv_id r, take (Suc j) Xs ! rv_journalIndex r)) (take i ?revs)"
      using X(3) ji by (auto simp: take_map le_imp_less_Suc)
    moreover have "revisions_ok (take i ?revs) (sd_nextRevisionId s) (length (take j (sd_journal s)))"
      using r ji j by (auto simp: revisions_ok_def take_map [symmetric] sorted_wrt_take dest: in_set_takeD)
    ultimately have "refines m ?s ?z"
      using s1 f linked_take [OF X(1) j] by (auto simp: refines_def same_frame_def intro!: exI [of _ "take (Suc j) Xs"])
    moreover have "RevertToSnapshot be kec rid s = Ok ?s" using False i s1(1) by (simp add: RevertToSnapshot_def Let_def j_def)
    moreover have "spec_op (OpRevert rid) z = Ok (OutUnit, ?z)" using False iz lt X(3) by (simp add: j_def)
    ultimately show ?thesis by blast
  qed
qed

lemma AddPreimage_refines:
  assumes "refines m s z"
  shows "\<exists>z'. spec_op (OpAddPreimage h p) z = Ok (OutUnit, z') \<and> refines m (AddPreimage h p s) z'"
proof (cases "sd_preimages s h")
  case None
  let ?w = "(sp_world z)\<lparr>w_preimages := (w_preimages (sp_world z))(h \<mapsto> p)\<rparr>"
  have a: "state_abs m s (sp_world z)" by (rule refines_abs [OF assms])
  then have w: "w_preimages (sp_world z) h = None" using None by (simp add: state_abs_def)
  have st: "state_abs m (AddPreimage h p s) ?w" using a None by (simp add: AddPreimage_def state_abs_def GetLogs_def append_journal_def)
  from refines_log [OF assms st, of "AddPreimageChange h"] None w show ?thesis
    by (simp add: AddPreimage_def append_journal_def same_frame_def Let_def fun_upd_idem)
next
  case (Some q)
  with refines_abs [OF assms] have "w_preimages (sp_world z) h \<noteq> None" by (simp add: state_abs_def)
  with Some assms show ?thesis by (auto simp: AddPreimage_def Let_def)
qed

lemma AddRefund_refines:
  assumes "refines m s z"
  shows "\<exists>z'. spec_op (OpAddRefund g) z = Ok (OutUnit, z') \<and> refines m (AddRefund g s) z'"
proof -
  let ?w = "(sp_world z)\<lparr>w_refund := w_refund (sp_world z) + g\<rparr>"
  have a: "state_abs m s (sp_world z)" by (rule refines_abs [OF assms])
  then have w: "w_refund (sp_world z) = sd_refund s" by (simp add: state_abs_def)
  have st: "state_abs m (AddRefund g s) ?w" using a by (simp add: AddRefund_def state_abs_def GetLogs_def append_journal_def)
  have u: "(sp_world z)\<lparr>w_refund := sd_refund s\<rparr> = sp_world z" by (simp flip: w)
  from refines_log [OF assms st, of "RefundChange (sd_refund s)"] u show ?thesis
    by (simp add: AddRefund_def append_journal_def same_frame_def Let_def)
qed

lemma run_op_refines:
  assumes "refines m s z" "op_keys op \<subseteq> keys"
  shows "spec_op op z = Panic \<and> run_op be kec op s = Panic
    \<or> (\<exists>out s' z'. spec_op op z = Ok (out, z') \<and> run_op be kec op s = Ok (out, s') \<and> refines m s' z')"
proof (cases op)
  case (OpSetState a k v)
  obtain f b where fb: "acct_at (sp_world z) a = (f, b)" by (cases "acct_at (sp_world z) a")
  from SetState_refines [OF assms(1) _ _ fb, of k v] assms(2) OpSetState fb show ?thesis by (auto simp: Let_def)
next
  case (OpGetState a k)
  with GetState_refines [OF assms(1), of a k] assms(2) show ?thesis by auto
next
  case (OpExist a)
  with Exist_refines(1) [OF assms(1), of a] assms(2) show ?thesis by auto
next
  case (OpHasSuicided a)
  with Exist_refines(2) [OF assms(1), of a] assms(2) show ?thesis by auto
next
  case (OpCreateAccount a)
  with createObject_refines [OF assms(1), of a] assms(2) show ?thesis by (auto simp: CreateAccount_def Let_def)
next
  case (OpAddBalance a amount)
  with GetOrNewStateObject_refines [OF assms(1), of a] assms(2) show ?thesis by (auto simp: AddBalance_def Let_def)
next
  case (OpSuicide a)
  with Suicide_refines [OF assms(1), of a] assms(2) show ?thesis by fastforce
next
  case (OpAddLog l)
  with AddLog_refines [OF assms(1), of l] show ?thesis by auto
next
  case (OpGetLogs h)
  with refines_abs [OF assms(1)] assms(1) show ?thesis by (simp add: state_abs_def)
next
  case (OpAddPreimage h p)
  with AddPreimage_refines [OF assms(1), of h p] show ?thesis by auto
next
  case (OpGetPreimage h)
  with refines_abs [OF assms(1)] assms(1) show ?thesis by (simp add: state_abs_def)
next
  case (OpAddRefund g)
  with AddRefund_refines [OF assms(1), of g] show ?thesis by auto
next
  case OpGetRefund
  with refines_abs [OF assms(1)] assms(1) show ?thesis by (simp add: state_abs_def)
next
  case (OpPrepare th bh ti)
  with assms(1) show ?thesis by (simp add: refines_def Prepare_def state_abs_def GetLogs_def)
next
  case OpSnapshot
  with Snapshot_refines [OF assms(1)] show ?thesis by (auto simp: Let_def split_beta)
next
  case (OpRevert rid)
  from Revert_refines [OF assms(1), of rid] show ?thesis unfolding OpRevert by auto
qed

lemma run_refines:
  assumes "refines m s z" "\<Union> (op_keys ` set ops) \<subseteq> keys"
  shows "res_map fst (run_ops_state be kec ops s) = res_map fst (spec_run ops z)"
  using assms
proof (induction ops arbitrary: s z)
  case (Cons op ops)
  from Cons.prems run_op_refines [OF Cons.prems(1), of op]
  consider "spec_op op z = Panic" "run_op be kec op s = Panic"
    | out s' z' where "spec_op op z = Ok (out, z')" "run_op be kec op s = Ok (out, s')" "refines m s' z'" by auto
  then show ?case
  proof cases
    case 2
    from Cons.IH [OF 2(3)] Cons.prems(2) have "res_map fst (run_ops_state be kec ops s') = res_map fst (spec_run ops z')" by simp
    with 2 show ?thesis
      by (cases "run_ops_state be kec ops s'"; cases "spec_run ops z'") auto
  qed simp
qed simp

end

section \<open>The state over the secure trie\<close>

interpretation sdb: state_backend "secure_backend kec fuel db" "sec_rep kec fuel db K" K kec for kec fuel db K
proof
  fix t m ah
  assume r: "sec_rep kec fuel db K t m"
  have "represents db \<lparr>tr_root = NilN, tr_originalRoot = zeroHash, tr_cachegen = 0, tr_cachelimit = 0\<rparr> PNil"
    by (simp add: represents_def canon_root_def)
  with r show "\<exists>t'. be_openStorageTrie (secure_backend kec fuel db) ah zeroHash = Ok t' \<and> sec_rep kec fuel db K t' Map.empty"
    by (auto simp: secure_backend_def OpenStorageTrie_def NewSecure_def Trie_New_def SetCacheLimit_def sec_rep_def Let_def
        represents_def content_def intro!: exI [of _ PNil])
qed

text \<open>
  The database holds the accounts \<open>A\<close>: the account trie opens under the root, every account in it decodes, and its
  storage trie opens and holds readable values.
\<close>

definition storage_at :: "(bytes \<Rightarrow> bytes) \<Rightarrow> nat \<Rightarrow> db \<Rightarrow> bytes set \<Rightarrow> hash \<Rightarrow> hash \<Rightarrow> (hash \<Rightarrow> hash) \<Rightarrow> bool" where
  "storage_at kec fuel db K addrHash root f \<longleftrightarrow>
     (\<exists>t m. OpenStorageTrie db addrHash root = Ok t \<and> sec_rep kec fuel db K t m \<and> readable K m
        \<and> (\<forall>k. f k = (if k \<in> K then val_of (m k) else zeroHash)))"

definition account_at :: "(bytes \<Rightarrow> bytes) \<Rightarrow> nat \<Rightarrow> db \<Rightarrow> bytes set \<Rightarrow> (bytes \<Rightarrow> bytes option) \<Rightarrow> address \<Rightarrow> acct option \<Rightarrow> bool" where
  "account_at kec fuel db K m a x \<longleftrightarrow>
     (case m a of
        None \<Rightarrow> x = None
      | Some b \<Rightarrow>
          if length b = 0 then x = None
          else (case decodeAccount b of
                  Ok root \<Rightarrow> (\<exists>f. storage_at kec fuel db K (kec a) root f \<and> x = Some (f, False))
                | Err e \<Rightarrow> x = None
                | _ \<Rightarrow> False))"

definition database_holds :: "(bytes \<Rightarrow> bytes) \<Rightarrow> nat \<Rightarrow> db \<Rightarrow> bytes set \<Rightarrow> hash \<Rightarrow> (address \<Rightarrow> acct option) \<Rightarrow> bool" where
  "database_holds kec fuel db K root A \<longleftrightarrow>
     (\<exists>t m. NewSecure root (Some db) MaxTrieCacheGen = Ok t \<and> sec_rep kec fuel db K t m
        \<and> (\<forall>a\<in>K. account_at kec fuel db K m a (A a)))"

definition spec_init :: "(address \<Rightarrow> acct option) \<Rightarrow> 'l spec" where
  "spec_init A =
     \<lparr>sp_world = \<lparr>w_accts = A, w_logs = (\<lambda>_. []), w_logSize = 0, w_refund = 0, w_preimages = Map.empty\<rparr>,
      sp_thash = zeroHash, sp_bhash = zeroHash, sp_txIndex = 0, sp_snaps = [], sp_next = 0\<rparr>"

lemma secure_open [simp]:
  "be_openStorageTrie (secure_backend kec fuel db) = OpenStorageTrie db"
  "be_openTrie (secure_backend kec fuel db) root = NewSecure root (Some db) MaxTrieCacheGen"
  by (simp_all add: secure_backend_def)

lemma storage_at_obj:
  assumes "storage_at kec fuel db K (kec a) root f"
  shows "sdb.obj_abs kec fuel db K (newObject kec a root True) (f, False)"
proof -
  from assms obtain t m where t: "OpenStorageTrie db (kec a) root = Ok t" "sec_rep kec fuel db K t m" "readable K m"
    and f: "f = (\<lambda>k. if k \<in> K then val_of (m k) else zeroHash)" by (auto simp: storage_at_def fun_eq_iff)
  have "sdb.st_map kec fuel db K (newObject kec a root True) m" using t by (simp add: sdb.st_map_def)
  moreover have "sdb.view K (newObject kec a root True) m = f" by (simp add: sdb.view_def f fun_eq_iff)
  ultimately show ?thesis by (auto simp: sdb.obj_abs_def)
qed

lemma account_at_base: "account_at kec fuel db K m a x \<Longrightarrow> sdb.base_abs kec fuel db K m a x"
  by (auto simp: account_at_def sdb.base_abs_def dest!: storage_at_obj split: option.splits res.splits if_splits)

lemma State_New_refines:
  assumes "database_holds kec fuel db K root A"
  shows "\<exists>s0 m. State_New (secure_backend kec fuel db) root = Ok s0 \<and> sdb.refines kec fuel db K m s0 (spec_init A)"
proof -
  from assms obtain t m where t: "NewSecure root (Some db) MaxTrieCacheGen = Ok t" "sec_rep kec fuel db K t m"
    "\<forall>a\<in>K. account_at kec fuel db K m a (A a)" by (auto simp: database_holds_def)
  then show ?thesis
    by (auto simp: State_New_def sdb.refines_def
        sdb.linked_def sdb.revisions_ok_def sdb.state_abs_def sdb.live_abs_def spec_init_def GetLogs_def account_at_base
        intro!: exI [of _ m] exI [of _ "[sp_world (spec_init A)]"])
qed

text \<open>
  C5: The state implements its specification.  For every sequence of operations, over every database and every set \<open>K\<close> of
  addresses and slots on which the hash function is injective, the state with its caches, its lazily loaded tries and its
  journal gives the results of a world that is copied at every snapshot and put back at every revert; an invalid revision
  panics in both.
\<close>

theorem state_implements_spec:
  assumes "database_holds kec fuel db K root A"
    and "\<Union> (op_keys ` set ops) \<subseteq> K"
  shows "\<exists>s0. State_New (secure_backend kec fuel db) root = Ok s0
    \<and> res_map fst (run_ops_state (secure_backend kec fuel db) kec ops s0) = res_map fst (spec_run ops (spec_init A))"
  using State_New_refines [OF assms(1)] sdb.run_refines [OF _ assms(2)] by blast

theorem state_implements_spec_witness:
  "\<exists>s0 :: (SecureTrie, unit) StateDB. State_New (secure_backend pad32 132 Map.empty) zeroHash = Ok s0
    \<and> res_map fst (run_ops_state (secure_backend pad32 132 Map.empty) pad32
        [OpSetState (replicate 20 1) (replicate 32 2) (replicate 32 3), OpSnapshot,
         OpSetState (replicate 20 1) (replicate 32 2) (replicate 32 4), OpSuicide (replicate 20 1), OpAddRefund 5,
         OpGetState (replicate 20 1) (replicate 32 2), OpRevert 0,
         OpGetState (replicate 20 1) (replicate 32 2), OpHasSuicided (replicate 20 1), OpGetRefund] s0)
      = Ok [OutUnit, OutInt 0, OutUnit, OutBool True, OutUnit, OutHash (replicate 32 4), OutUnit, OutHash (replicate 32 3),
            OutBool False, OutInt 0]"
proof -
  let ?K = "{replicate 20 1, replicate 32 2} :: bytes set"
  let ?ops = "[OpSetState (replicate 20 1) (replicate 32 2) (replicate 32 3), OpSnapshot,
         OpSetState (replicate 20 1) (replicate 32 2) (replicate 32 4), OpSuicide (replicate 20 1), OpAddRefund 5,
         OpGetState (replicate 20 1) (replicate 32 2), OpRevert 0,
         OpGetState (replicate 20 1) (replicate 32 2), OpHasSuicided (replicate 20 1), OpGetRefund] :: unit state_op list"
  have "inj_on pad32 ?K" unfolding inj_on_def by (simp; code_simp)
  then have h: "database_holds pad32 132 Map.empty ?K zeroHash (\<lambda>_. None)"
    by (auto simp: database_holds_def account_at_def sec_rep_def NewSecure_def Trie_New_def SetCacheLimit_def enough_def length_pad32
        represents_def canon_root_def content_def intro!: exI [of _ PNil] exI [of _ Map.empty])
  have e: "res_map fst (spec_run ?ops (spec_init (\<lambda>_. None))) =
      Ok [OutUnit, OutInt 0, OutUnit, OutBool True, OutUnit, OutHash (replicate 32 4), OutUnit, OutHash (replicate 32 3),
            OutBool False, OutInt 0]"
    by (simp add: spec_init_def acct_at_def new_acct_def Let_def)
  have "\<Union> (op_keys ` set ?ops) \<subseteq> ?K" by simp
  from state_implements_spec [OF h this] show ?thesis unfolding e .
qed

end
