(* ===== verification/Lru.thy ===== *)
theory Lru
  imports Prelude
begin

text \<open>
  The least recently used cache, \<^verbatim>\<open>src/vendor/github.com/hashicorp/golang-lru/simplelru/lru.go\<close>, with which the chain keeps
  headers, difficulties, numbers and blocks.  The eviction list is a list of entries, the most recent first; the map
  of the code from keys to list elements is the list's own lookup.
\<close>

section \<open>The cache\<close>

record ('k, 'v) LRU =
  lru_size :: nat
  lru_items :: "('k \<times> 'v) list"

definition NewLRU :: "int \<Rightarrow> (unit, ('k, 'v) LRU) res" where
  "NewLRU n = (if n \<le> 0 then Err () else Ok \<lparr>lru_size = nat n, lru_items = []\<rparr>)"

definition Lru_Purge :: "('k, 'v) LRU \<Rightarrow> ('k, 'v) LRU" where
  "Lru_Purge c = c\<lparr>lru_items := []\<rparr>"

definition Lru_Contains :: "'k \<Rightarrow> ('k, 'v) LRU \<Rightarrow> bool" where
  "Lru_Contains k c = (k \<in> set (map fst (lru_items c)))"

text \<open>\<^verbatim>\<open>MoveToFront\<close> of the entry of \<open>k\<close>, with its value set to \<open>v\<close>.\<close>

definition to_front :: "'k \<Rightarrow> 'v \<Rightarrow> ('k \<times> 'v) list \<Rightarrow> ('k \<times> 'v) list" where
  "to_front k v es = (k, v) # filter (\<lambda>e. fst e \<noteq> k) es"

definition removeOldest :: "('k, 'v) LRU \<Rightarrow> ('k, 'v) LRU" where
  "removeOldest c = c\<lparr>lru_items := butlast (lru_items c)\<rparr>"

definition Lru_Add :: "'k \<Rightarrow> 'v \<Rightarrow> ('k, 'v) LRU \<Rightarrow> ('k, 'v) LRU" where
  "Lru_Add k v c =
     (if Lru_Contains k c then c\<lparr>lru_items := to_front k v (lru_items c)\<rparr>
      else let c = c\<lparr>lru_items := (k, v) # lru_items c\<rparr>
           in if length (lru_items c) > lru_size c then removeOldest c else c)"

definition Lru_Peek :: "'k \<Rightarrow> ('k, 'v) LRU \<Rightarrow> 'v option" where
  "Lru_Peek k c = map_of (lru_items c) k"

definition Lru_Get :: "'k \<Rightarrow> ('k, 'v) LRU \<Rightarrow> 'v option \<times> ('k, 'v) LRU" where
  "Lru_Get k c =
     (case map_of (lru_items c) k of
        None \<Rightarrow> (None, c)
      | Some v \<Rightarrow> (Some v, c\<lparr>lru_items := to_front k v (lru_items c)\<rparr>))"

definition Lru_Remove :: "'k \<Rightarrow> ('k, 'v) LRU \<Rightarrow> ('k, 'v) LRU" where
  "Lru_Remove k c = c\<lparr>lru_items := filter (\<lambda>e. fst e \<noteq> k) (lru_items c)\<rparr>"

definition Lru_Keys :: "('k, 'v) LRU \<Rightarrow> 'k list" where
  "Lru_Keys c = rev (map fst (lru_items c))"

section \<open>What a cache holds\<close>

definition lru_ok :: "('k, 'v) LRU \<Rightarrow> bool" where
  "lru_ok c \<longleftrightarrow> 0 < lru_size c \<and> length (lru_items c) \<le> lru_size c \<and> distinct (map fst (lru_items c))"

text \<open>A cache says nothing but what the relation \<open>P\<close> allows.\<close>

definition lru_all :: "('k \<Rightarrow> 'v \<Rightarrow> bool) \<Rightarrow> ('k, 'v) LRU \<Rightarrow> bool" where
  "lru_all P c \<longleftrightarrow> (\<forall>k v. (k, v) \<in> set (lru_items c) \<longrightarrow> P k v)"

lemma lru_all_mono: "lru_all P c \<Longrightarrow> (\<And>k v. P k v \<Longrightarrow> Q k v) \<Longrightarrow> lru_all Q c"
  by (auto simp: lru_all_def)

lemma lru_all_Purge [simp]: "lru_all P (Lru_Purge c)"
  by (simp add: lru_all_def Lru_Purge_def)

lemma lru_all_Add: "lru_all P c \<Longrightarrow> P k v \<Longrightarrow> lru_all P (Lru_Add k v c)"
  by (auto simp: lru_all_def Lru_Add_def to_front_def removeOldest_def Let_def dest: in_set_butlastD)

lemma lru_all_Get: "lru_all P c \<Longrightarrow> Lru_Get k c = (r, c') \<Longrightarrow> lru_all P c' \<and> (\<forall>v. r = Some v \<longrightarrow> P k v)"
  by (cases "map_of (lru_items c) k") (auto simp: lru_all_def Lru_Get_def to_front_def dest!: sym [of "Some _"] map_of_SomeD)

lemma lru_all_Remove: "lru_all P c \<Longrightarrow> lru_all P (Lru_Remove k c)"
  by (auto simp: lru_all_def Lru_Remove_def)

lemma lru_all_Contains: "lru_all P c \<Longrightarrow> Lru_Contains k c \<Longrightarrow> \<exists>v. P k v"
  unfolding lru_all_def Lru_Contains_def by fastforce

lemma lru_all_Peek: "lru_all P c \<Longrightarrow> Lru_Peek k c = Some v \<Longrightarrow> P k v"
  by (auto simp: lru_all_def Lru_Peek_def dest!: map_of_SomeD)

section \<open>The most recently used entries are kept\<close>

datatype ('k, 'v) lru_op = LAdd 'k 'v | LGet 'k | LPurge

fun lru_step :: "('k, 'v) lru_op \<Rightarrow> ('k, 'v) LRU \<Rightarrow> ('k, 'v) LRU" where
  "lru_step (LAdd k v) c = Lru_Add k v c"
| "lru_step (LGet k) c = snd (Lru_Get k c)"
| "lru_step LPurge c = Lru_Purge c"

text \<open>
  Without a bound: every entry ever added stays, in the order of its last use.  A read of an entry beyond the first \<open>n\<close>
  is no use of it.
\<close>

fun unbounded_step :: "nat \<Rightarrow> ('k, 'v) lru_op \<Rightarrow> ('k \<times> 'v) list \<Rightarrow> ('k \<times> 'v) list" where
  "unbounded_step n (LAdd k v) es = to_front k v es"
| "unbounded_step n (LGet k) es = (case map_of (take n es) k of None \<Rightarrow> es | Some v \<Rightarrow> to_front k v es)"
| "unbounded_step n LPurge es = []"

lemma filter_other: "k \<notin> fst ` set es \<Longrightarrow> filter (\<lambda>e. fst e \<noteq> k) es = es"
  by (induction es) auto

lemma length_filter_other: "distinct (map fst es) \<Longrightarrow> k \<in> fst ` set es \<Longrightarrow> length (filter (\<lambda>e. fst e \<noteq> k) es) = length es - 1"
proof (induction es)
  case (Cons e es)
  show ?case
  proof (cases "fst e = k")
    case True
    with Cons.prems(1) have "k \<notin> fst ` set es" by auto
    with True show ?thesis by (simp add: filter_other)
  next
    case False
    with Cons have "length (filter (\<lambda>e. fst e \<noteq> k) es) = length es - 1" "es \<noteq> []" by auto
    with False show ?thesis by simp
  qed
qed simp

lemma take_to_front:
  assumes "distinct (map fst es)" "0 < n"
  shows "take n (to_front k v es) =
    (if k \<in> fst ` set (take n es) then to_front k v (take n es) else (k, v) # take (n - 1) es)"
proof -
  let ?A = "take n es" and ?B = "drop n es"
  have f: "filter (\<lambda>e. fst e \<noteq> k) es = filter (\<lambda>e. fst e \<noteq> k) ?A @ filter (\<lambda>e. fst e \<noteq> k) ?B"
    by (metis append_take_drop_id filter_append)
  have d: "distinct (map fst ?A)" "fst ` set ?A \<inter> fst ` set ?B = {}"
    using assms(1) append_take_drop_id [of n es] by (metis distinct_append map_append, metis distinct_append map_append set_map)
  have c: "take n (to_front k v es) = (k, v) # take (n - 1) (filter (\<lambda>e. fst e \<noteq> k) es)"
    using assms(2) by (cases n) (simp_all add: to_front_def)
  show ?thesis
  proof (cases "k \<in> fst ` set ?A")
    case True
    then have "k \<notin> fst ` set ?B" using d(2) by auto
    then have e: "filter (\<lambda>e. fst e \<noteq> k) es = filter (\<lambda>e. fst e \<noteq> k) ?A @ ?B" using f by (simp add: filter_other)
    have l: "length (filter (\<lambda>e. fst e \<noteq> k) ?A) = length ?A - 1" by (rule length_filter_other [OF d(1) True])
    have "take (n - 1) (filter (\<lambda>e. fst e \<noteq> k) ?A @ ?B) = filter (\<lambda>e. fst e \<noteq> k) ?A"
    proof -
      have "length (filter (\<lambda>e. fst e \<noteq> k) ?A) \<le> n - 1" unfolding l by simp
      moreover have "n - 1 - length (filter (\<lambda>e. fst e \<noteq> k) ?A) = 0 \<or> ?B = []" unfolding l by (cases "n \<le> length es") simp_all
      ultimately show ?thesis by (simp only: take_append) auto
    qed
    with True c e show ?thesis by (simp only: to_front_def if_True)
  next
    case False
    then have e: "filter (\<lambda>e. fst e \<noteq> k) es = ?A @ filter (\<lambda>e. fst e \<noteq> k) ?B" using f filter_other [OF False] by simp
    have "take (n - 1) (?A @ filter (\<lambda>e. fst e \<noteq> k) ?B) = take (n - 1) es"
      by (cases "n \<le> length es") (simp_all only: take_append, simp_all)
    with False c e show ?thesis by (simp only: if_False)
  qed
qed

lemma lru_step_unbounded:
  assumes "distinct (map fst es)" "0 < n"
  shows "lru_step op \<lparr>lru_size = n, lru_items = take n es\<rparr> = \<lparr>lru_size = n, lru_items = take n (unbounded_step n op es)\<rparr>"
proof (cases op)
  case (LAdd k v)
  have "butlast ((k, v) # take n es) = (k, v) # take (n - 1) es" if "n \<le> length es"
  proof -
    have "take n es \<noteq> []" using that assms(2) by auto
    then show ?thesis using butlast_take [OF that] by simp
  qed
  then show ?thesis
    using LAdd assms by (auto simp: Lru_Add_def Lru_Contains_def removeOldest_def take_to_front Let_def)
next
  case (LGet k)
  show ?thesis
  proof (cases "map_of (take n es) k")
    case None
    with LGet show ?thesis by (simp add: Lru_Get_def)
  next
    case (Some v)
    then have "k \<in> fst ` set (take n es)" by (metis map_of_eq_None_iff option.distinct(1))
    with Some LGet assms show ?thesis by (simp add: Lru_Get_def take_to_front)
  qed
qed (simp add: Lru_Purge_def)

lemma unbounded_distinct: "distinct (map fst es) \<Longrightarrow> distinct (map fst (unbounded_step n op es))"
  by (cases op) (auto simp: to_front_def distinct_map_filter image_iff split: option.split)

text \<open>
  C30: The cache keeps the most recently used entries.  After any sequence of operations on a new cache of size \<open>n\<close> it
  holds exactly the first \<open>n\<close> entries of the unbounded list that orders every entry by its last use; so it never holds
  more than \<open>n\<close>, and what it answers was the last value added under the key.
\<close>

theorem lru_most_recent:
  assumes "0 < n"
  shows "res_map (fold lru_step ops) (NewLRU n) = Ok \<lparr>lru_size = nat n, lru_items = take (nat n) (fold (unbounded_step (nat n)) ops [])\<rparr>"
proof -
  have "distinct (map fst es) \<Longrightarrow> fold lru_step ops \<lparr>lru_size = nat n, lru_items = take (nat n) es\<rparr>
      = \<lparr>lru_size = nat n, lru_items = take (nat n) (fold (unbounded_step (nat n)) ops es)\<rparr>" for es :: "('a \<times> 'b) list"
    using assms by (induction ops arbitrary: es) (simp_all add: lru_step_unbounded unbounded_distinct)
  from this [of "[]"] assms show ?thesis by (simp add: NewLRU_def)
qed

theorem lru_most_recent_witness:
  "res_map (fold lru_step [LAdd 1 10, LAdd 2 20, LGet 1, LAdd (3 :: nat) (30 :: nat)]) (NewLRU 2)
     = Ok \<lparr>lru_size = 2, lru_items = [(3, 30), (1, 10)]\<rparr>"
  using lru_most_recent [of 2 "[LAdd 1 10, LAdd 2 20, LGet 1, LAdd (3 :: nat) (30 :: nat)]"] by (simp add: to_front_def)

end
