(* ===== verification/Block_Types.thy ===== *)
theory Block_Types
  imports Rlp_Decode Common_Types
begin

text \<open>
  Headers, transactions, blocks and receipts, \<^verbatim>\<open>src/blockchain/types\<close>, with their RLP form and their hashes.  The big
  integers of a header are behind pointers that are set.  The hash function is the parameter \<open>kec\<close>.
\<close>

section \<open>Data\<close>

record Header =
  hd_ParentHash :: hash
  hd_Coinbase :: address
  hd_ProofHash :: hash
  hd_Root :: hash
  hd_TxHash :: hash
  hd_ReceiptHash :: hash
  hd_ProofRoot :: hash
  hd_Difficulty :: int
  hd_Number :: int
  hd_Time :: int
  hd_Extra :: bytes

record Transaction =
  tx_Payload :: bytes

record ProofState =
  ps_Addr :: address
  ps_Root :: hash
  ps_Num :: u64

record Body =
  bd_Transactions :: "Transaction list"
  bd_Proofs :: "ProofState list"

record Block =
  bl_header :: Header
  bl_transactions :: "Transaction list"
  bl_proofs :: "ProofState list"

record Receipt =
  rc_Status :: u64
  rc_ConfirmCount :: u64
  rc_TxHash :: hash

text \<open>\<^verbatim>\<open>Uint64\<close> of a big integer: its low 64 bits.\<close>

definition Uint64 :: "int \<Rightarrow> u64" where
  "Uint64 i = word_of_int \<bar>i\<bar>"

definition NumberU64 :: "Block \<Rightarrow> u64" where
  "NumberU64 b = Uint64 (hd_Number (bl_header b))"

definition Block_Body :: "Block \<Rightarrow> Body" where
  "Block_Body b = \<lparr>bd_Transactions = bl_transactions b, bd_Proofs = bl_proofs b\<rparr>"

definition NewBlockWithHeader :: "Header \<Rightarrow> Block" where
  "NewBlockWithHeader h = \<lparr>bl_header = h, bl_transactions = [], bl_proofs = []\<rparr>"

definition WithBody :: "Transaction list \<Rightarrow> ProofState list \<Rightarrow> Block \<Rightarrow> Block" where
  "WithBody txs proofs b = \<lparr>bl_header = bl_header b, bl_transactions = txs, bl_proofs = proofs\<rparr>"

section \<open>Encodings\<close>

text \<open>
  The parts of a decoded value.  A decoder returns only values of its type, so that the cases of another constructor do
  not occur.
\<close>

fun rv_list :: "rval \<Rightarrow> rval list" where
  "rv_list (ListV vs) = vs"
| "rv_list _ = []"

fun rv_bytes :: "rval \<Rightarrow> bytes" where
  "rv_bytes (BytesV b) = b"
| "rv_bytes _ = []"

fun rv_big :: "rval \<Rightarrow> int" where
  "rv_big (BigV (Some i)) = i"
| "rv_big _ = 0"

fun rv_uint :: "rval \<Rightarrow> u64" where
  "rv_uint (UintV i) = i"
| "rv_uint _ = 0"

definition header_rval :: "Header \<Rightarrow> rval" where
  "header_rval h =
     ListV [BytesV (hd_ParentHash h), BytesV (hd_Coinbase h), BytesV (hd_ProofHash h), BytesV (hd_Root h),
            BytesV (hd_TxHash h), BytesV (hd_ReceiptHash h), BytesV (hd_ProofRoot h), BigV (Some (hd_Difficulty h)),
            BigV (Some (hd_Number h)), BigV (Some (hd_Time h)), BytesV (hd_Extra h)]"

definition Header_type :: rtype where
  "Header_type =
     TStruct [TByteArray HashLength, TByteArray AddressLength, TByteArray HashLength, TByteArray HashLength,
              TByteArray HashLength, TByteArray HashLength, TByteArray HashLength, TBig, TBig, TBig, TByteSlice]"

definition header_of :: "rval \<Rightarrow> Header" where
  "header_of v =
     (let vs = rv_list v
      in \<lparr>hd_ParentHash = rv_bytes (vs ! 0), hd_Coinbase = rv_bytes (vs ! 1), hd_ProofHash = rv_bytes (vs ! 2),
          hd_Root = rv_bytes (vs ! 3), hd_TxHash = rv_bytes (vs ! 4), hd_ReceiptHash = rv_bytes (vs ! 5),
          hd_ProofRoot = rv_bytes (vs ! 6), hd_Difficulty = rv_big (vs ! 7), hd_Number = rv_big (vs ! 8),
          hd_Time = rv_big (vs ! 9), hd_Extra = rv_bytes (vs ! 10)\<rparr>)"

definition tx_rval :: "Transaction \<Rightarrow> rval" where
  "tx_rval tx = ListV [BytesV (tx_Payload tx)]"

definition Transaction_type :: rtype where
  "Transaction_type = TStruct [TByteSlice]"

definition tx_of :: "rval \<Rightarrow> Transaction" where
  "tx_of v = \<lparr>tx_Payload = rv_bytes (rv_list v ! 0)\<rparr>"

definition proof_rval :: "ProofState \<Rightarrow> rval" where
  "proof_rval p = ListV [BytesV (ps_Addr p), BytesV (ps_Root p), UintV (ps_Num p)]"

definition ProofState_type :: rtype where
  "ProofState_type = TStruct [TByteArray AddressLength, TByteArray HashLength, TUint 64]"

definition proof_of :: "rval \<Rightarrow> ProofState" where
  "proof_of v =
     \<lparr>ps_Addr = rv_bytes (rv_list v ! 0), ps_Root = rv_bytes (rv_list v ! 1), ps_Num = rv_uint (rv_list v ! 2)\<rparr>"

definition body_rval :: "Body \<Rightarrow> rval" where
  "body_rval b = ListV [ListV (map tx_rval (bd_Transactions b)), ListV (map proof_rval (bd_Proofs b))]"

definition Body_type :: rtype where
  "Body_type = TStruct [TSlice Transaction_type, TSlice ProofState_type]"

definition body_of :: "rval \<Rightarrow> Body" where
  "body_of v =
     \<lparr>bd_Transactions = map tx_of (rv_list (rv_list v ! 0)), bd_Proofs = map proof_of (rv_list (rv_list v ! 1))\<rparr>"

definition statusEncoding :: "Receipt \<Rightarrow> bytes" where
  "statusEncoding r = (if rc_Status r = 0 then [] else [1])"

definition setStatus :: "bytes \<Rightarrow> u64 option" where
  "setStatus b = (if b = [1] then Some 1 else if b = [] then Some 0 else None)"

text \<open>\<^verbatim>\<open>ReceiptForStorage\<close>.\<close>

definition receipt_rval :: "Receipt \<Rightarrow> rval" where
  "receipt_rval r = ListV [BytesV (statusEncoding r), UintV (rc_ConfirmCount r), BytesV (rc_TxHash r)]"

definition Receipt_type :: rtype where
  "Receipt_type = TStruct [TByteSlice, TUint 64, TByteArray HashLength]"

definition receipt_of :: "rval \<Rightarrow> Receipt option" where
  "receipt_of v =
     map_option (\<lambda>s. \<lparr>rc_Status = s, rc_ConfirmCount = rv_uint (rv_list v ! 1), rc_TxHash = rv_bytes (rv_list v ! 2)\<rparr>)
       (setStatus (rv_bytes (rv_list v ! 0)))"

text \<open>The receipts of a list, when all of them have a status.\<close>

fun receipts_of :: "rval list \<Rightarrow> Receipt list option" where
  "receipts_of [] = Some []"
| "receipts_of (v # vs) = (case receipt_of v of None \<Rightarrow> None | Some r \<Rightarrow> map_option ((#) r) (receipts_of vs))"

section \<open>Hashes\<close>

text \<open>What cannot be encoded writes nothing to the hash.\<close>

definition rlpHash :: "(bytes \<Rightarrow> bytes) \<Rightarrow> rval \<Rightarrow> hash" where
  "rlpHash kec x = kec (case rlp_Encode x of Ok ws \<Rightarrow> concat ws | _ \<Rightarrow> [])"

definition Header_Hash :: "(bytes \<Rightarrow> bytes) \<Rightarrow> Header \<Rightarrow> hash" where
  "Header_Hash kec h = rlpHash kec (header_rval h)"

definition Transaction_Hash :: "(bytes \<Rightarrow> bytes) \<Rightarrow> Transaction \<Rightarrow> hash" where
  "Transaction_Hash kec tx = rlpHash kec (tx_rval tx)"

definition Block_Hash :: "(bytes \<Rightarrow> bytes) \<Rightarrow> Block \<Rightarrow> hash" where
  "Block_Hash kec b = Header_Hash kec (bl_header b)"

section \<open>Decoding what was encoded\<close>

text \<open>\<^verbatim>\<open>rlp.Decode\<close> from a \<^verbatim>\<open>bytes.Reader\<close>: input after the value is not looked at.  The fuel is enough for every input.\<close>

definition rlp_Decode :: "rtype \<Rightarrow> bytes \<Rightarrow> (rlp_error, rval) res" where
  "rlp_Decode t b = fst (decode_val (length b + depth t + 2) t (NewStream b True 0))"

definition rlp_DecodeBytes :: "rtype \<Rightarrow> bytes \<Rightarrow> (rlp_error, rval) res" where
  "rlp_DecodeBytes t b = DecodeBytes (length b + depth t + 2) t b"

text \<open>A value that its type describes and whose encoding has a length the machine can count.\<close>

definition encodable :: "rtype \<Rightarrow> rval \<Rightarrow> bool" where
  "encodable t v \<longleftrightarrow> plain t \<and> has_type t v \<and> length (enc_rval v) < 2 ^ 63"

lemma NewStream_mem: "b \<noteq> [] \<Longrightarrow> length b < 2 ^ 63 \<Longrightarrow> NewStream b True 0 = NewStream b True (of_nat (length b))"
proof -
  assume b: "b \<noteq> []" "length b < 2 ^ 63"
  then have "unat (of_nat (length b) :: u64) = length b" by (intro unat_of_nat_u64) simp
  with b have "(of_nat (length b) :: u64) > 0" by (simp add: word_greater_zero_iff flip: unat_eq_0)
  then show ?thesis by (simp add: NewStream_def Stream_Reset_def)
qed

lemma encodable_roundtrip:
  assumes "encodable t v"
  shows "EncodeToBytes v = Ok (enc_rval v)" "rlp_Decode t (enc_rval v) = Ok v" "rlp_DecodeBytes t (enc_rval v) = Ok v"
    "enc_rval v \<noteq> []" "rlpHash kec v = kec (enc_rval v)"
proof -
  have p: "plain t" "has_type t v" "length (enc_rval v) < 2 ^ 63" using assms by (simp_all add: encodable_def)
  have "rval_nonneg v" "length (enc_rval v) < 2 ^ 64" using p has_type_nonneg by auto
  from write_val_wrote(1) [OF this] obtain w
    where w: "write_val v encbuf_reset = Ok w" "wrote encbuf_reset w (enc_rval v)" by blast
  then show "EncodeToBytes v = Ok (enc_rval v)" "rlpHash kec v = kec (enc_rval v)"
    by (simp_all add: EncodeToBytes_def rlpHash_def rlp_Encode_def wrote_reset(1,2))
  show ne: "enc_rval v \<noteq> []" using enc_not_Nil p by blast
  show d: "rlp_DecodeBytes t (enc_rval v) = Ok v"
    unfolding rlp_DecodeBytes_def using DecodeBytes_Ok_iff [OF p(1,3)] p(2) by simp
  show "rlp_Decode t (enc_rval v) = Ok v"
    using d by (auto simp: rlp_Decode_def rlp_DecodeBytes_def DecodeBytes_def NewStream_mem [OF ne p(3)]
        split: prod.splits res.splits if_splits)
qed

lemma header_of_rval [simp]: "header_of (header_rval h) = h"
  by (simp add: header_of_def header_rval_def)

lemma body_of_rval [simp]: "body_of (body_rval b) = b"
  by (simp add: body_of_def body_rval_def tx_rval_def tx_of_def proof_rval_def proof_of_def map_idI)

definition receipt_ok :: "Receipt \<Rightarrow> bool" where
  "receipt_ok r \<longleftrightarrow> rc_Status r \<in> {0, 1}"

lemma receipts_of_rval: "list_all receipt_ok rs \<Longrightarrow> receipts_of (map receipt_rval rs) = Some rs"
  by (induction rs) (auto simp: receipt_of_def receipt_ok_def receipt_rval_def statusEncoding_def setStatus_def)

text \<open>Headers, bodies and receipts as the code has them, with encodings of a countable length.\<close>

definition header_ok :: "Header \<Rightarrow> bool" where
  "header_ok h \<longleftrightarrow> encodable Header_type (header_rval h)"

definition body_ok :: "Body \<Rightarrow> bool" where
  "body_ok b \<longleftrightarrow> encodable Body_type (body_rval b)"

lemma header_ok_parent: "header_ok h \<Longrightarrow> length (hd_ParentHash h) = HashLength"
  and header_ok_nonneg: "header_ok h \<Longrightarrow> 0 \<le> hd_Number h"
  by (simp_all add: header_ok_def encodable_def Header_type_def header_rval_def)

end
