(* ===== verification/Chain_Database.thy ===== *)
theory Chain_Database
  imports Block_Types
begin

text \<open>
  The chain's data in the key-value store, \<^verbatim>\<open>src/blockchain/database_util.go\<close>: the layout of the keys and one reader,
  writer and remover per item.  The store is a map from keys to values; an error of the store ends the process in the
  code (\<^verbatim>\<open>log.Crit\<close>) and is not modelled.  Chain configurations, which are JSON, and the proofs of peers, which are keyed by
  a SHA-256 hash, are left out.
\<close>

type_synonym store = "bytes \<rightharpoonup> bytes"

section \<open>Keys\<close>

definition ascii :: "string \<Rightarrow> bytes" where
  "ascii s = map of_char s"

definition headHeaderKey :: bytes where "headHeaderKey = ascii ''LastHeader''"
definition headBlockKey :: bytes where "headBlockKey = ascii ''LastBlock''"
definition headFastKey :: bytes where "headFastKey = ascii ''LastFast''"
definition headerPrefix :: bytes where "headerPrefix = ascii ''h''"
definition tdSuffix :: bytes where "tdSuffix = ascii ''t''"
definition numSuffix :: bytes where "numSuffix = ascii ''n''"
definition blockHashPrefix :: bytes where "blockHashPrefix = ascii ''H''"
definition bodyPrefix :: bytes where "bodyPrefix = ascii ''b''"
definition blockReceiptsPrefix :: bytes where "blockReceiptsPrefix = ascii ''r''"
definition lookupPrefix :: bytes where "lookupPrefix = ascii ''l''"
definition bloomBitsPrefix :: bytes where "bloomBitsPrefix = ascii ''B''"
definition oldReceiptsPrefix :: bytes where "oldReceiptsPrefix = ascii ''receipts-''"
definition oldTxMetaSuffix :: bytes where "oldTxMetaSuffix = [0x01]"
definition preimagePrefix :: bytes where "preimagePrefix = ascii ''secure-key-''"
definition randomPrefix :: bytes where "randomPrefix = ascii ''random''"
definition versionKey :: bytes where "versionKey = ascii ''BlockchainVersion''"

definition encodeBlockNumber :: "u64 \<Rightarrow> bytes" where
  "encodeBlockNumber number = wbytes 8 number"

definition canonicalKey :: "u64 \<Rightarrow> bytes" where
  "canonicalKey number = headerPrefix @ encodeBlockNumber number @ numSuffix"

definition numberKey :: "hash \<Rightarrow> bytes" where
  "numberKey hash = blockHashPrefix @ hash"

definition headerKey :: "hash \<Rightarrow> u64 \<Rightarrow> bytes" where
  "headerKey hash number = headerPrefix @ encodeBlockNumber number @ hash"

definition blockBodyKey :: "hash \<Rightarrow> u64 \<Rightarrow> bytes" where
  "blockBodyKey hash number = bodyPrefix @ encodeBlockNumber number @ hash"

definition tdKey :: "hash \<Rightarrow> u64 \<Rightarrow> bytes" where
  "tdKey hash number = headerPrefix @ encodeBlockNumber number @ hash @ tdSuffix"

definition receiptsKey :: "hash \<Rightarrow> u64 \<Rightarrow> bytes" where
  "receiptsKey hash number = blockReceiptsPrefix @ encodeBlockNumber number @ hash"

definition lookupKey :: "hash \<Rightarrow> bytes" where
  "lookupKey hash = lookupPrefix @ hash"

definition bloomBitsKey :: "u64 \<Rightarrow> u64 \<Rightarrow> hash \<Rightarrow> bytes" where
  "bloomBitsKey bitnum section head = bloomBitsPrefix @ wbytes 2 bitnum @ wbytes 8 section @ head"

section \<open>Readers\<close>

definition get_hash :: "store \<Rightarrow> bytes \<Rightarrow> hash" where
  "get_hash db key = (case db key of None \<Rightarrow> zeroHash | Some data \<Rightarrow> if data = [] then zeroHash else BytesToHash data)"

definition GetCanonicalHash :: "store \<Rightarrow> u64 \<Rightarrow> hash" where
  "GetCanonicalHash db number = get_hash db (canonicalKey number)"

definition missingNumber :: u64 where "missingNumber = 0xffffffffffffffff"

definition GetBlockNumber :: "store \<Rightarrow> hash \<Rightarrow> u64" where
  "GetBlockNumber db hash =
     (case db (numberKey hash) of
        None \<Rightarrow> missingNumber
      | Some data \<Rightarrow> if length data \<noteq> 8 then missingNumber else of_nat (be_nat data))"

definition GetHeadHeaderHash :: "store \<Rightarrow> hash" where "GetHeadHeaderHash db = get_hash db headHeaderKey"
definition GetHeadBlockHash :: "store \<Rightarrow> hash" where "GetHeadBlockHash db = get_hash db headBlockKey"
definition GetHeadFastBlockHash :: "store \<Rightarrow> hash" where "GetHeadFastBlockHash db = get_hash db headFastKey"

definition get_bytes :: "store \<Rightarrow> bytes \<Rightarrow> bytes" where
  "get_bytes db key = (case db key of None \<Rightarrow> [] | Some data \<Rightarrow> data)"

definition GetHeaderRLP :: "store \<Rightarrow> hash \<Rightarrow> u64 \<Rightarrow> bytes" where
  "GetHeaderRLP db hash number = get_bytes db (headerKey hash number)"

text \<open>Data that does not decode counts as absent.  The decoders return on every input, without panic.\<close>

definition decoded :: "('a \<Rightarrow> 'b option) \<Rightarrow> ('e, 'a) res \<Rightarrow> 'b option" where
  "decoded f r = (case r of Ok v \<Rightarrow> f v | _ \<Rightarrow> None)"

definition GetHeader :: "store \<Rightarrow> hash \<Rightarrow> u64 \<Rightarrow> Header option" where
  "GetHeader db hash number =
     (let data = GetHeaderRLP db hash number
      in if data = [] then None else decoded (\<lambda>v. Some (header_of v)) (rlp_Decode Header_type data))"

definition GetBodyRLP :: "store \<Rightarrow> hash \<Rightarrow> u64 \<Rightarrow> bytes" where
  "GetBodyRLP db hash number = get_bytes db (blockBodyKey hash number)"

definition GetBody :: "store \<Rightarrow> hash \<Rightarrow> u64 \<Rightarrow> Body option" where
  "GetBody db hash number =
     (let data = GetBodyRLP db hash number
      in if data = [] then None else decoded (\<lambda>v. Some (body_of v)) (rlp_Decode Body_type data))"

definition GetTd :: "store \<Rightarrow> hash \<Rightarrow> u64 \<Rightarrow> int option" where
  "GetTd db hash number =
     (let data = get_bytes db (tdKey hash number)
      in if data = [] then None else decoded (\<lambda>v. Some (rv_big v)) (rlp_Decode TBig data))"

definition GetBlock :: "store \<Rightarrow> hash \<Rightarrow> u64 \<Rightarrow> Block option" where
  "GetBlock db hash number =
     (case GetHeader db hash number of
        None \<Rightarrow> None
      | Some header \<Rightarrow>
          (case GetBody db hash number of
             None \<Rightarrow> None
           | Some body \<Rightarrow> Some (WithBody (bd_Transactions body) (bd_Proofs body) (NewBlockWithHeader header))))"

definition Receipts_type :: rtype where
  "Receipts_type = TSlice Receipt_type"

definition GetBlockReceipts :: "store \<Rightarrow> hash \<Rightarrow> u64 \<Rightarrow> Receipt list option" where
  "GetBlockReceipts db hash number =
     (let data = get_bytes db (receiptsKey hash number)
      in if data = [] then None else decoded (\<lambda>v. receipts_of (rv_list v)) (rlp_DecodeBytes Receipts_type data))"

record txLookupEntry =
  le_BlockHash :: hash
  le_BlockIndex :: u64
  le_Index :: u64

definition lookup_rval :: "txLookupEntry \<Rightarrow> rval" where
  "lookup_rval e = ListV [BytesV (le_BlockHash e), UintV (le_BlockIndex e), UintV (le_Index e)]"

definition Lookup_type :: rtype where
  "Lookup_type = TStruct [TByteArray HashLength, TUint 64, TUint 64]"

definition lookup_of :: "rval \<Rightarrow> txLookupEntry" where
  "lookup_of v =
     \<lparr>le_BlockHash = rv_bytes (rv_list v ! 0), le_BlockIndex = rv_uint (rv_list v ! 1), le_Index = rv_uint (rv_list v ! 2)\<rparr>"

definition no_lookup :: txLookupEntry where
  "no_lookup = \<lparr>le_BlockHash = zeroHash, le_BlockIndex = 0, le_Index = 0\<rparr>"

definition GetTxLookupEntry :: "store \<Rightarrow> hash \<Rightarrow> txLookupEntry" where
  "GetTxLookupEntry db hash =
     (let data = get_bytes db (lookupKey hash)
      in if data = [] then no_lookup
         else case decoded (\<lambda>v. Some (lookup_of v)) (rlp_DecodeBytes Lookup_type data) of
                None \<Rightarrow> no_lookup
              | Some e \<Rightarrow> e)"

text \<open>
  \<open>nth_u64 xs i\<close>: \<^verbatim>\<open>xs[i]\<close> behind the check \<^verbatim>\<open>len(xs) <= int(i)\<close>; the conversion makes an index of \<open>2^63\<close> or more negative,
  which passes the check and then panics.
\<close>

definition nth_u64 :: "'a list \<Rightarrow> u64 \<Rightarrow> (unit, 'a option) res" where
  "nth_u64 xs i =
     (if int (length xs) \<le> sint i then Ok None
      else if unat i < length xs then Ok (Some (xs ! unat i)) else Panic)"

definition GetTransaction :: "store \<Rightarrow> hash \<Rightarrow> (unit, (Transaction \<times> txLookupEntry) option) res" where
  "GetTransaction db hash =
     (let e = GetTxLookupEntry db hash
      in if le_BlockHash e \<noteq> zeroHash then
           (case GetBody db (le_BlockHash e) (le_BlockIndex e) of
              None \<Rightarrow> Ok None
            | Some body \<Rightarrow> res_map (map_option (\<lambda>tx. (tx, e))) (nth_u64 (bd_Transactions body) (le_Index e)))
         else
           (let data = get_bytes db hash
            in if data = [] then Ok None
               else case decoded (\<lambda>v. Some (tx_of v)) (rlp_DecodeBytes Transaction_type data) of
                      None \<Rightarrow> Ok None
                    | Some tx \<Rightarrow>
                        (let meta = get_bytes db (hash @ oldTxMetaSuffix)
                         in if meta = [] then Ok None
                            else Ok (map_option (\<lambda>e. (tx, e))
                              (decoded (\<lambda>v. Some (lookup_of v)) (rlp_DecodeBytes Lookup_type meta))))))"

definition receipts_or_nil :: "Receipt list option \<Rightarrow> Receipt list" where
  "receipts_or_nil r = (case r of None \<Rightarrow> [] | Some rs \<Rightarrow> rs)"

text \<open>An old receipt that does not decode is logged and returned as it is so far; its model is the empty receipt.\<close>

definition GetReceipt :: "store \<Rightarrow> hash \<Rightarrow> (unit, (Receipt \<times> txLookupEntry) option) res" where
  "GetReceipt db hash =
     (let e = GetTxLookupEntry db hash
      in if le_BlockHash e \<noteq> zeroHash then
           res_map (map_option (\<lambda>r. (r, e)))
             (nth_u64 (receipts_or_nil (GetBlockReceipts db (le_BlockHash e) (le_BlockIndex e))) (le_Index e))
         else
           (let data = get_bytes db (oldReceiptsPrefix @ hash)
            in if data = [] then Ok None
               else Ok (Some (case decoded receipt_of (rlp_DecodeBytes Receipt_type data) of
                                Some r \<Rightarrow> r
                              | None \<Rightarrow> \<lparr>rc_Status = 0, rc_ConfirmCount = 0, rc_TxHash = zeroHash\<rparr>, no_lookup))))"

datatype store_error = EncodeError rlp_error | ReceiptMissing | NoOriginReceipt

definition GetBlockReceiptsByTx :: "store \<Rightarrow> hash \<Rightarrow> (store_error, Receipt list \<times> hash \<times> u64) res" where
  "GetBlockReceiptsByTx db hash =
     (let e = GetTxLookupEntry db hash
      in if le_BlockHash e \<noteq> zeroHash then
           (let receipts = receipts_or_nil (GetBlockReceipts db (le_BlockHash e) (le_BlockIndex e))
            in if int (length receipts) \<le> sint (le_Index e) then Err ReceiptMissing
               else Ok (receipts, le_BlockHash e, le_BlockIndex e))
         else Err NoOriginReceipt)"

definition GetBloomBits :: "store \<Rightarrow> u64 \<Rightarrow> u64 \<Rightarrow> hash \<Rightarrow> bytes" where
  "GetBloomBits db bitnum section head = get_bytes db (bloomBitsKey bitnum section head)"

definition GetBlockChainVersion :: "store \<Rightarrow> u64" where
  "GetBlockChainVersion db = (case rlp_DecodeBytes (TUint 64) (get_bytes db versionKey) of Ok v \<Rightarrow> rv_uint v | _ \<Rightarrow> 0)"

definition GetRandom :: "store \<Rightarrow> bytes" where
  "GetRandom db = get_bytes db randomPrefix"

section \<open>Writers\<close>

text \<open>An encoding that fails returns its error before anything is written.\<close>

definition put_rlp :: "bytes \<Rightarrow> rval \<Rightarrow> store \<Rightarrow> (rlp_error, store) res" where
  "put_rlp key v db = res_map (\<lambda>data. db(key \<mapsto> data)) (EncodeToBytes v)"

definition WriteCanonicalHash :: "hash \<Rightarrow> u64 \<Rightarrow> store \<Rightarrow> store" where
  "WriteCanonicalHash hash number db = db(canonicalKey number \<mapsto> hash)"

definition WriteHeadHeaderHash :: "hash \<Rightarrow> store \<Rightarrow> store" where
  "WriteHeadHeaderHash hash db = db(headHeaderKey \<mapsto> hash)"

definition WriteHeadBlockHash :: "hash \<Rightarrow> store \<Rightarrow> store" where
  "WriteHeadBlockHash hash db = db(headBlockKey \<mapsto> hash)"

definition WriteHeadFastBlockHash :: "hash \<Rightarrow> store \<Rightarrow> store" where
  "WriteHeadFastBlockHash hash db = db(headFastKey \<mapsto> hash)"

definition WriteHeader :: "(bytes \<Rightarrow> bytes) \<Rightarrow> Header \<Rightarrow> store \<Rightarrow> (rlp_error, store) res" where
  "WriteHeader kec header db =
     res_map (\<lambda>data.
         let hash = Header_Hash kec header; num = Uint64 (hd_Number header)
         in db(numberKey hash \<mapsto> encodeBlockNumber num, headerKey hash num \<mapsto> data))
       (EncodeToBytes (header_rval header))"

definition WriteBodyRLP :: "hash \<Rightarrow> u64 \<Rightarrow> bytes \<Rightarrow> store \<Rightarrow> store" where
  "WriteBodyRLP hash number rlp db = db(blockBodyKey hash number \<mapsto> rlp)"

definition WriteBody :: "hash \<Rightarrow> u64 \<Rightarrow> Body \<Rightarrow> store \<Rightarrow> (rlp_error, store) res" where
  "WriteBody hash number body db = res_map (\<lambda>data. WriteBodyRLP hash number data db) (EncodeToBytes (body_rval body))"

definition WriteTd :: "hash \<Rightarrow> u64 \<Rightarrow> int \<Rightarrow> store \<Rightarrow> (rlp_error, store) res" where
  "WriteTd hash number td db = put_rlp (tdKey hash number) (BigV (Some td)) db"

definition WriteBlock :: "(bytes \<Rightarrow> bytes) \<Rightarrow> Block \<Rightarrow> store \<Rightarrow> (rlp_error, store) res" where
  "WriteBlock kec block db =
     res_bind (WriteBody (Block_Hash kec block) (NumberU64 block) (Block_Body block) db) (WriteHeader kec (bl_header block))"

definition WriteBlockReceipts :: "hash \<Rightarrow> u64 \<Rightarrow> Receipt list \<Rightarrow> store \<Rightarrow> (rlp_error, store) res" where
  "WriteBlockReceipts hash number receipts db = put_rlp (receiptsKey hash number) (ListV (map receipt_rval receipts)) db"

fun WriteTxLookup_loop :: "(bytes \<Rightarrow> bytes) \<Rightarrow> hash \<Rightarrow> u64 \<Rightarrow> u64 \<Rightarrow> Transaction list \<Rightarrow> store \<Rightarrow> (rlp_error, store) res" where
  "WriteTxLookup_loop kec hash number i [] db = Ok db"
| "WriteTxLookup_loop kec hash number i (tx # txs) db =
     res_bind (put_rlp (lookupKey (Transaction_Hash kec tx))
         (lookup_rval \<lparr>le_BlockHash = hash, le_BlockIndex = number, le_Index = i\<rparr>) db)
       (WriteTxLookup_loop kec hash number (i + 1) txs)"

definition WriteTxLookupEntries :: "(bytes \<Rightarrow> bytes) \<Rightarrow> Block \<Rightarrow> store \<Rightarrow> (rlp_error, store) res" where
  "WriteTxLookupEntries kec block db =
     WriteTxLookup_loop kec (Block_Hash kec block) (NumberU64 block) 0 (bl_transactions block) db"

text \<open>The key ends in the transaction's hash, where the block's hash belongs.\<close>

definition UpdateTxReceiptWithBlock ::
  "hash \<Rightarrow> hash \<Rightarrow> u64 \<Rightarrow> u64 \<Rightarrow> Receipt \<Rightarrow> store \<Rightarrow> (store_error, store) res" where
  "UpdateTxReceiptWithBlock hash blockHash blockNumber receiptIndex receipt db =
     (if blockHash \<noteq> zeroHash then
        (let receipts = receipts_or_nil (GetBlockReceipts db blockHash blockNumber)
         in if int (length receipts) \<le> sint receiptIndex then Err ReceiptMissing
            else if unat receiptIndex \<ge> length receipts then Panic
            else (case put_rlp (receiptsKey hash blockNumber)
                         (ListV (map receipt_rval (receipts[unat receiptIndex := receipt]))) db of
                    Ok db' \<Rightarrow> Ok db'
                  | Err e \<Rightarrow> Err (EncodeError e)
                  | Panic \<Rightarrow> Panic
                  | Diverge \<Rightarrow> Diverge))
      else Err NoOriginReceipt)"

definition WriteBloomBits :: "u64 \<Rightarrow> u64 \<Rightarrow> hash \<Rightarrow> bytes \<Rightarrow> store \<Rightarrow> store" where
  "WriteBloomBits bitnum section head bits db = db(bloomBitsKey bitnum section head \<mapsto> bits)"

definition WriteBlockChainVersion :: "u64 \<Rightarrow> store \<Rightarrow> store" where
  "WriteBlockChainVersion vsn db = (case EncodeToBytes (UintV vsn) of Ok enc \<Rightarrow> db(versionKey \<mapsto> enc) | _ \<Rightarrow> db(versionKey \<mapsto> []))"

definition WriteRandom :: "bytes \<Rightarrow> store \<Rightarrow> store" where
  "WriteRandom rand db = db(randomPrefix \<mapsto> rand)"

text \<open>The preimages that are not there yet are put in a batch; the map is visited in the given order.\<close>

definition WritePreimages :: "(hash \<times> bytes) list \<Rightarrow> store \<Rightarrow> store" where
  "WritePreimages preimages db =
     fold (\<lambda>(h, p) batch. if db (preimagePrefix @ h) = None then batch(preimagePrefix @ h \<mapsto> p) else batch) preimages db"

section \<open>Removers\<close>

definition DeleteCanonicalHash :: "u64 \<Rightarrow> store \<Rightarrow> store" where
  "DeleteCanonicalHash number db = db(canonicalKey number := None)"

definition DeleteHeader :: "hash \<Rightarrow> u64 \<Rightarrow> store \<Rightarrow> store" where
  "DeleteHeader hash number db = db(numberKey hash := None, headerKey hash number := None)"

definition DeleteBody :: "hash \<Rightarrow> u64 \<Rightarrow> store \<Rightarrow> store" where
  "DeleteBody hash number db = db(blockBodyKey hash number := None)"

definition DeleteTd :: "hash \<Rightarrow> u64 \<Rightarrow> store \<Rightarrow> store" where
  "DeleteTd hash number db = db(tdKey hash number := None)"

definition DeleteBlockReceipts :: "hash \<Rightarrow> u64 \<Rightarrow> store \<Rightarrow> store" where
  "DeleteBlockReceipts hash number db = db(receiptsKey hash number := None)"

definition DeleteBlock :: "hash \<Rightarrow> u64 \<Rightarrow> store \<Rightarrow> store" where
  "DeleteBlock hash number db =
     DeleteTd hash number (DeleteBody hash number (DeleteHeader hash number (DeleteBlockReceipts hash number db)))"

definition DeleteTxLookupEntry :: "hash \<Rightarrow> store \<Rightarrow> store" where
  "DeleteTxLookupEntry hash db = db(lookupKey hash := None)"

section \<open>The items do not interfere\<close>

lemma length_encodeBlockNumber [simp]: "length (encodeBlockNumber n) = 8"
  by (simp add: encodeBlockNumber_def del: wbytes_numeral)

lemma encodeBlockNumber_value: "be_nat (encodeBlockNumber n) = unat n"
  using unsigned_less [of n, where ?'a = nat] by (simp add: encodeBlockNumber_def be_nat_wbytes del: wbytes_numeral)

lemma encodeBlockNumber_inj [simp]: "encodeBlockNumber m = encodeBlockNumber n \<longleftrightarrow> m = n"
  by (metis encodeBlockNumber_value word_unat_eq_iff)

lemma prefix_chars [simp]:
  "headerPrefix = [0x68]" "tdSuffix = [0x74]" "numSuffix = [0x6e]" "blockHashPrefix = [0x48]" "bodyPrefix = [0x62]"
  "blockReceiptsPrefix = [0x72]" "lookupPrefix = [0x6c]" "bloomBitsPrefix = [0x42]"
  "headHeaderKey = [0x4c, 0x61, 0x73, 0x74, 0x48, 0x65, 0x61, 0x64, 0x65, 0x72]"
  "headBlockKey = [0x4c, 0x61, 0x73, 0x74, 0x42, 0x6c, 0x6f, 0x63, 0x6b]"
  "headFastKey = [0x4c, 0x61, 0x73, 0x74, 0x46, 0x61, 0x73, 0x74]"
  by (simp_all add: ascii_def headerPrefix_def tdSuffix_def numSuffix_def blockHashPrefix_def bodyPrefix_def blockReceiptsPrefix_def
      lookupPrefix_def bloomBitsPrefix_def headHeaderKey_def headBlockKey_def headFastKey_def of_char_def)

lemmas key_defs = canonicalKey_def numberKey_def headerKey_def blockBodyKey_def tdKey_def receiptsKey_def lookupKey_def

lemma key_inj [simp]:
  "canonicalKey m = canonicalKey n \<longleftrightarrow> m = n"
  "numberKey h = numberKey h' \<longleftrightarrow> h = h'"
  "headerKey h n = headerKey h' n' \<longleftrightarrow> h = h' \<and> n = n'"
  "blockBodyKey h n = blockBodyKey h' n' \<longleftrightarrow> h = h' \<and> n = n'"
  "tdKey h n = tdKey h' n' \<longleftrightarrow> h = h' \<and> n = n'"
  "receiptsKey h n = receiptsKey h' n' \<longleftrightarrow> h = h' \<and> n = n'"
  "lookupKey h = lookupKey h' \<longleftrightarrow> h = h'"
  by (auto simp: key_defs append_eq_append_conv)

text \<open>The keys of two kinds of item differ in their first byte or in their length.\<close>

fun key_kind :: "bytes \<Rightarrow> byte \<times> nat" where
  "key_kind [] = (0, 0)"
| "key_kind (b # bs) = (b, length bs)"

lemma key_kinds:
  "key_kind (canonicalKey n) = (0x68, 9)"
  "key_kind (numberKey h) = (0x48, length h)"
  "key_kind (headerKey h n) = (0x68, 8 + length h)"
  "key_kind (blockBodyKey h n) = (0x62, 8 + length h)"
  "key_kind (tdKey h n) = (0x68, 9 + length h)"
  "key_kind (receiptsKey h n) = (0x72, 8 + length h)"
  "key_kind (lookupKey h) = (0x6c, length h)"
  "key_kind headHeaderKey = (0x4c, 9)" "key_kind headBlockKey = (0x4c, 8)" "key_kind headFastKey = (0x4c, 7)"
  by (simp_all add: key_defs)

lemma key_neq: "key_kind k \<noteq> key_kind k' \<Longrightarrow> (k = k') = False"
  by auto

section \<open>The store as independent items\<close>

text \<open>
  The specification of the store: one map per kind of item, over hashes of the right length.  Its operations change one
  map and nothing else.
\<close>

record chain_view =
  v_canonical :: "u64 \<Rightarrow> hash"
  v_number :: "hash \<Rightarrow> u64"
  v_header :: "hash \<Rightarrow> u64 \<Rightarrow> Header option"
  v_body :: "hash \<Rightarrow> u64 \<Rightarrow> Body option"
  v_td :: "hash \<Rightarrow> u64 \<Rightarrow> int option"
  v_receipts :: "hash \<Rightarrow> u64 \<Rightarrow> Receipt list option"
  v_lookup :: "hash \<Rightarrow> txLookupEntry"
  v_headHeader :: hash
  v_headBlock :: hash
  v_headFast :: hash

definition hashes :: "hash set" where
  "hashes = {h. length h = HashLength}"

definition chain_view :: "store \<Rightarrow> chain_view" where
  "chain_view db =
     \<lparr>v_canonical = GetCanonicalHash db,
      v_number = (\<lambda>h. if h \<in> hashes then GetBlockNumber db h else missingNumber),
      v_header = (\<lambda>h n. if h \<in> hashes then GetHeader db h n else None),
      v_body = (\<lambda>h n. if h \<in> hashes then GetBody db h n else None),
      v_td = (\<lambda>h n. if h \<in> hashes then GetTd db h n else None),
      v_receipts = (\<lambda>h n. if h \<in> hashes then GetBlockReceipts db h n else None),
      v_lookup = (\<lambda>h. if h \<in> hashes then GetTxLookupEntry db h else no_lookup),
      v_headHeader = GetHeadHeaderHash db, v_headBlock = GetHeadBlockHash db, v_headFast = GetHeadFastBlockHash db\<rparr>"

datatype chain_op =
    CanonicalW hash u64 | HeadHeaderW hash | HeadBlockW hash | HeadFastW hash
  | HeaderW Header | BodyW hash u64 Body | TdW hash u64 int | BlockW Block | ReceiptsW hash u64 "Receipt list" | LookupW Block
  | CanonicalD u64 | HeaderD hash u64 | BodyD hash u64 | TdD hash u64 | ReceiptsD hash u64 | BlockD hash u64 | LookupD hash

fun chain_step :: "(bytes \<Rightarrow> bytes) \<Rightarrow> chain_op \<Rightarrow> store \<Rightarrow> (rlp_error, store) res" where
  "chain_step kec (CanonicalW h n) db = Ok (WriteCanonicalHash h n db)"
| "chain_step kec (HeadHeaderW h) db = Ok (WriteHeadHeaderHash h db)"
| "chain_step kec (HeadBlockW h) db = Ok (WriteHeadBlockHash h db)"
| "chain_step kec (HeadFastW h) db = Ok (WriteHeadFastBlockHash h db)"
| "chain_step kec (HeaderW header) db = WriteHeader kec header db"
| "chain_step kec (BodyW h n b) db = WriteBody h n b db"
| "chain_step kec (TdW h n td) db = WriteTd h n td db"
| "chain_step kec (BlockW b) db = WriteBlock kec b db"
| "chain_step kec (ReceiptsW h n rs) db = WriteBlockReceipts h n rs db"
| "chain_step kec (LookupW b) db = WriteTxLookupEntries kec b db"
| "chain_step kec (CanonicalD n) db = Ok (DeleteCanonicalHash n db)"
| "chain_step kec (HeaderD h n) db = Ok (DeleteHeader h n db)"
| "chain_step kec (BodyD h n) db = Ok (DeleteBody h n db)"
| "chain_step kec (TdD h n) db = Ok (DeleteTd h n db)"
| "chain_step kec (ReceiptsD h n) db = Ok (DeleteBlockReceipts h n db)"
| "chain_step kec (BlockD h n) db = Ok (DeleteBlock h n db)"
| "chain_step kec (LookupD h) db = Ok (DeleteTxLookupEntry h db)"

definition upd2 :: "(hash \<Rightarrow> u64 \<Rightarrow> 'a) \<Rightarrow> hash \<Rightarrow> u64 \<Rightarrow> 'a \<Rightarrow> hash \<Rightarrow> u64 \<Rightarrow> 'a" where
  "upd2 f h n x = f(h := (f h)(n := x))"

definition view_header :: "(bytes \<Rightarrow> bytes) \<Rightarrow> Header \<Rightarrow> chain_view \<Rightarrow> chain_view" where
  "view_header kec header w =
     (let h = Header_Hash kec header; n = Uint64 (hd_Number header)
      in w\<lparr>v_number := (v_number w)(h := n), v_header := upd2 (v_header w) h n (Some header)\<rparr>)"

fun view_lookup :: "(bytes \<Rightarrow> bytes) \<Rightarrow> hash \<Rightarrow> u64 \<Rightarrow> u64 \<Rightarrow> Transaction list \<Rightarrow> chain_view \<Rightarrow> chain_view" where
  "view_lookup kec h n i [] w = w"
| "view_lookup kec h n i (tx # txs) w =
     view_lookup kec h n (i + 1) txs
       (w\<lparr>v_lookup := (v_lookup w)(Transaction_Hash kec tx := \<lparr>le_BlockHash = h, le_BlockIndex = n, le_Index = i\<rparr>)\<rparr>)"

fun view_step :: "(bytes \<Rightarrow> bytes) \<Rightarrow> chain_op \<Rightarrow> chain_view \<Rightarrow> chain_view" where
  "view_step kec (CanonicalW h n) w = w\<lparr>v_canonical := (v_canonical w)(n := h)\<rparr>"
| "view_step kec (HeadHeaderW h) w = w\<lparr>v_headHeader := h\<rparr>"
| "view_step kec (HeadBlockW h) w = w\<lparr>v_headBlock := h\<rparr>"
| "view_step kec (HeadFastW h) w = w\<lparr>v_headFast := h\<rparr>"
| "view_step kec (HeaderW header) w = view_header kec header w"
| "view_step kec (BodyW h n b) w = w\<lparr>v_body := upd2 (v_body w) h n (Some b)\<rparr>"
| "view_step kec (TdW h n td) w = w\<lparr>v_td := upd2 (v_td w) h n (Some td)\<rparr>"
| "view_step kec (BlockW b) w =
     view_header kec (bl_header b) (w\<lparr>v_body := upd2 (v_body w) (Block_Hash kec b) (NumberU64 b) (Some (Block_Body b))\<rparr>)"
| "view_step kec (ReceiptsW h n rs) w = w\<lparr>v_receipts := upd2 (v_receipts w) h n (Some rs)\<rparr>"
| "view_step kec (LookupW b) w = view_lookup kec (Block_Hash kec b) (NumberU64 b) 0 (bl_transactions b) w"
| "view_step kec (CanonicalD n) w = w\<lparr>v_canonical := (v_canonical w)(n := zeroHash)\<rparr>"
| "view_step kec (HeaderD h n) w = w\<lparr>v_number := (v_number w)(h := missingNumber), v_header := upd2 (v_header w) h n None\<rparr>"
| "view_step kec (BodyD h n) w = w\<lparr>v_body := upd2 (v_body w) h n None\<rparr>"
| "view_step kec (TdD h n) w = w\<lparr>v_td := upd2 (v_td w) h n None\<rparr>"
| "view_step kec (ReceiptsD h n) w = w\<lparr>v_receipts := upd2 (v_receipts w) h n None\<rparr>"
| "view_step kec (BlockD h n) w =
     w\<lparr>v_number := (v_number w)(h := missingNumber), v_header := upd2 (v_header w) h n None, v_body := upd2 (v_body w) h n None,
       v_td := upd2 (v_td w) h n None, v_receipts := upd2 (v_receipts w) h n None\<rparr>"
| "view_step kec (LookupD h) w = w\<lparr>v_lookup := (v_lookup w)(h := no_lookup)\<rparr>"

text \<open>Arguments as Go's types have them.\<close>

definition td_ok :: "int \<Rightarrow> bool" where
  "td_ok td \<longleftrightarrow> encodable TBig (BigV (Some td))"

definition receipts_ok :: "Receipt list \<Rightarrow> bool" where
  "receipts_ok rs \<longleftrightarrow> list_all receipt_ok rs \<and> encodable Receipts_type (ListV (map receipt_rval rs))"

fun op_ok :: "chain_op \<Rightarrow> bool" where
  "op_ok (CanonicalW h n) \<longleftrightarrow> h \<in> hashes"
| "op_ok (HeadHeaderW h) \<longleftrightarrow> h \<in> hashes"
| "op_ok (HeadBlockW h) \<longleftrightarrow> h \<in> hashes"
| "op_ok (HeadFastW h) \<longleftrightarrow> h \<in> hashes"
| "op_ok (HeaderW header) \<longleftrightarrow> header_ok header"
| "op_ok (BodyW h n b) \<longleftrightarrow> h \<in> hashes \<and> body_ok b"
| "op_ok (TdW h n td) \<longleftrightarrow> h \<in> hashes \<and> td_ok td"
| "op_ok (BlockW b) \<longleftrightarrow> header_ok (bl_header b) \<and> body_ok (Block_Body b)"
| "op_ok (ReceiptsW h n rs) \<longleftrightarrow> h \<in> hashes \<and> receipts_ok rs"
| "op_ok (LookupW b) \<longleftrightarrow> True"
| "op_ok (CanonicalD n) \<longleftrightarrow> True"
| "op_ok (HeaderD h n) \<longleftrightarrow> h \<in> hashes"
| "op_ok (BodyD h n) \<longleftrightarrow> h \<in> hashes"
| "op_ok (TdD h n) \<longleftrightarrow> h \<in> hashes"
| "op_ok (ReceiptsD h n) \<longleftrightarrow> h \<in> hashes"
| "op_ok (BlockD h n) \<longleftrightarrow> h \<in> hashes"
| "op_ok (LookupD h) \<longleftrightarrow> h \<in> hashes"

lemma BytesToHash_hash: "h \<in> hashes \<Longrightarrow> BytesToHash h = h"
  by (simp add: hashes_def BytesToHash_def set_bytes_def)

lemmas reader_defs = GetCanonicalHash_def GetBlockNumber_def GetHeader_def GetHeaderRLP_def GetBody_def GetBodyRLP_def GetTd_def
  GetBlockReceipts_def GetTxLookupEntry_def GetHeadHeaderHash_def GetHeadBlockHash_def GetHeadFastBlockHash_def get_hash_def get_bytes_def

text \<open>One write, read back item by item.\<close>

lemmas view_simps = chain_view_def reader_defs fun_eq_iff key_neq key_kinds hashes_def HashLength_def upd2_def Let_def

lemma view_canonical:
  "h \<in> hashes \<Longrightarrow> chain_view (db(canonicalKey n \<mapsto> h)) = (chain_view db)\<lparr>v_canonical := (v_canonical (chain_view db))(n := h)\<rparr>"
  "chain_view (db(canonicalKey n := None)) = (chain_view db)\<lparr>v_canonical := (v_canonical (chain_view db))(n := zeroHash)\<rparr>"
  by (auto simp: view_simps BytesToHash_def set_bytes_def)

lemma view_heads:
  "h \<in> hashes \<Longrightarrow> chain_view (db(headHeaderKey \<mapsto> h)) = (chain_view db)\<lparr>v_headHeader := h\<rparr>"
  "h \<in> hashes \<Longrightarrow> chain_view (db(headBlockKey \<mapsto> h)) = (chain_view db)\<lparr>v_headBlock := h\<rparr>"
  "h \<in> hashes \<Longrightarrow> chain_view (db(headFastKey \<mapsto> h)) = (chain_view db)\<lparr>v_headFast := h\<rparr>"
  by (auto simp: view_simps BytesToHash_def set_bytes_def simp del: prefix_chars)

lemma view_number:
  "h \<in> hashes \<Longrightarrow> chain_view (db(numberKey h \<mapsto> encodeBlockNumber n)) = (chain_view db)\<lparr>v_number := (v_number (chain_view db))(h := n)\<rparr>"
  "h \<in> hashes \<Longrightarrow> chain_view (db(numberKey h := None)) = (chain_view db)\<lparr>v_number := (v_number (chain_view db))(h := missingNumber)\<rparr>"
  by (auto simp: view_simps encodeBlockNumber_value simp del: prefix_chars)

lemma view_header_item:
  "h \<in> hashes \<Longrightarrow> header_ok x \<Longrightarrow> chain_view (db(headerKey h n \<mapsto> enc_rval (header_rval x)))
     = (chain_view db)\<lparr>v_header := upd2 (v_header (chain_view db)) h n (Some x)\<rparr>"
  "h \<in> hashes \<Longrightarrow> chain_view (db(headerKey h n := None)) = (chain_view db)\<lparr>v_header := upd2 (v_header (chain_view db)) h n None\<rparr>"
  by (auto simp: view_simps decoded_def header_ok_def encodable_roundtrip simp del: prefix_chars)

lemma view_body_item:
  "h \<in> hashes \<Longrightarrow> body_ok x \<Longrightarrow> chain_view (db(blockBodyKey h n \<mapsto> enc_rval (body_rval x)))
     = (chain_view db)\<lparr>v_body := upd2 (v_body (chain_view db)) h n (Some x)\<rparr>"
  "h \<in> hashes \<Longrightarrow> chain_view (db(blockBodyKey h n := None)) = (chain_view db)\<lparr>v_body := upd2 (v_body (chain_view db)) h n None\<rparr>"
  by (auto simp: view_simps decoded_def body_ok_def encodable_roundtrip simp del: prefix_chars)

lemma view_td_item:
  "h \<in> hashes \<Longrightarrow> td_ok x \<Longrightarrow> chain_view (db(tdKey h n \<mapsto> enc_rval (BigV (Some x))))
     = (chain_view db)\<lparr>v_td := upd2 (v_td (chain_view db)) h n (Some x)\<rparr>"
  "h \<in> hashes \<Longrightarrow> chain_view (db(tdKey h n := None)) = (chain_view db)\<lparr>v_td := upd2 (v_td (chain_view db)) h n None\<rparr>"
  by (auto simp: view_simps decoded_def td_ok_def encodable_roundtrip simp del: prefix_chars enc_rval.simps)

lemma view_receipts_item:
  "h \<in> hashes \<Longrightarrow> receipts_ok x \<Longrightarrow> chain_view (db(receiptsKey h n \<mapsto> enc_rval (ListV (map receipt_rval x))))
     = (chain_view db)\<lparr>v_receipts := upd2 (v_receipts (chain_view db)) h n (Some x)\<rparr>"
  "h \<in> hashes \<Longrightarrow> chain_view (db(receiptsKey h n := None)) = (chain_view db)\<lparr>v_receipts := upd2 (v_receipts (chain_view db)) h n None\<rparr>"
  by (auto simp: view_simps decoded_def receipts_ok_def receipts_of_rval encodable_roundtrip simp del: prefix_chars enc_rval.simps)

lemma length_rlp_small:
  "length b < 56 \<Longrightarrow> length (rlp_str b) \<le> length b + 1" "length b < 56 \<Longrightarrow> length (rlp_list b) = length b + 1"
  by (auto simp: rlp_str_def rlp_list_def rlp_head_def)

lemma length_big_bytes_u64: "length (big_bytes (unat (i :: u64))) \<le> 8"
  using unsigned_less [of i, where ?'a = nat] by (intro length_big_bytes_le) simp

lemma lookup_encodable:
  assumes "le_BlockHash e \<in> hashes"
  shows "encodable Lookup_type (lookup_rval e)"
proof -
  have u: "length (rlp_str (big_bytes (unat (i :: u64)))) \<le> 9" for i
    using length_rlp_small(1) [of "big_bytes (unat i)"] length_big_bytes_u64 [of i] by simp
  have "length (rlp_str (le_BlockHash e)) \<le> 33" using length_rlp_small(1) [of "le_BlockHash e"] assms
    by (simp add: hashes_def HashLength_def)
  with u [of "le_BlockIndex e"] u [of "le_Index e"]
  have l: "length (rlp_str (le_BlockHash e) @ rlp_str (big_bytes (unat (le_BlockIndex e))) @ rlp_str (big_bytes (unat (le_Index e)))) < 56"
    by simp
  show ?thesis
    using assms length_rlp_small(2) [OF l] l unsigned_less [of "le_BlockIndex e", where ?'a = nat] unsigned_less [of "le_Index e", where ?'a = nat]
    by (simp add: encodable_def Lookup_type_def lookup_rval_def hashes_def HashLength_def wf_bits_def)
qed

lemma lookup_of_rval [simp]: "lookup_of (lookup_rval e) = e"
  by (simp add: lookup_of_def lookup_rval_def)

lemma view_lookup_item:
  "h \<in> hashes \<Longrightarrow> le_BlockHash e \<in> hashes \<Longrightarrow> chain_view (db(lookupKey h \<mapsto> enc_rval (lookup_rval e)))
     = (chain_view db)\<lparr>v_lookup := (v_lookup (chain_view db))(h := e)\<rparr>"
  "h \<in> hashes \<Longrightarrow> chain_view (db(lookupKey h := None)) = (chain_view db)\<lparr>v_lookup := (v_lookup (chain_view db))(h := no_lookup)\<rparr>"
  using encodable_roundtrip(3,4) [OF lookup_encodable, of e]
  by (auto simp: view_simps decoded_def simp del: prefix_chars)

lemmas view_items = view_canonical view_heads view_number view_header_item view_body_item view_td_item view_receipts_item view_lookup_item

lemma Header_Hash_hashes: "(\<And>x. length (kec x) = 32) \<Longrightarrow> Header_Hash kec header \<in> hashes"
  and Transaction_Hash_hashes: "(\<And>x. length (kec x) = 32) \<Longrightarrow> Transaction_Hash kec tx \<in> hashes"
  by (simp_all add: Header_Hash_def Transaction_Hash_def rlpHash_def hashes_def HashLength_def)

lemma WriteHeader_view:
  assumes kl: "\<And>x. length (kec x) = 32" and "header_ok header"
  shows "\<exists>db'. WriteHeader kec header db = Ok db' \<and> chain_view db' = view_header kec header (chain_view db)"
proof -
  have "EncodeToBytes (header_rval header) = Ok (enc_rval (header_rval header))"
    using encodable_roundtrip(1) assms(2) unfolding header_ok_def .
  with assms(2) Header_Hash_hashes [of kec header, OF kl] show ?thesis
    by (simp add: WriteHeader_def view_header_def Let_def view_items)
qed

lemma WriteBody_view:
  assumes "h \<in> hashes" "body_ok body"
  shows "\<exists>db'. WriteBody h n body db = Ok db' \<and> chain_view db' = (chain_view db)\<lparr>v_body := upd2 (v_body (chain_view db)) h n (Some body)\<rparr>"
proof -
  have "EncodeToBytes (body_rval body) = Ok (enc_rval (body_rval body))"
    using encodable_roundtrip(1) assms(2) unfolding body_ok_def .
  with assms show ?thesis by (simp add: WriteBody_def WriteBodyRLP_def view_items)
qed

lemma WriteTd_view:
  assumes "h \<in> hashes" "td_ok td"
  shows "\<exists>db'. WriteTd h n td db = Ok db' \<and> chain_view db' = (chain_view db)\<lparr>v_td := upd2 (v_td (chain_view db)) h n (Some td)\<rparr>"
  using assms encodable_roundtrip(1) [of TBig "BigV (Some td)"] view_td_item(1) [OF assms]
  by (simp add: WriteTd_def put_rlp_def td_ok_def)

lemma WriteTxLookup_view:
  assumes kl: "\<And>x. length (kec x) = 32" and "h \<in> hashes"
  shows "\<exists>db'. WriteTxLookup_loop kec h n i txs db = Ok db' \<and> chain_view db' = view_lookup kec h n i txs (chain_view db)"
proof (induction txs arbitrary: i db)
  case (Cons tx txs)
  let ?e = "\<lparr>le_BlockHash = h, le_BlockIndex = n, le_Index = i\<rparr>"
  have e: "EncodeToBytes (lookup_rval ?e) = Ok (enc_rval (lookup_rval ?e))"
    using encodable_roundtrip(1) lookup_encodable [of ?e] assms(2) by simp
  define db1 where "db1 = db(lookupKey (Transaction_Hash kec tx) \<mapsto> enc_rval (lookup_rval ?e))"
  have "WriteTxLookup_loop kec h n i (tx # txs) db = WriteTxLookup_loop kec h n (i + 1) txs db1"
    by (simp add: put_rlp_def e db1_def)
  moreover have "chain_view db1 = (chain_view db)\<lparr>v_lookup := (v_lookup (chain_view db))(Transaction_Hash kec tx := ?e)\<rparr>"
    unfolding db1_def by (rule view_lookup_item(1) [OF Transaction_Hash_hashes [of kec tx, OF kl]]) (simp add: assms(2))
  ultimately show ?case using Cons.IH [of "i + 1" db1] by simp
qed simp

lemma chain_step_view:
  assumes kl: "\<And>x. length (kec x) = 32" and ok: "op_ok op"
  shows "\<exists>db'. chain_step kec op db = Ok db' \<and> chain_view db' = view_step kec op (chain_view db)"
proof (cases op)
  case (HeaderW header)
  with WriteHeader_view [of kec, OF kl] ok show ?thesis by simp
next
  case (BodyW h n b)
  with WriteBody_view ok show ?thesis by simp
next
  case (TdW h n td)
  with WriteTd_view ok show ?thesis by simp
next
  case (BlockW b)
  with ok have b: "header_ok (bl_header b)" "body_ok (Block_Body b)" by simp_all
  have "Block_Hash kec b \<in> hashes" using Header_Hash_hashes [of kec, OF kl] by (simp add: Block_Hash_def)
  from WriteBody_view [OF this b(2), of "NumberU64 b" db] obtain db1 where
    "WriteBody (Block_Hash kec b) (NumberU64 b) (Block_Body b) db = Ok db1"
    "chain_view db1 = (chain_view db)\<lparr>v_body := upd2 (v_body (chain_view db)) (Block_Hash kec b) (NumberU64 b) (Some (Block_Body b))\<rparr>" by blast
  with WriteHeader_view [of kec, OF kl b(1), of db1] BlockW show ?thesis by (simp add: WriteBlock_def)
next
  case (ReceiptsW h n rs)
  with ok encodable_roundtrip(1) [of Receipts_type "ListV (map receipt_rval rs)"] view_receipts_item(1) [of h rs db n] show ?thesis
    by (simp add: WriteBlockReceipts_def put_rlp_def receipts_ok_def)
next
  case (LookupW b)
  have "Block_Hash kec b \<in> hashes" using Header_Hash_hashes [of kec, OF kl] by (simp add: Block_Hash_def)
  with LookupW WriteTxLookup_view [of kec, OF kl] show ?thesis by (simp add: WriteTxLookupEntries_def)
qed (use ok in \<open>simp_all add: WriteCanonicalHash_def WriteHeadHeaderHash_def WriteHeadBlockHash_def WriteHeadFastBlockHash_def
    DeleteCanonicalHash_def DeleteHeader_def DeleteBody_def DeleteTd_def DeleteBlockReceipts_def DeleteBlock_def
    DeleteTxLookupEntry_def view_items del: prefix_chars\<close>)

fun chain_steps :: "(bytes \<Rightarrow> bytes) \<Rightarrow> chain_op list \<Rightarrow> store \<Rightarrow> (rlp_error, store) res" where
  "chain_steps kec [] db = Ok db"
| "chain_steps kec (op # ops) db = res_bind (chain_step kec op db) (chain_steps kec ops)"

text \<open>
  C19: The items of the chain are stored independently.  After any sequence of writes and removals, from any store, every
  reader (canonical hashes, numbers, headers, bodies, difficulties, receipts, transaction lookups and the three heads)
  returns what a store with one separate map per kind of item returns: no key of one item is a key of another, and every
  item decodes to what was written.
\<close>

theorem store_items_independent:
  assumes "\<And>x. length (kec x) = 32" and "list_all op_ok ops"
  shows "\<exists>db'. chain_steps kec ops db = Ok db' \<and> chain_view db' = fold (view_step kec) ops (chain_view db)"
  using assms(2)
proof (induction ops arbitrary: db)
  case (Cons op ops)
  then have "op_ok op" by simp
  from chain_step_view [of kec, OF assms(1) this, of db] obtain db1
    where "chain_step kec op db = Ok db1" "chain_view db1 = view_step kec op (chain_view db)" by blast
  with Cons.IH [of db1] Cons.prems show ?case by simp
qed simp

theorem store_items_independent_witness:
  "\<exists>db'. chain_steps (\<lambda>x. take 32 (x @ replicate 32 0)) [CanonicalW (replicate 32 5) 1, TdW (replicate 32 5) 1 7, HeadBlockW (replicate 32 5)] Map.empty = Ok db'
    \<and> GetCanonicalHash db' 1 = replicate 32 5 \<and> GetTd db' (replicate 32 5) 1 = Some 7 \<and> GetHeader db' (replicate 32 5) 1 = None
    \<and> GetHeadBlockHash db' = replicate 32 5"
proof -
  let ?h = "replicate 32 5 :: hash" and ?k = "\<lambda>x. take 32 (x @ replicate 32 0) :: bytes"
  let ?ops = "[CanonicalW ?h 1, TdW ?h 1 7, HeadBlockW ?h]"
  have h: "?h \<in> hashes" by (simp add: hashes_def HashLength_def)
  have "list_all op_ok ?ops"
    using h by (simp add: td_ok_def encodable_def rlp_str_def big_bytes.simps)
  moreover have "length (?k x) = 32" for x by simp
  ultimately obtain db' where
    d: "chain_steps ?k ?ops Map.empty = Ok db'" "chain_view db' = fold (view_step ?k) ?ops (chain_view Map.empty)"
    using store_items_independent [of ?k ?ops Map.empty] by blast
  from arg_cong [OF d(2), of v_canonical] arg_cong [OF d(2), of v_td] arg_cong [OF d(2), of v_header] arg_cong [OF d(2), of v_headBlock] h
  have "GetCanonicalHash db' 1 = ?h" "GetTd db' ?h 1 = Some 7" "GetHeader db' ?h 1 = None" "GetHeadBlockHash db' = ?h"
    by (auto simp: chain_view_def upd2_def fun_eq_iff GetHeader_def GetHeaderRLP_def get_bytes_def Let_def split: if_splits)
  with d(1) show ?thesis by blast
qed

section \<open>Sample headers\<close>

text \<open>For evaluation: a hash that returns the last 32 bytes of its input, and headers whose extra data is their hash.\<close>

definition tail_hash :: "bytes \<Rightarrow> bytes" where
  "tail_hash x = drop (length x) (replicate 32 0 @ x)"

definition sample_header :: "int \<Rightarrow> hash \<Rightarrow> int \<Rightarrow> hash \<Rightarrow> Header" where
  "sample_header d parent n h =
     \<lparr>hd_ParentHash = parent, hd_Coinbase = replicate 20 0, hd_ProofHash = zeroHash, hd_Root = zeroHash, hd_TxHash = zeroHash,
      hd_ReceiptHash = zeroHash, hd_ProofRoot = zeroHash, hd_Difficulty = d, hd_Number = n, hd_Time = 7, hd_Extra = h\<rparr>"

lemma length_tail_hash: "length (tail_hash x) = 32"
  by (simp add: tail_hash_def)

lemma length_rlp_str_le: "length b < 2 ^ 64 \<Longrightarrow> length (rlp_str b) \<le> length b + 9"
  "length b < 2 ^ 64 \<Longrightarrow> length (rlp_list b) \<le> length b + 9"
  using length_big_bytes_le [of "length b" 8] by (auto simp: rlp_str_def rlp_list_def rlp_head_def)

lemma sample_header_ok:
  assumes "length parent = 32" "length h = 32" "0 \<le> n" "n < 256" "0 \<le> d" "d < 256"
  shows "header_ok (sample_header d parent n h)"
proof -
  have l: "length (big_bytes (nat n)) \<le> 1" "length (big_bytes (nat d)) \<le> 1" using assms by (intro length_big_bytes_le; auto)+
  let ?s = "\<lambda>b. length (rlp_str b)"
  have s: "?s parent \<le> 33" "?s h \<le> 33" "?s zeroHash \<le> 33" "?s (replicate 20 0) \<le> 21" "?s (big_bytes (nat n)) \<le> 2" "?s (big_bytes (nat d)) \<le> 2" "?s [7] \<le> 2"
    using length_rlp_small(1) [of parent] length_rlp_small(1) [of h] length_rlp_small(1) [of zeroHash] length_rlp_small(1) [of "replicate 20 0"]
      length_rlp_small(1) [of "big_bytes (nat n)"] length_rlp_small(1) [of "big_bytes (nat d)"] length_rlp_small(1) [of "[7]"] assms l by (simp_all add: zeroHash_def HashLength_def)
  define body where "body = rlp_str parent @ rlp_str (replicate 20 0) @ rlp_str zeroHash @ rlp_str zeroHash @ rlp_str zeroHash @ rlp_str zeroHash
     @ rlp_str zeroHash @ rlp_str (big_bytes (nat d)) @ rlp_str (big_bytes (nat n)) @ rlp_str [7] @ rlp_str h"
  have b: "length body \<le> 400" unfolding body_def length_append using s by linarith
  have "enc_rval (header_rval (sample_header d parent n h)) = rlp_list body"
    by (simp add: header_rval_def sample_header_def body_def big_bytes.simps)
  moreover have "length (rlp_list body) \<le> length body + 9" by (rule length_rlp_str_le) (use b in simp)
  ultimately show ?thesis
    using assms b by (simp add: header_ok_def encodable_def Header_type_def) (simp add: header_rval_def sample_header_def HashLength_def AddressLength_def zeroHash_def)
qed

lemma sample_header_hash:
  assumes "length parent = 32" "length h = 32" "0 \<le> n" "n < 256" "0 \<le> d" "d < 256"
  shows "Header_Hash tail_hash (sample_header d parent n h) = h"
proof -
  have "Header_Hash tail_hash (sample_header d parent n h) = tail_hash (enc_rval (header_rval (sample_header d parent n h)))"
    using encodable_roundtrip(5) sample_header_ok [OF assms] by (simp add: Header_Hash_def header_ok_def)
  moreover have "\<exists>a. enc_rval (header_rval (sample_header d parent n h)) = a @ h"
    using assms(2) by (simp add: header_rval_def sample_header_def rlp_list_def rlp_str_def)
  ultimately show ?thesis using assms(2) by (auto simp: tail_hash_def)
qed
section \<open>Looking up transactions and receipts\<close>

lemma view_lookup_other:
  "h \<notin> Transaction_Hash kec ` set txs \<Longrightarrow> v_lookup (view_lookup kec b n i txs w) h = v_lookup w h"
  by (induction txs arbitrary: i w) auto

lemma view_lookup_same:
  "distinct (map (Transaction_Hash kec) txs) \<Longrightarrow> j < length txs
    \<Longrightarrow> v_lookup (view_lookup kec b n i txs w) (Transaction_Hash kec (txs ! j))
      = \<lparr>le_BlockHash = b, le_BlockIndex = n, le_Index = i + of_nat j\<rparr>"
proof (induction txs arbitrary: i j w)
  case (Cons tx txs)
  then show ?case by (cases j) (auto simp: view_lookup_other algebra_simps)
qed simp

lemma view_lookup_body [simp]: "v_body (view_lookup kec b n i txs w) = v_body w"
  by (induction txs arbitrary: i w) auto

text \<open>
  C20: Stored transactions are found.  After a block and its lookup entries are written, in any store, every transaction
  of the block is found by its hash, with the block's hash and number and its index in the block, provided the hashes of
  the block's transactions differ and the block's hash is not the zero hash.
\<close>

theorem stored_transaction_found:
  assumes kl: "\<And>x. length (kec x) = 32"
    and b: "header_ok (bl_header b)" "body_ok (Block_Body b)" "Block_Hash kec b \<noteq> zeroHash"
    and txs: "distinct (map (Transaction_Hash kec) (bl_transactions b))" "length (bl_transactions b) < 2 ^ 63" "j < length (bl_transactions b)"
  shows "\<exists>db1 db2. WriteBlock kec b db = Ok db1 \<and> WriteTxLookupEntries kec b db1 = Ok db2
    \<and> GetTransaction db2 (Transaction_Hash kec (bl_transactions b ! j))
      = Ok (Some (bl_transactions b ! j, \<lparr>le_BlockHash = Block_Hash kec b, le_BlockIndex = NumberU64 b, le_Index = of_nat j\<rparr>))"
proof -
  let ?h = "Block_Hash kec b" and ?tx = "bl_transactions b ! j"
  have h: "?h \<in> hashes" "Transaction_Hash kec ?tx \<in> hashes"
    using Header_Hash_hashes [of kec, OF kl] Transaction_Hash_hashes [of kec, OF kl] by (simp_all add: Block_Hash_def)
  from chain_step_view [of kec "BlockW b" db, OF kl] b(1,2) obtain db1 where
    1: "WriteBlock kec b db = Ok db1" "chain_view db1 = view_step kec (BlockW b) (chain_view db)" by auto
  from chain_step_view [of kec "LookupW b" db1, OF kl] obtain db2 where
    2: "WriteTxLookupEntries kec b db1 = Ok db2"
       "chain_view db2 = view_lookup kec ?h (NumberU64 b) 0 (bl_transactions b) (chain_view db1)" by auto
  have "GetTxLookupEntry db2 (Transaction_Hash kec ?tx) = \<lparr>le_BlockHash = ?h, le_BlockIndex = NumberU64 b, le_Index = of_nat j\<rparr>"
    using arg_cong [OF 2(2), of "\<lambda>w. v_lookup w (Transaction_Hash kec ?tx)"] view_lookup_same [OF txs(1,3)] h(2)
    by (simp add: chain_view_def)
  moreover have "GetBody db2 ?h (NumberU64 b) = Some (Block_Body b)"
    using arg_cong [OF 2(2), of "\<lambda>w. v_body w ?h (NumberU64 b)"] arg_cong [OF 1(2), of "\<lambda>w. v_body w ?h (NumberU64 b)"] h(1)
    by (simp add: chain_view_def view_header_def upd2_def Let_def)
  moreover have "nth_u64 (bl_transactions b) (of_nat j) = Ok (Some ?tx)"
  proof -
    have "unat (of_nat j :: u64) = j" using txs by (intro unat_of_nat_u64) simp
    moreover have "sint (of_nat j :: u64) = int j" using txs(2,3) by (simp add: signed_of_nat signed_take_bit_int_eq_self)
    ultimately show ?thesis using txs(3) by (simp add: nth_u64_def)
  qed
  ultimately show ?thesis using 1(1) 2(1) b(3) by (simp add: GetTransaction_def Block_Body_def Let_def)
qed

theorem stored_transaction_found_witness:
  "\<exists>db1 db2. WriteBlock tail_hash \<lparr>bl_header = sample_header 3 (replicate 32 1) 5 (replicate 32 2), bl_transactions = [\<lparr>tx_Payload = [1]\<rparr>, \<lparr>tx_Payload = [2]\<rparr>], bl_proofs = []\<rparr> Map.empty = Ok db1
    \<and> WriteTxLookupEntries tail_hash \<lparr>bl_header = sample_header 3 (replicate 32 1) 5 (replicate 32 2), bl_transactions = [\<lparr>tx_Payload = [1]\<rparr>, \<lparr>tx_Payload = [2]\<rparr>], bl_proofs = []\<rparr> db1 = Ok db2
    \<and> GetTransaction db2 (Transaction_Hash tail_hash \<lparr>tx_Payload = [2]\<rparr>)
      = Ok (Some (\<lparr>tx_Payload = [2]\<rparr>, \<lparr>le_BlockHash = replicate 32 2, le_BlockIndex = 5, le_Index = 1\<rparr>))"
proof -
  let ?x = "sample_header 3 (replicate 32 1) 5 (replicate 32 2)" and ?t1 = "\<lparr>tx_Payload = [1]\<rparr>" and ?t2 = "\<lparr>tx_Payload = [2]\<rparr>"
  let ?b = "\<lparr>bl_header = ?x, bl_transactions = [?t1, ?t2], bl_proofs = []\<rparr>"
  have h: "header_ok (bl_header ?b)" by (simp add: sample_header_ok)
  have b: "body_ok (Block_Body ?b)"
    by (simp add: body_ok_def Block_Body_def body_rval_def tx_rval_def encodable_def Body_type_def Transaction_type_def ProofState_type_def
        HashLength_def AddressLength_def rlp_list_def rlp_str_def rlp_head_def wf_bits_def)
  have bh: "Block_Hash tail_hash ?b = replicate 32 2" by (simp add: Block_Hash_def sample_header_hash)
  then have z: "Block_Hash tail_hash ?b \<noteq> zeroHash" by (simp add: zeroHash_def HashLength_def)
  have t: "Transaction_Hash tail_hash ?t1 = replicate 30 0 @ [0xC1, 1]" "Transaction_Hash tail_hash ?t2 = replicate 30 0 @ [0xC1, 2]"
    by code_simp+
  then have d: "distinct (map (Transaction_Hash tail_hash) (bl_transactions ?b))" by simp
  have n: "NumberU64 ?b = 5" by (simp add: NumberU64_def Uint64_def sample_header_def)
  from stored_transaction_found [of tail_hash ?b 1 Map.empty, OF length_tail_hash h b z d] show ?thesis by (simp add: bh n)
qed

text \<open>
  An updated receipt is not stored with its block.  \<^verbatim>\<open>UpdateTxReceiptWithBlock\<close> puts the block's receipts under a key with
  the hash of the transaction in place of the hash of the block: the receipts of the block, and so the receipt that the
  lookup by transaction returns, stay as they were.
\<close>

theorem update_receipt_misplaced:
  assumes "UpdateTxReceiptWithBlock txHash blockHash number i receipt db = Ok db'" and "txHash \<noteq> blockHash"
    and "GetTxLookupEntry db txHash = \<lparr>le_BlockHash = blockHash, le_BlockIndex = number, le_Index = i\<rparr>"
  shows "GetBlockReceipts db' blockHash number = GetBlockReceipts db blockHash number \<and> GetReceipt db' txHash = GetReceipt db txHash"
proof -
  from assms(1) obtain data where db': "db' = db(receiptsKey txHash number \<mapsto> data)"
    by (auto simp: UpdateTxReceiptWithBlock_def put_rlp_def Let_def split: if_splits res.splits)
  have r: "GetBlockReceipts db' blockHash number = GetBlockReceipts db blockHash number"
    using assms(2) by (simp add: db' GetBlockReceipts_def get_bytes_def)
  have "lookupKey txHash \<noteq> receiptsKey txHash number" by (simp add: key_defs)
  then have "GetTxLookupEntry db' txHash = GetTxLookupEntry db txHash" by (simp add: db' GetTxLookupEntry_def get_bytes_def)
  moreover have "blockHash \<noteq> zeroHash" using assms(1) by (auto simp: UpdateTxReceiptWithBlock_def)
  ultimately show ?thesis using r assms(3) by (simp add: GetReceipt_def Let_def)
qed

theorem update_receipt_misplaced_witness:
  "\<exists>db'. UpdateTxReceiptWithBlock (replicate 32 1) (replicate 32 2) 5 0 \<lparr>rc_Status = 1, rc_ConfirmCount = 9, rc_TxHash = replicate 32 1\<rparr>
      [receiptsKey (replicate 32 2) 5 \<mapsto> enc_rval (ListV (map receipt_rval [\<lparr>rc_Status = 1, rc_ConfirmCount = 8, rc_TxHash = replicate 32 1\<rparr>])),
       lookupKey (replicate 32 1) \<mapsto> enc_rval (lookup_rval \<lparr>le_BlockHash = replicate 32 2, le_BlockIndex = 5, le_Index = 0\<rparr>)] = Ok db'
    \<and> GetBlockReceipts db' (replicate 32 2) 5 = Some [\<lparr>rc_Status = 1, rc_ConfirmCount = 8, rc_TxHash = replicate 32 1\<rparr>]"
proof -
  let ?t = "replicate 32 1 :: hash" and ?b = "replicate 32 2 :: hash"
  let ?r = "\<lambda>n. \<lparr>rc_Status = 1, rc_ConfirmCount = n, rc_TxHash = ?t\<rparr>" and ?e = "\<lparr>le_BlockHash = ?b, le_BlockIndex = 5, le_Index = 0\<rparr>"
  define db1 where "db1 = Map.empty(receiptsKey ?b 5 \<mapsto> enc_rval (ListV (map receipt_rval [?r 8])))"
  define db where "db = db1(lookupKey ?t \<mapsto> enc_rval (lookup_rval ?e))"
  have h: "?t \<in> hashes" "?b \<in> hashes" by (simp_all add: hashes_def HashLength_def)
  have enc: "encodable Receipts_type (ListV (map receipt_rval [?r n]))" if "n < 100" for n
  proof -
    have n: "unat n < 100" using that by (simp add: word_less_nat_alt)
    then have "length (big_bytes (unat n)) \<le> 1" by (intro length_big_bytes_le) simp
    with n show ?thesis
      by (simp add: encodable_def Receipts_type_def Receipt_type_def receipt_rval_def statusEncoding_def rlp_list_def rlp_str_def rlp_head_def wf_bits_def HashLength_def)
  qed
  have ok: "receipts_ok [?r 8]" using enc [of 8] by (simp add: receipts_ok_def receipt_ok_def)
  have v1: "chain_view db1 = (chain_view Map.empty)\<lparr>v_receipts := upd2 (v_receipts (chain_view Map.empty)) ?b 5 (Some [?r 8])\<rparr>"
    unfolding db1_def by (rule view_receipts_item(1) [OF h(2) ok])
  have v: "chain_view db = (chain_view db1)\<lparr>v_lookup := (v_lookup (chain_view db1))(?t := ?e)\<rparr>"
    unfolding db_def by (rule view_lookup_item(1) [OF h(1)]) (simp add: h)
  have e: "GetTxLookupEntry db ?t = ?e" using arg_cong [OF v, of "\<lambda>w. v_lookup w ?t"] h(1) by (simp add: chain_view_def)
  have r: "GetBlockReceipts db ?b 5 = Some [?r 8]"
    using arg_cong [OF v, of "\<lambda>w. v_receipts w ?b 5"] arg_cong [OF v1, of "\<lambda>w. v_receipts w ?b 5"] h(2) by (simp add: chain_view_def upd2_def)
  have u: "UpdateTxReceiptWithBlock ?t ?b 5 0 (?r 9) db = Ok (db(receiptsKey ?t 5 \<mapsto> enc_rval (ListV (map receipt_rval [?r 9]))))"
    using r encodable_roundtrip(1) [OF enc [of 9]] by (simp add: UpdateTxReceiptWithBlock_def receipts_or_nil_def put_rlp_def zeroHash_def HashLength_def)
  from update_receipt_misplaced [OF u _ e] r show ?thesis using u unfolding db_def db1_def by auto
qed

end
