(* ===== verification/Header_Chain.thy ===== *)
theory Header_Chain
  imports Chain_Database Lru
begin

text \<open>
  The chain of headers, \<^verbatim>\<open>src/blockchain/headerchain.go\<close>: headers, difficulties and numbers behind caches, the import of a
  header with its reorganisation of the canonical chain, and rewinding.  A call of \<^verbatim>\<open>log.Crit\<close>, which ends the process, is a
  panic of the model; the random number with which a tie is broken is the argument \<open>coin\<close>.  A loop of the code spends
  fuel.
\<close>

section \<open>State\<close>

record HeaderChain =
  hc_db :: store
  hc_genesisHeader :: Header
  hc_currentHeader :: "Header option"
  hc_currentHeaderHash :: hash
  hc_headerCache :: "(hash, Header) LRU"
  hc_tdCache :: "(hash, int) LRU"
  hc_numberCache :: "(hash, u64) LRU"

datatype chain_error = ErrUnknownAncestor | ErrNoGenesis | ErrNonContiguous | ErrAborted | ErrVerify nat

datatype WriteStatus = NonStatTy | CanonStatTy | SideStatTy

section \<open>Reading through the caches\<close>

definition hc_GetBlockNumber :: "hash \<Rightarrow> HeaderChain \<Rightarrow> u64 \<times> HeaderChain" where
  "hc_GetBlockNumber hash hc =
     (case Lru_Get hash (hc_numberCache hc) of
        (Some number, c) \<Rightarrow> (number, hc\<lparr>hc_numberCache := c\<rparr>)
      | (None, c) \<Rightarrow>
          (let number = GetBlockNumber (hc_db hc) hash
           in (number, if number \<noteq> missingNumber then hc\<lparr>hc_numberCache := Lru_Add hash number c\<rparr> else hc\<lparr>hc_numberCache := c\<rparr>)))"

definition hc_GetTd :: "hash \<Rightarrow> u64 \<Rightarrow> HeaderChain \<Rightarrow> int option \<times> HeaderChain" where
  "hc_GetTd hash number hc =
     (case Lru_Get hash (hc_tdCache hc) of
        (Some td, c) \<Rightarrow> (Some td, hc\<lparr>hc_tdCache := c\<rparr>)
      | (None, c) \<Rightarrow>
          (case GetTd (hc_db hc) hash number of
             None \<Rightarrow> (None, hc\<lparr>hc_tdCache := c\<rparr>)
           | Some td \<Rightarrow> (Some td, hc\<lparr>hc_tdCache := Lru_Add hash td c\<rparr>)))"

definition hc_GetHeader :: "hash \<Rightarrow> u64 \<Rightarrow> HeaderChain \<Rightarrow> Header option \<times> HeaderChain" where
  "hc_GetHeader hash number hc =
     (case Lru_Get hash (hc_headerCache hc) of
        (Some header, c) \<Rightarrow> (Some header, hc\<lparr>hc_headerCache := c\<rparr>)
      | (None, c) \<Rightarrow>
          (case GetHeader (hc_db hc) hash number of
             None \<Rightarrow> (None, hc\<lparr>hc_headerCache := c\<rparr>)
           | Some header \<Rightarrow> (Some header, hc\<lparr>hc_headerCache := Lru_Add hash header c\<rparr>)))"

definition hc_GetTdByHash :: "hash \<Rightarrow> HeaderChain \<Rightarrow> int option \<times> HeaderChain" where
  "hc_GetTdByHash hash hc = (let (number, hc) = hc_GetBlockNumber hash hc in hc_GetTd hash number hc)"

definition hc_GetHeaderByHash :: "hash \<Rightarrow> HeaderChain \<Rightarrow> Header option \<times> HeaderChain" where
  "hc_GetHeaderByHash hash hc = (let (number, hc) = hc_GetBlockNumber hash hc in hc_GetHeader hash number hc)"

definition hc_HasHeader :: "hash \<Rightarrow> u64 \<Rightarrow> HeaderChain \<Rightarrow> bool" where
  "hc_HasHeader hash number hc \<longleftrightarrow>
     Lru_Contains hash (hc_numberCache hc) \<or> Lru_Contains hash (hc_headerCache hc) \<or> hc_db hc (headerKey hash number) \<noteq> None"

definition hc_GetHeaderByNumber :: "u64 \<Rightarrow> HeaderChain \<Rightarrow> Header option \<times> HeaderChain" where
  "hc_GetHeaderByNumber number hc =
     (let hash = GetCanonicalHash (hc_db hc) number in if hash = zeroHash then (None, hc) else hc_GetHeader hash number hc)"

fun GetBlockHashes_loop :: "nat \<Rightarrow> Header \<Rightarrow> HeaderChain \<Rightarrow> hash list \<times> HeaderChain" where
  "GetBlockHashes_loop 0 header hc = ([], hc)"
| "GetBlockHashes_loop (Suc n) header hc =
     (let nxt = hd_ParentHash header
      in case hc_GetHeader nxt (Uint64 (hd_Number header) - 1) hc of
           (None, hc) \<Rightarrow> ([], hc)
         | (Some header, hc) \<Rightarrow>
             if hd_Number header = 0 then ([nxt], hc)
             else (case GetBlockHashes_loop n header hc of (chain, hc) \<Rightarrow> (nxt # chain, hc)))"

definition GetBlockHashesFromHash :: "hash \<Rightarrow> u64 \<Rightarrow> HeaderChain \<Rightarrow> hash list \<times> HeaderChain" where
  "GetBlockHashesFromHash hash limit hc =
     (case hc_GetHeaderByHash hash hc of
        (None, hc) \<Rightarrow> ([], hc)
      | (Some header, hc) \<Rightarrow> GetBlockHashes_loop (unat limit) header hc)"

section \<open>Writing\<close>

definition hc_WriteTd :: "hash \<Rightarrow> u64 \<Rightarrow> int \<Rightarrow> HeaderChain \<Rightarrow> (rlp_error, HeaderChain) res" where
  "hc_WriteTd hash number td hc =
     res_map (\<lambda>db. hc\<lparr>hc_db := db, hc_tdCache := Lru_Add hash td (hc_tdCache hc)\<rparr>) (WriteTd hash number td (hc_db hc))"

definition SetCurrentHeader :: "(bytes \<Rightarrow> bytes) \<Rightarrow> Header \<Rightarrow> HeaderChain \<Rightarrow> HeaderChain" where
  "SetCurrentHeader kec head hc =
     hc\<lparr>hc_db := WriteHeadHeaderHash (Header_Hash kec head) (hc_db hc), hc_currentHeader := Some head,
        hc_currentHeaderHash := Header_Hash kec head\<rparr>"

definition SetGenesis :: "Header \<Rightarrow> HeaderChain \<Rightarrow> HeaderChain" where
  "SetGenesis head hc = hc\<lparr>hc_genesisHeader := head\<rparr>"

text \<open>The canonical numbers above the new head are removed up to the first that is not assigned.\<close>

fun delete_above :: "nat \<Rightarrow> u64 \<Rightarrow> store \<Rightarrow> (unit, store) res" where
  "delete_above 0 i db = Diverge"
| "delete_above (Suc fuel) i db =
     (if GetCanonicalHash db i = zeroHash then Ok db else delete_above fuel (i + 1) (DeleteCanonicalHash i db))"

text \<open>
  The canonical numbers below the new head are overwritten down to the first that is right.  \<open>headHeader\<close> may be nil,
  and is then used only when the loop is entered.
\<close>

fun overwrite_below :: "nat \<Rightarrow> hash \<Rightarrow> u64 \<Rightarrow> Header option \<Rightarrow> HeaderChain \<Rightarrow> (unit, HeaderChain) res" where
  "overwrite_below 0 headHash headNumber headHeader hc = Diverge"
| "overwrite_below (Suc fuel) headHash headNumber headHeader hc =
     (if GetCanonicalHash (hc_db hc) headNumber = headHash then Ok hc
      else
        let hc = hc\<lparr>hc_db := WriteCanonicalHash headHash headNumber (hc_db hc)\<rparr>
        in case headHeader of
             None \<Rightarrow> Panic
           | Some header \<Rightarrow>
               (let headHash = hd_ParentHash header; headNumber = Uint64 (hd_Number header) - 1;
                    (headHeader, hc) = hc_GetHeader headHash headNumber hc
                in overwrite_below fuel headHash headNumber headHeader hc))"

definition hc_WriteHeader ::
  "(bytes \<Rightarrow> bytes) \<Rightarrow> nat \<Rightarrow> bool \<Rightarrow> Header \<Rightarrow> HeaderChain \<Rightarrow> (unit, WriteStatus \<times> chain_error option \<times> HeaderChain) res" where
  "hc_WriteHeader kec fuel coin header hc =
     (let hash = Header_Hash kec header; number = Uint64 (hd_Number header);
          (ptd, hc) = hc_GetTd (hd_ParentHash header) (number - 1) hc
      in case ptd of
           None \<Rightarrow> Ok (NonStatTy, Some ErrUnknownAncestor, hc)
         | Some ptd \<Rightarrow>
             (case hc_currentHeader hc of
                None \<Rightarrow> Panic
              | Some current \<Rightarrow>
                  (let (localTd, hc) = hc_GetTd (hc_currentHeaderHash hc) (Uint64 (hd_Number current)) hc;
                       externTd = hd_Difficulty header + ptd
                   in case hc_WriteTd hash number externTd hc of
                        Ok hc \<Rightarrow>
                          (case WriteHeader kec header (hc_db hc) of
                             Ok db \<Rightarrow>
                               (let hc = hc\<lparr>hc_db := db\<rparr>;
                                    done' = (\<lambda>status hc. Ok (status, None,
                                      hc\<lparr>hc_headerCache := Lru_Add hash header (hc_headerCache hc),
                                         hc_numberCache := Lru_Add hash number (hc_numberCache hc)\<rparr>))
                                in case localTd of
                                     None \<Rightarrow> Panic
                                   | Some localTd \<Rightarrow>
                                       if externTd > localTd \<or> externTd = localTd \<and> coin then
                                         res_bind (delete_above fuel (number + 1) (hc_db hc)) (\<lambda>db.
                                         let (headHeader, hc) = hc_GetHeader (hd_ParentHash header) (number - 1) (hc\<lparr>hc_db := db\<rparr>)
                                         in res_bind (overwrite_below fuel (hd_ParentHash header) (number - 1) headHeader hc) (\<lambda>hc.
                                              done' CanonStatTy
                                                (hc\<lparr>hc_db := WriteHeadHeaderHash hash (WriteCanonicalHash hash number (hc_db hc)),
                                                    hc_currentHeaderHash := hash, hc_currentHeader := Some header\<rparr>)))
                                       else done' SideStatTy hc)
                           | _ \<Rightarrow> Panic)
                      | _ \<Rightarrow> Panic)))"

section \<open>Importing a sequence of headers\<close>

fun contiguous :: "(bytes \<Rightarrow> bytes) \<Rightarrow> Header list \<Rightarrow> bool" where
  "contiguous kec (h # h' # hs) \<longleftrightarrow>
     Uint64 (hd_Number h') = Uint64 (hd_Number h) + 1 \<and> hd_ParentHash h' = Header_Hash kec h \<and> contiguous kec (h' # hs)"
| "contiguous kec _ \<longleftrightarrow> True"

text \<open>
  The verdicts of the engine, \<open>results\<close>, come in the order of the headers, nil being \<open>None\<close>; the service may be stopping
  when the loop asks, \<open>stopping i\<close>.  The random choice of the seals to check only changes the engine's verdicts.
\<close>

fun verdict_loop :: "(nat \<Rightarrow> bool) \<Rightarrow> (nat \<Rightarrow> nat option) \<Rightarrow> nat \<Rightarrow> nat \<Rightarrow> nat \<times> chain_error option" where
  "verdict_loop stopping results i 0 = (0, None)"
| "verdict_loop stopping results i (Suc n) =
     (if stopping i then (0, Some ErrAborted)
      else case results i of Some e \<Rightarrow> (i, Some (ErrVerify e)) | None \<Rightarrow> verdict_loop stopping results (i + 1) n)"

definition ValidateHeaderChain ::
  "(bytes \<Rightarrow> bytes) \<Rightarrow> (nat \<Rightarrow> bool) \<Rightarrow> (nat \<Rightarrow> nat option) \<Rightarrow> nat \<Rightarrow> Header list \<Rightarrow> (unit, nat \<times> chain_error option) res" where
  "ValidateHeaderChain kec stopping results checkFreq chain =
     (if \<not> contiguous kec chain then Ok (0, Some ErrNonContiguous)
      else if checkFreq = 0 \<or> chain = [] then Panic
      else Ok (verdict_loop stopping results 0 (length chain)))"

fun InsertHeader_loop ::
  "(bytes \<Rightarrow> bytes) \<Rightarrow> nat \<Rightarrow> (nat \<Rightarrow> bool) \<Rightarrow> (nat \<Rightarrow> bool) \<Rightarrow> nat \<Rightarrow> Header list \<Rightarrow> HeaderChain
    \<Rightarrow> (unit, nat \<times> chain_error option \<times> HeaderChain) res" where
  "InsertHeader_loop kec fuel coins stopping i [] hc = Ok (0, None, hc)"
| "InsertHeader_loop kec fuel coins stopping i (header # chain) hc =
     (if stopping i then Ok (i, Some ErrAborted, hc)
      else if hc_HasHeader (Header_Hash kec header) (Uint64 (hd_Number header)) hc
      then InsertHeader_loop kec fuel coins stopping (i + 1) chain hc
      else res_bind (hc_WriteHeader kec fuel (coins i) header hc) (\<lambda>(_, err, hc).
             case err of
               Some e \<Rightarrow> Ok (i, Some e, hc)
             | None \<Rightarrow> InsertHeader_loop kec fuel coins stopping (i + 1) chain hc))"

text \<open>The import reports its last header, which an empty chain does not have.\<close>

definition InsertHeaderChain ::
  "(bytes \<Rightarrow> bytes) \<Rightarrow> nat \<Rightarrow> (nat \<Rightarrow> bool) \<Rightarrow> (nat \<Rightarrow> bool) \<Rightarrow> Header list \<Rightarrow> HeaderChain
    \<Rightarrow> (unit, nat \<times> chain_error option \<times> HeaderChain) res" where
  "InsertHeaderChain kec fuel coins stopping chain hc =
     (if chain = [] then Panic else InsertHeader_loop kec fuel coins stopping 0 chain hc)"

section \<open>Opening and rewinding\<close>

definition headerCacheLimit :: int where "headerCacheLimit = 512"
definition tdCacheLimit :: int where "tdCacheLimit = 1024"
definition numberCacheLimit :: int where "numberCacheLimit = 2048"

text \<open>The caches are empty at first, so the genesis header is read from the store.\<close>

definition NewHeaderChain :: "(bytes \<Rightarrow> bytes) \<Rightarrow> store \<Rightarrow> (chain_error, HeaderChain) res" where
  "NewHeaderChain kec db =
     (case (NewLRU headerCacheLimit, NewLRU tdCacheLimit, NewLRU numberCacheLimit) of
        (Ok hcache, Ok tcache, Ok ncache) \<Rightarrow>
          (let hash = GetCanonicalHash db 0
           in case (if hash = zeroHash then None else GetHeader db hash 0) of
                None \<Rightarrow> Err ErrNoGenesis
              | Some genesis \<Rightarrow>
                  (let hc = \<lparr>hc_db = db, hc_genesisHeader = genesis, hc_currentHeader = Some genesis,
                         hc_currentHeaderHash = zeroHash, hc_headerCache = Lru_Add hash genesis hcache,
                         hc_tdCache = tcache, hc_numberCache = ncache\<rparr>;
                       head = GetHeadBlockHash db;
                       (chead, hc) = (if head \<noteq> zeroHash then hc_GetHeaderByHash head hc else (None, hc));
                       current = (case chead of Some h \<Rightarrow> h | None \<Rightarrow> genesis)
                   in Ok (hc\<lparr>hc_currentHeader := Some current, hc_currentHeaderHash := Header_Hash kec current\<rparr>)))
      | _ \<Rightarrow> Panic)"

text \<open>\<open>delFn\<close> is the callback with which the block chain removes the body of a header.\<close>

fun rewind_headers :: "(bytes \<Rightarrow> bytes) \<Rightarrow> (hash \<Rightarrow> u64 \<Rightarrow> store \<Rightarrow> store) option \<Rightarrow> nat \<Rightarrow> u64 \<Rightarrow> HeaderChain \<Rightarrow> (unit, HeaderChain) res" where
  "rewind_headers kec delFn 0 head hc = Diverge"
| "rewind_headers kec delFn (Suc fuel) head hc =
     (case hc_currentHeader hc of
        None \<Rightarrow> Ok hc
      | Some current \<Rightarrow>
          if Uint64 (hd_Number current) > head then
            (let hash = Header_Hash kec current; num = Uint64 (hd_Number current);
                 db = (case delFn of None \<Rightarrow> hc_db hc | Some f \<Rightarrow> f hash num (hc_db hc));
                 db = DeleteTd hash num (DeleteHeader hash num db);
                 (header, hc) = hc_GetHeader (hd_ParentHash current) (Uint64 (hd_Number current) - 1) (hc\<lparr>hc_db := db\<rparr>)
             in rewind_headers kec delFn fuel head (hc\<lparr>hc_currentHeader := header\<rparr>))
          else Ok hc)"

fun delete_canonical :: "u64 \<Rightarrow> nat \<Rightarrow> store \<Rightarrow> store" where
  "delete_canonical i 0 db = db"
| "delete_canonical i (Suc n) db = delete_canonical (i - 1) n (DeleteCanonicalHash i db)"

definition hc_SetHead ::
  "(bytes \<Rightarrow> bytes) \<Rightarrow> (hash \<Rightarrow> u64 \<Rightarrow> store \<Rightarrow> store) option \<Rightarrow> nat \<Rightarrow> u64 \<Rightarrow> HeaderChain \<Rightarrow> (unit, HeaderChain) res" where
  "hc_SetHead kec delFn fuel head hc =
     (let height = (case hc_currentHeader hc of None \<Rightarrow> 0 | Some h \<Rightarrow> Uint64 (hd_Number h))
      in res_bind (rewind_headers kec delFn fuel head hc) (\<lambda>hc.
           let db = delete_canonical height (unat height - unat head) (hc_db hc);
               current = (case hc_currentHeader hc of None \<Rightarrow> hc_genesisHeader hc | Some h \<Rightarrow> h)
           in Ok (hc\<lparr>hc_db := WriteHeadHeaderHash (Header_Hash kec current) db,
                     hc_headerCache := Lru_Purge (hc_headerCache hc), hc_tdCache := Lru_Purge (hc_tdCache hc),
                     hc_numberCache := Lru_Purge (hc_numberCache hc), hc_currentHeader := Some current,
                     hc_currentHeaderHash := Header_Hash kec current\<rparr>)))"

section \<open>The common ancestor\<close>

text \<open>\<^verbatim>\<open>FindCommonAncestor\<close> of \<^verbatim>\<open>database_util.go\<close>: \<open>climb\<close> is each of its first two loops.\<close>

fun climb :: "store \<Rightarrow> nat \<Rightarrow> u64 \<Rightarrow> Header \<Rightarrow> (unit, Header option) res" where
  "climb db 0 n a = Diverge"
| "climb db (Suc fuel) n a =
     (if Uint64 (hd_Number a) > n then
        (case GetHeader db (hd_ParentHash a) (Uint64 (hd_Number a) - 1) of
           None \<Rightarrow> Ok None
         | Some a' \<Rightarrow> climb db fuel n a')
      else Ok (Some a))"

fun climb_both :: "(bytes \<Rightarrow> bytes) \<Rightarrow> store \<Rightarrow> nat \<Rightarrow> Header \<Rightarrow> Header \<Rightarrow> (unit, Header option) res" where
  "climb_both kec db 0 a b = Diverge"
| "climb_both kec db (Suc fuel) a b =
     (if Header_Hash kec a = Header_Hash kec b then Ok (Some a)
      else case GetHeader db (hd_ParentHash a) (Uint64 (hd_Number a) - 1) of
             None \<Rightarrow> Ok None
           | Some a' \<Rightarrow>
               (case GetHeader db (hd_ParentHash b) (Uint64 (hd_Number b) - 1) of
                  None \<Rightarrow> Ok None
                | Some b' \<Rightarrow> climb_both kec db fuel a' b'))"

definition FindCommonAncestor :: "(bytes \<Rightarrow> bytes) \<Rightarrow> nat \<Rightarrow> store \<Rightarrow> Header \<Rightarrow> Header \<Rightarrow> (unit, Header option) res" where
  "FindCommonAncestor kec fuel db a b =
     res_bind (climb db fuel (Uint64 (hd_Number b)) a) (\<lambda>a.
       case a of
         None \<Rightarrow> Ok None
       | Some a \<Rightarrow>
           res_bind (climb db fuel (Uint64 (hd_Number a)) b) (\<lambda>b.
             case b of None \<Rightarrow> Ok None | Some b \<Rightarrow> climb_both kec db fuel a b))"

end
