(* ===== verification/Canonical_Chain.thy ===== *)
theory Canonical_Chain
  imports Header_Chain
begin

text \<open>
  What the header chain keeps: the stored headers form a tree under the genesis, the canonical numbers spell out the path
  from the genesis to the current header, and the caches agree with the store.  Importing a header keeps all of this, and
  moves the canonical path to the heavier branch.
\<close>

section \<open>Invariants\<close>

text \<open>
  Every stored header sits under its own hash and number and has a parent, down to the genesis with hash \<open>g\<close>; its total
  difficulty is its parent's plus its own.
\<close>

definition headers_ok :: "(bytes \<Rightarrow> bytes) \<Rightarrow> hash \<Rightarrow> chain_view \<Rightarrow> bool" where
  "headers_ok kec g w \<longleftrightarrow>
     (\<forall>h n x. v_header w h n = Some x \<longrightarrow>
        header_ok x \<and> Header_Hash kec x = h \<and> h \<noteq> zeroHash \<and> hd_Number x = uint n \<and> n \<noteq> missingNumber \<and> v_number w h = n
        \<and> (\<exists>td. v_td w h n = Some td \<and> (n \<noteq> 0 \<longrightarrow> (\<exists>ptd. v_td w (hd_ParentHash x) (n - 1) = Some ptd \<and> td = hd_Difficulty x + ptd)))
        \<and> (if n = 0 then h = g else v_header w (hd_ParentHash x) (n - 1) \<noteq> None))"

text \<open>The canonical hash of \<open>m\<close> is a stored header's whose parent is the canonical header below.\<close>

definition canon_link :: "(hash \<Rightarrow> u64 \<Rightarrow> Header option) \<Rightarrow> (u64 \<Rightarrow> hash) \<Rightarrow> u64 \<Rightarrow> bool" where
  "canon_link H c m \<longleftrightarrow> (\<exists>x. H (c m) m = Some x \<and> (m \<noteq> 0 \<longrightarrow> hd_ParentHash x = c (m - 1)))"

definition canonical_ok :: "chain_view \<Rightarrow> hash \<Rightarrow> u64 \<Rightarrow> bool" where
  "canonical_ok w head n \<longleftrightarrow>
     v_canonical w n = head \<and> (\<forall>m. n < m \<longrightarrow> v_canonical w m = zeroHash) \<and> (\<forall>m. m \<le> n \<longrightarrow> canon_link (v_header w) (v_canonical w) m)"

definition caches_ok :: "chain_view \<Rightarrow> HeaderChain \<Rightarrow> bool" where
  "caches_ok w hc \<longleftrightarrow>
     lru_all (\<lambda>h x. \<exists>n. v_header w h n = Some x) (hc_headerCache hc)
     \<and> lru_all (\<lambda>h td. \<exists>n x. v_header w h n = Some x \<and> v_td w h n = Some td) (hc_tdCache hc)
     \<and> lru_all (\<lambda>h n. \<exists>x. v_header w h n = Some x) (hc_numberCache hc)"

definition hc_inv :: "(bytes \<Rightarrow> bytes) \<Rightarrow> hash \<Rightarrow> HeaderChain \<Rightarrow> bool" where
  "hc_inv kec g hc \<longleftrightarrow>
     (let w = chain_view (hc_db hc)
      in headers_ok kec g w \<and> caches_ok w hc
         \<and> (\<exists>x. hc_currentHeader hc = Some x \<and> hc_currentHeaderHash hc = Header_Hash kec x
              \<and> v_header w (Header_Hash kec x) (Uint64 (hd_Number x)) = Some x
              \<and> canonical_ok w (Header_Hash kec x) (Uint64 (hd_Number x))))"

section \<open>Numbers\<close>

lemma Uint64_uint [simp]: "Uint64 (uint n) = n"
  by (simp add: Uint64_def)

lemma Uint64_0 [simp]: "Uint64 0 = 0"
  by (simp add: Uint64_def)

lemma u64_le_pred: "(k :: u64) \<noteq> 0 \<Longrightarrow> m \<le> k - 1 \<longleftrightarrow> m < k"
  by unat_arith

lemma u64_gt_succ: "(n :: u64) \<noteq> missingNumber \<Longrightarrow> n + 1 \<le> m \<longleftrightarrow> n < m"
  unfolding missingNumber_def by unat_arith auto

lemma unat_pred: "(k :: u64) \<noteq> 0 \<Longrightarrow> unat (k - 1) = unat k - 1"
  by unat_arith

lemma unat_succ: "(k :: u64) \<noteq> missingNumber \<Longrightarrow> unat (k + 1) = unat k + 1"
  unfolding missingNumber_def by unat_arith auto

section \<open>Reading\<close>

text \<open>What reading through a cache leaves alone.\<close>

definition hc_same :: "HeaderChain \<Rightarrow> HeaderChain \<Rightarrow> bool" where
  "hc_same hc hc' \<longleftrightarrow> hc_db hc' = hc_db hc \<and> hc_genesisHeader hc' = hc_genesisHeader hc \<and> hc_currentHeader hc' = hc_currentHeader hc
     \<and> hc_currentHeaderHash hc' = hc_currentHeaderHash hc"

lemma headers_okD:
  assumes "headers_ok kec g w" "v_header w h n = Some x"
  shows "header_ok x" "Header_Hash kec x = h" "h \<noteq> zeroHash" "hd_Number x = uint n" "Uint64 (hd_Number x) = n"
    "n \<noteq> missingNumber" "v_number w h = n"
    "\<exists>td. v_td w h n = Some td \<and> (n \<noteq> 0 \<longrightarrow> (\<exists>ptd. v_td w (hd_ParentHash x) (n - 1) = Some ptd \<and> td = hd_Difficulty x + ptd))"
    "n = 0 \<Longrightarrow> h = g" "n \<noteq> 0 \<Longrightarrow> \<exists>p. v_header w (hd_ParentHash x) (n - 1) = Some p"
  using assms unfolding headers_ok_def by (auto split: if_splits)

lemma v_header_hashes: "v_header (chain_view db) h n = Some x \<Longrightarrow> h \<in> hashes \<and> GetHeader db h n = Some x"
  by (auto simp: chain_view_def split: if_splits)

lemma v_td_hashes: "v_td (chain_view db) h n = Some td \<Longrightarrow> GetTd db h n = Some td"
  by (auto simp: chain_view_def split: if_splits)

lemma hc_GetTd_ok:
  assumes "headers_ok kec g (chain_view (hc_db hc))" "caches_ok (chain_view (hc_db hc)) hc" "v_header (chain_view (hc_db hc)) h n = Some x"
  shows "\<exists>hc'. hc_GetTd h n hc = (v_td (chain_view (hc_db hc)) h n, hc') \<and> hc_same hc hc' \<and> caches_ok (chain_view (hc_db hc)) hc'"
proof -
  let ?w = "chain_view (hc_db hc)" and ?P = "\<lambda>h td. \<exists>n x. v_header (chain_view (hc_db hc)) h n = Some x \<and> v_td (chain_view (hc_db hc)) h n = Some td"
  obtain r c where g: "Lru_Get h (hc_tdCache hc) = (r, c)" by force
  have all: "lru_all ?P (hc_tdCache hc)" using assms(2) by (simp add: caches_ok_def)
  from lru_all_Get [OF all g] have c: "lru_all ?P c" and hit: "\<And>td. r = Some td \<Longrightarrow> ?P h td" by blast+
  from headers_okD(8) [OF assms(1,3)] obtain td where td: "v_td ?w h n = Some td" by blast
  show ?thesis
  proof (cases r)
    case (Some td')
    from hit [OF Some] obtain n' x' where n': "v_header ?w h n' = Some x'" "v_td ?w h n' = Some td'" by blast
    have "n' = n" using headers_okD(7) [OF assms(1) n'(1)] headers_okD(7) [OF assms(1,3)] by simp
    with n' td Some g c assms(2) show ?thesis by (auto simp: hc_GetTd_def hc_same_def caches_ok_def)
  next
    case None
    have "lru_all ?P (Lru_Add h td c)" using c assms(3) td by (blast intro: lru_all_Add)
    with None td v_td_hashes [OF td] g assms(2) show ?thesis by (auto simp: hc_GetTd_def hc_same_def caches_ok_def)
  qed
qed

lemma hc_GetHeader_ok:
  assumes "headers_ok kec g (chain_view (hc_db hc))" "caches_ok (chain_view (hc_db hc)) hc" "v_header (chain_view (hc_db hc)) h n = Some x"
  shows "\<exists>hc'. hc_GetHeader h n hc = (Some x, hc') \<and> hc_same hc hc' \<and> caches_ok (chain_view (hc_db hc)) hc'"
proof -
  let ?w = "chain_view (hc_db hc)" and ?P = "\<lambda>h x. \<exists>n. v_header (chain_view (hc_db hc)) h n = Some x"
  obtain r c where g: "Lru_Get h (hc_headerCache hc) = (r, c)" by force
  have all: "lru_all ?P (hc_headerCache hc)" using assms(2) by (simp add: caches_ok_def)
  from lru_all_Get [OF all g] have c: "lru_all ?P c" and hit: "\<And>x. r = Some x \<Longrightarrow> ?P h x" by blast+
  show ?thesis
  proof (cases r)
    case (Some x')
    from hit [OF Some] obtain n' where n': "v_header ?w h n' = Some x'" by blast
    have "n' = n" using headers_okD(7) [OF assms(1) n'(1)] headers_okD(7) [OF assms(1,3)] by simp
    with n' Some g c assms(2,3) show ?thesis by (auto simp: hc_GetHeader_def hc_same_def caches_ok_def)
  next
    case None
    have "lru_all ?P (Lru_Add h x c)" using c assms(3) by (blast intro: lru_all_Add)
    with None v_header_hashes [OF assms(3)] g assms(2) show ?thesis by (auto simp: hc_GetHeader_def hc_same_def caches_ok_def)
  qed
qed

section \<open>The two loops\<close>

lemma delete_above_ok:
  assumes "\<And>m. n < m \<Longrightarrow> GetCanonicalHash db m = zeroHash" "n \<noteq> missingNumber" "i \<noteq> 0" "unat n + 1 - unat i < fuel"
    and "\<And>m. i \<le> m \<Longrightarrow> m \<le> n \<Longrightarrow> GetCanonicalHash db m \<noteq> zeroHash"
  shows "\<exists>db'. delete_above fuel i db = Ok db'
    \<and> chain_view db' = (chain_view db)\<lparr>v_canonical := (\<lambda>m. if i \<le> m then zeroHash else GetCanonicalHash db m)\<rparr>"
  using assms
proof (induction fuel arbitrary: i db)
  case (Suc fuel)
  show ?case
  proof (cases "n < i")
    case True
    with Suc.prems(1) have "GetCanonicalHash db m = zeroHash" if "i \<le> m" for m using that by (meson less_le_trans)
    then have "chain_view db = (chain_view db)\<lparr>v_canonical := (\<lambda>m. if i \<le> m then zeroHash else GetCanonicalHash db m)\<rparr>"
      by (auto simp: chain_view_def fun_eq_iff)
    with True Suc.prems(1) show ?thesis by simp
  next
    case False
    let ?d = "DeleteCanonicalHash i db"
    have v: "chain_view ?d = (chain_view db)\<lparr>v_canonical := (v_canonical (chain_view db))(i := zeroHash)\<rparr>"
      by (simp add: DeleteCanonicalHash_def view_canonical)
    have c: "GetCanonicalHash ?d = (GetCanonicalHash db)(i := zeroHash)"
      using arg_cong [OF v, of v_canonical] by (simp add: chain_view_def)
    have im: "i \<noteq> missingNumber" using False Suc.prems(2) unfolding missingNumber_def by unat_arith auto
    have "unat i \<le> unat n" using False by unat_arith
    then have f: "unat n + 1 - unat (i + 1) < fuel" using Suc.prems(4) unat_succ [OF im] by simp
    have i1: "i + 1 \<noteq> 0" using unat_succ [OF im] by auto
    have "\<exists>db'. delete_above fuel (i + 1) ?d = Ok db'
      \<and> chain_view db' = (chain_view ?d)\<lparr>v_canonical := (\<lambda>m. if i + 1 \<le> m then zeroHash else GetCanonicalHash ?d m)\<rparr>"
      by (rule Suc.IH) (use Suc.prems f i1 c u64_gt_succ [OF im] in \<open>auto simp: less_imp_le\<close>)
    moreover have "(\<lambda>m. if i + 1 \<le> m then zeroHash else GetCanonicalHash ?d m) = (\<lambda>m. if i \<le> m then zeroHash else GetCanonicalHash db m)"
      using u64_gt_succ [OF im] c by (auto simp: fun_eq_iff)
    ultimately show ?thesis using False Suc.prems(5) [of i] v by auto
  qed
qed simp

lemma overwrite_below_ok:
  assumes "chain_view (hc_db hc) = w\<lparr>v_canonical := c\<rparr>" "headers_ok kec g w" "caches_ok w hc" "v_header w h k = Some p" "c 0 = g" "unat k < fuel"
    and down: "\<And>m m'. m \<le> k \<Longrightarrow> c m \<noteq> zeroHash \<Longrightarrow> m' \<le> m \<Longrightarrow> canon_link (v_header w) c m'"
  shows "\<exists>hc' c'. overwrite_below fuel h k (Some p) hc = Ok hc' \<and> chain_view (hc_db hc') = w\<lparr>v_canonical := c'\<rparr> \<and> caches_ok w hc'
    \<and> hc_genesisHeader hc' = hc_genesisHeader hc
    \<and> c' k = h \<and> (\<forall>m. k < m \<longrightarrow> c' m = c m) \<and> (\<forall>m. m \<le> k \<longrightarrow> canon_link (v_header w) c' m)"
  using assms
proof (induction fuel arbitrary: hc c h k p)
  case (Suc fuel)
  note p = headers_okD [OF Suc.prems(2,4)]
  have c: "GetCanonicalHash (hc_db hc) k = c k" using arg_cong [OF Suc.prems(1), of v_canonical] by (simp add: chain_view_def)
  have hs: "h \<in> hashes" using v_header_hashes [of "hc_db hc" h k p] Suc.prems(1,4) by simp
  show ?case
  proof (cases "c k = h")
    case True
    then have "canon_link (v_header w) c m" if "m \<le> k" for m using Suc.prems(7) [of k m] that p(3) by simp
    with True c Suc.prems(1,3) show ?thesis by auto
  next
    case False
    then have k: "k \<noteq> 0" using p(9) Suc.prems(5) by auto
    then obtain p' where p': "v_header w (hd_ParentHash p) (k - 1) = Some p'" using p(10) by blast
    define hc1 where "hc1 = hc\<lparr>hc_db := WriteCanonicalHash h k (hc_db hc)\<rparr>"
    have v1: "chain_view (hc_db hc1) = w\<lparr>v_canonical := c(k := h)\<rparr>"
      using Suc.prems(1) hs by (simp add: hc1_def WriteCanonicalHash_def view_canonical)
    have ok1: "headers_ok kec g (chain_view (hc_db hc1))" "caches_ok (chain_view (hc_db hc1)) hc1"
      "v_header (chain_view (hc_db hc1)) (hd_ParentHash p) (k - 1) = Some p'"
      using Suc.prems(2,3) p' by (simp_all add: v1 headers_ok_def caches_ok_def) (simp_all add: hc1_def)
    from hc_GetHeader_ok [OF ok1] obtain hc2 where
      2: "hc_GetHeader (hd_ParentHash p) (k - 1) hc1 = (Some p', hc2)" "hc_same hc1 hc2" "caches_ok (chain_view (hc_db hc1)) hc2" by blast
    have c2: "chain_view (hc_db hc2) = w\<lparr>v_canonical := c(k := h)\<rparr>" "caches_ok w hc2"
      using 2(2,3) v1 by (simp_all add: hc_same_def caches_ok_def)
    have link: "canon_link (v_header w) (c(k := h)) m'" if "m \<le> k - 1" "(c(k := h)) m \<noteq> zeroHash" "m' \<le> m" for m m'
    proof -
      have lt: "m < k" using that(1) u64_le_pred [OF k] by simp
      with that(3) have lt': "m' < k" by simp
      have "c m \<noteq> zeroHash" using that(2) less_imp_neq [OF lt] by simp
      then have "canon_link (v_header w) c m'" using Suc.prems(7) less_imp_le [OF lt] that(3) by blast
      moreover have "m' - 1 \<noteq> k" if "m' \<noteq> 0" using that lt' by unat_arith
      ultimately show ?thesis using lt' by (auto simp: canon_link_def)
    qed
    have f: "unat (k - 1) < fuel" using Suc.prems(6) unat_pred [OF k] k by (auto simp flip: unat_eq_0)
    have "\<exists>hc' c'. overwrite_below fuel (hd_ParentHash p) (k - 1) (Some p') hc2 = Ok hc' \<and> chain_view (hc_db hc') = w\<lparr>v_canonical := c'\<rparr>
        \<and> caches_ok w hc' \<and> hc_genesisHeader hc' = hc_genesisHeader hc2
        \<and> c' (k - 1) = hd_ParentHash p \<and> (\<forall>m. k - 1 < m \<longrightarrow> c' m = (c(k := h)) m) \<and> (\<forall>m. m \<le> k - 1 \<longrightarrow> canon_link (v_header w) c' m)"
      by (rule Suc.IH [OF c2(1) Suc.prems(2) c2(2) p' _ f link]) (use k Suc.prems(5) in auto)
    then obtain hc' c' where 3: "overwrite_below fuel (hd_ParentHash p) (k - 1) (Some p') hc2 = Ok hc'"
      "chain_view (hc_db hc') = w\<lparr>v_canonical := c'\<rparr>" "caches_ok w hc'" "hc_genesisHeader hc' = hc_genesisHeader hc2"
      "c' (k - 1) = hd_ParentHash p" "\<And>m. k - 1 < m \<Longrightarrow> c' m = (c(k := h)) m" "\<And>m. m \<le> k - 1 \<Longrightarrow> canon_link (v_header w) c' m" by blast
    have kk: "k - 1 < k" "\<And>m. k < m \<Longrightarrow> k - 1 < m" using k by unat_arith+
    have "c' k = h" "\<And>m. k < m \<Longrightarrow> c' m = c m" using 3(6) kk by auto
    moreover have "canon_link (v_header w) c' m" if "m \<le> k" for m
      using 3(5) 3(7) [of m] Suc.prems(4) \<open>c' k = h\<close> that u64_le_pred [OF k] by (cases "m = k") (auto simp: canon_link_def)
    moreover have "overwrite_below (Suc fuel) h k (Some p) hc = Ok hc'"
      using False c 2(1) 3(1) p(5) by (simp flip: hc1_def)
    ultimately show ?thesis using 3(2-4) 2(2) by (auto simp: hc_same_def hc1_def)
  qed
qed simp

section \<open>Importing a header\<close>

text \<open>The store after the header and its total difficulty are written.\<close>

definition view_import :: "(bytes \<Rightarrow> bytes) \<Rightarrow> Header \<Rightarrow> int \<Rightarrow> chain_view \<Rightarrow> chain_view" where
  "view_import kec x td w =
     view_header kec x (w\<lparr>v_td := upd2 (v_td w) (Header_Hash kec x) (Uint64 (hd_Number x)) (Some td)\<rparr>)"

text \<open>What a caller must know of a header: its parent is stored, and no other header has its hash.\<close>

definition importable :: "(bytes \<Rightarrow> bytes) \<Rightarrow> Header \<Rightarrow> chain_view \<Rightarrow> bool" where
  "importable kec x w \<longleftrightarrow>
     header_ok x \<and> 0 < hd_Number x \<and> hd_Number x < 2 ^ 64 - 1 \<and> Header_Hash kec x \<noteq> zeroHash
     \<and> v_header w (hd_ParentHash x) (Uint64 (hd_Number x) - 1) \<noteq> None
     \<and> (\<forall>n y. v_header w (Header_Hash kec x) n = Some y \<longrightarrow> y = x)
     \<and> (\<forall>ptd. v_td w (hd_ParentHash x) (Uint64 (hd_Number x) - 1) = Some ptd \<longrightarrow> td_ok (hd_Difficulty x + ptd))"

lemma importable_number:
  assumes "importable kec x w"
  shows "hd_Number x = uint (Uint64 (hd_Number x))" "Uint64 (hd_Number x) \<noteq> 0" "Uint64 (hd_Number x) \<noteq> missingNumber"
proof -
  have b: "0 < hd_Number x" "hd_Number x < 2 ^ 64 - 1" using assms by (simp_all add: importable_def)
  then show u: "hd_Number x = uint (Uint64 (hd_Number x))"
    by (simp add: Uint64_def uint_word_of_int)
  show "Uint64 (hd_Number x) \<noteq> 0" using b u by auto
  show "Uint64 (hd_Number x) \<noteq> missingNumber" using b u by (auto simp: missingNumber_def)
qed

lemma view_import_stored:
  assumes "headers_ok kec g w" "importable kec x w" "v_td w (hd_ParentHash x) (Uint64 (hd_Number x) - 1) = Some ptd"
    and "v_header w h n = Some y"
  shows "v_header (view_import kec x (hd_Difficulty x + ptd) w) h n = Some y" "v_number (view_import kec x (hd_Difficulty x + ptd) w) h = n"
    "v_td (view_import kec x (hd_Difficulty x + ptd) w) h n = v_td w h n"
proof -
  note y = headers_okD [OF assms(1,4)]
  have same: "y = x" if "h = Header_Hash kec x" using assms(2,4) that by (auto simp: importable_def)
  show "v_header (view_import kec x (hd_Difficulty x + ptd) w) h n = Some y"
    using same assms(4) by (auto simp: view_import_def view_header_def Let_def upd2_def)
  show "v_number (view_import kec x (hd_Difficulty x + ptd) w) h = n"
    using same y by (auto simp: view_import_def view_header_def Let_def)
  show "v_td (view_import kec x (hd_Difficulty x + ptd) w) h n = v_td w h n"
  proof (cases "h = Header_Hash kec x \<and> n = Uint64 (hd_Number x)")
    case True
    with same y(8) importable_number(2) [OF assms(2)] assms(3)
    show ?thesis by (auto simp: view_import_def view_header_def Let_def upd2_def)
  next
    case False
    then show ?thesis by (auto simp: view_import_def view_header_def Let_def upd2_def)
  qed
qed

lemma view_import_new:
  "v_header (view_import kec x td w) (Header_Hash kec x) (Uint64 (hd_Number x)) = Some x"
  "v_td (view_import kec x td w) (Header_Hash kec x) (Uint64 (hd_Number x)) = Some td"
  "v_number (view_import kec x td w) (Header_Hash kec x) = Uint64 (hd_Number x)"
  "v_canonical (view_import kec x td w) = v_canonical w"
  by (simp_all add: view_import_def view_header_def Let_def upd2_def)

lemma view_import_cases:
  "v_header (view_import kec x td w) h n = Some y
    \<Longrightarrow> h = Header_Hash kec x \<and> n = Uint64 (hd_Number x) \<and> y = x \<or> v_header w h n = Some y"
  by (auto simp: view_import_def view_header_def Let_def upd2_def split: if_splits)

lemma view_import_headers_ok:
  assumes "headers_ok kec g w" "importable kec x w" "v_td w (hd_ParentHash x) (Uint64 (hd_Number x) - 1) = Some ptd"
  shows "headers_ok kec g (view_import kec x (hd_Difficulty x + ptd) w)"
  unfolding headers_ok_def
proof (intro allI impI)
  let ?w = "view_import kec x (hd_Difficulty x + ptd) w"
  note kept = view_import_stored [OF assms]
  fix h n y
  assume "v_header ?w h n = Some y"
  then consider "h = Header_Hash kec x" "n = Uint64 (hd_Number x)" "y = x" | "v_header w h n = Some y"
    using view_import_cases by blast
  then show "header_ok y \<and> Header_Hash kec y = h \<and> h \<noteq> zeroHash \<and> hd_Number y = uint n \<and> n \<noteq> missingNumber \<and> v_number ?w h = n
        \<and> (\<exists>td. v_td ?w h n = Some td \<and> (n \<noteq> 0 \<longrightarrow> (\<exists>ptd. v_td ?w (hd_ParentHash y) (n - 1) = Some ptd \<and> td = hd_Difficulty y + ptd)))
        \<and> (if n = 0 then h = g else v_header ?w (hd_ParentHash y) (n - 1) \<noteq> None)"
  proof cases
    case 1
    obtain p where p: "v_header w (hd_ParentHash x) (Uint64 (hd_Number x) - 1) = Some p"
      using assms(2) by (auto simp: importable_def)
    show ?thesis
      using 1 assms(2,3) importable_number [OF assms(2)] kept [OF p] view_import_new [of kec x _ w] by (auto simp: importable_def)
  next
    case 2
    note y = headers_okD [OF assms(1) 2]
    show ?thesis
    proof (cases "n = 0")
      case True
      with y kept [OF 2] show ?thesis by auto
    next
      case False
      then obtain p where p: "v_header w (hd_ParentHash y) (n - 1) = Some p" using y(10) by blast
      from False y kept [OF 2] kept [OF p] show ?thesis by auto
    qed
  qed
qed

lemma view_import_caches_ok:
  assumes "headers_ok kec g w" "importable kec x w" "v_td w (hd_ParentHash x) (Uint64 (hd_Number x) - 1) = Some ptd" "caches_ok w hc"
  shows "caches_ok (view_import kec x (hd_Difficulty x + ptd) w) hc"
proof -
  note kept = view_import_stored [OF assms(1-3)]
  from assms(4) show ?thesis
    unfolding caches_ok_def by (elim conjE) (intro conjI; erule lru_all_mono; metis kept)
qed

lemma canonical_ok_nonzero:
  assumes "headers_ok kec g w" "canonical_ok w head n" "m \<le> n"
  shows "v_canonical w m \<noteq> zeroHash"
  using assms headers_okD(3) by (fastforce simp: canonical_ok_def canon_link_def)

lemma canonical_ok_genesis:
  assumes "headers_ok kec g w" "canonical_ok w head n"
  shows "v_canonical w 0 = g"
proof -
  from assms(2) have "canon_link (v_header w) (v_canonical w) 0" by (simp add: canonical_ok_def)
  then obtain y where "v_header w (v_canonical w 0) 0 = Some y" by (auto simp: canon_link_def)
  from headers_okD(9) [OF assms(1) this] show ?thesis by simp
qed

text \<open>The canonical numbers after the loops of \<^verbatim>\<open>WriteHeader\<close>, which follow the new header from the genesis on.\<close>

lemma reorganise_ok:
  assumes kl: "\<And>x. length (kec x) = 32"
    and w: "headers_ok kec g w" "caches_ok w hc" "canonical_ok w head n" "n \<noteq> missingNumber" "chain_view (hc_db hc) = w"
    and x: "v_header w (Header_Hash kec x) k = Some x" "k \<noteq> 0" "unat n + 1 < fuel" "unat k < fuel"
  shows "\<exists>db hc2 hc3 p c. delete_above fuel (k + 1) (hc_db hc) = Ok db
    \<and> hc_GetHeader (hd_ParentHash x) (k - 1) (hc\<lparr>hc_db := db\<rparr>) = (Some p, hc2)
    \<and> overwrite_below fuel (hd_ParentHash x) (k - 1) (Some p) hc2 = Ok hc3 \<and> caches_ok w hc3
    \<and> chain_view (WriteCanonicalHash (Header_Hash kec x) k (hc_db hc3)) = w\<lparr>v_canonical := c\<rparr>
    \<and> canonical_ok (w\<lparr>v_canonical := c\<rparr>) (Header_Hash kec x) k"
proof -
  note xk = headers_okD [OF w(1) x(1)]
  let ?c = "\<lambda>m. if k < m then zeroHash else v_canonical w m"
  have can: "GetCanonicalHash (hc_db hc) = v_canonical w" using w(5) by (auto simp: chain_view_def)
  have k1: "k + 1 \<noteq> 0" using unat_succ [OF xk(6)] by auto
  have "\<exists>db. delete_above fuel (k + 1) (hc_db hc) = Ok db
      \<and> chain_view db = (chain_view (hc_db hc))\<lparr>v_canonical := (\<lambda>m. if k + 1 \<le> m then zeroHash else GetCanonicalHash (hc_db hc) m)\<rparr>"
    by (rule delete_above_ok [of n]) (use w(3,4) x(3) k1 canonical_ok_nonzero [OF w(1,3)] in \<open>auto simp: can canonical_ok_def\<close>)
  then obtain db where db: "delete_above fuel (k + 1) (hc_db hc) = Ok db" "chain_view db = w\<lparr>v_canonical := ?c\<rparr>"
    unfolding can w(5) u64_gt_succ [OF xk(6)] by blast
  obtain p where p: "v_header w (hd_ParentHash x) (k - 1) = Some p" using xk(10) x(2) by blast
  have ok1: "headers_ok kec g (chain_view (hc_db (hc\<lparr>hc_db := db\<rparr>)))" "caches_ok (chain_view (hc_db (hc\<lparr>hc_db := db\<rparr>))) (hc\<lparr>hc_db := db\<rparr>)"
    "v_header (chain_view (hc_db (hc\<lparr>hc_db := db\<rparr>))) (hd_ParentHash x) (k - 1) = Some p"
    using w(1,2) p by (simp_all add: db(2) headers_ok_def caches_ok_def)
  from hc_GetHeader_ok [OF ok1] obtain hc2 where
    2: "hc_GetHeader (hd_ParentHash x) (k - 1) (hc\<lparr>hc_db := db\<rparr>) = (Some p, hc2)" "hc_same (hc\<lparr>hc_db := db\<rparr>) hc2" "caches_ok (chain_view db) hc2"
    by auto
  have v2: "chain_view (hc_db hc2) = w\<lparr>v_canonical := ?c\<rparr>" "caches_ok w hc2"
    using 2(2,3) db(2) by (simp_all add: hc_same_def caches_ok_def)
  have kk: "k - 1 < k" "\<And>m. m \<le> k - 1 \<longleftrightarrow> m < k" using x(2) by unat_arith+
  have down: "canon_link (v_header w) ?c m'" if m: "m \<le> k - 1" "?c m \<noteq> zeroHash" "m' \<le> m" for m m'
  proof -
    have lt: "m < k" using m(1) kk(2) by blast
    then have "v_canonical w m \<noteq> zeroHash" using m(2) by (auto split: if_splits)
    then have "m \<le> n" using w(3) by (auto simp: canonical_ok_def not_less [symmetric])
    then have l: "canon_link (v_header w) (v_canonical w) m'" using w(3) m(3) by (auto simp: canonical_ok_def)
    have "m' < k" using m(3) lt by simp
    moreover have "m' - 1 < k" if "m' \<noteq> 0" using that \<open>m' < k\<close> by unat_arith
    ultimately show ?thesis using l by (auto simp: canon_link_def)
  qed
  have "\<exists>hc' c'. overwrite_below fuel (hd_ParentHash x) (k - 1) (Some p) hc2 = Ok hc' \<and> chain_view (hc_db hc') = w\<lparr>v_canonical := c'\<rparr>
      \<and> caches_ok w hc' \<and> hc_genesisHeader hc' = hc_genesisHeader hc2 \<and> c' (k - 1) = hd_ParentHash x
      \<and> (\<forall>m. k - 1 < m \<longrightarrow> c' m = ?c m) \<and> (\<forall>m. m \<le> k - 1 \<longrightarrow> canon_link (v_header w) c' m)"
    by (rule overwrite_below_ok [OF v2(1) w(1) v2(2) p])
      (use down canonical_ok_genesis [OF w(1,3)] x(4) unat_pred [OF x(2)] in auto)
  then obtain hc3 c' where 3: "overwrite_below fuel (hd_ParentHash x) (k - 1) (Some p) hc2 = Ok hc3"
    "chain_view (hc_db hc3) = w\<lparr>v_canonical := c'\<rparr>" "caches_ok w hc3" "c' (k - 1) = hd_ParentHash x"
    "\<And>m. k - 1 < m \<Longrightarrow> c' m = ?c m" "\<And>m. m \<le> k - 1 \<Longrightarrow> canon_link (v_header w) c' m" by blast
  let ?c' = "c'(k := Header_Hash kec x)"
  have v4: "chain_view (WriteCanonicalHash (Header_Hash kec x) k (hc_db hc3)) = w\<lparr>v_canonical := ?c'\<rparr>"
    using 3(2) Header_Hash_hashes [of kec x, OF kl] by (simp add: WriteCanonicalHash_def view_canonical)
  have "canon_link (v_header w) ?c' m" if "m \<le> k" for m
  proof (cases "m = k")
    case True
    then show ?thesis using x(1) 3(4) kk(1) by (auto simp: canon_link_def)
  next
    case False
    then have lt: "m < k" using that by simp
    then have "m - 1 \<noteq> k" if "m \<noteq> 0" using that by unat_arith
    then show ?thesis using 3(6) [of m] kk(2) lt by (auto simp: canon_link_def)
  qed
  moreover have "?c' m = zeroHash" if "k < m" for m using 3(5) [of m] that kk(1) by (auto simp: less_trans)
  ultimately have "canonical_ok (w\<lparr>v_canonical := ?c'\<rparr>) (Header_Hash kec x) k" by (simp add: canonical_ok_def)
  with db(1) 2(1) 3(1,3) v4 show ?thesis by blast
qed

text \<open>No stored header has a higher total difficulty than the one of hash \<open>h\<close> and number \<open>n\<close>.\<close>

definition heaviest :: "chain_view \<Rightarrow> hash \<Rightarrow> u64 \<Rightarrow> bool" where
  "heaviest w h n \<longleftrightarrow>
     (\<exists>ltd. v_td w h n = Some ltd \<and> (\<forall>h' n' y td. v_header w h' n' = Some y \<and> v_td w h' n' = Some td \<longrightarrow> td \<le> ltd))"

lemma heaviest_import:
  assumes w: "headers_ok kec g w" "importable kec x w" "v_td w (hd_ParentHash x) (Uint64 (hd_Number x) - 1) = Some ptd"
    and hv: "heaviest w h n" "v_header w h n = Some y" "v_td w h n = Some ltd"
  shows "hd_Difficulty x + ptd \<le> ltd \<Longrightarrow> heaviest (view_import kec x (hd_Difficulty x + ptd) w) h n"
    "ltd \<le> hd_Difficulty x + ptd \<Longrightarrow> heaviest (view_import kec x (hd_Difficulty x + ptd) w) (Header_Hash kec x) (Uint64 (hd_Number x))"
proof -
  let ?td = "hd_Difficulty x + ptd"
  let ?w = "view_import kec x ?td w"
  have le: "td \<le> max ?td ltd" if "v_header ?w h' n' = Some z" "v_td ?w h' n' = Some td" for h' n' z td
    using view_import_cases [OF that(1)]
  proof
    assume "h' = Header_Hash kec x \<and> n' = Uint64 (hd_Number x) \<and> z = x"
    then show ?thesis using that(2) view_import_new(2) [of kec x ?td w] by auto
  next
    assume old: "v_header w h' n' = Some z"
    then have "v_td w h' n' = Some td" using that(2) view_import_stored(3) [OF w old] by simp
    with old hv show ?thesis by (fastforce simp: heaviest_def)
  qed
  show "heaviest ?w h n" if "?td \<le> ltd"
    unfolding heaviest_def using that le view_import_stored(3) [OF w hv(2)] hv(3) by (fastforce simp: max_def)
  show "heaviest ?w (Header_Hash kec x) (Uint64 (hd_Number x))" if "ltd \<le> ?td"
    unfolding heaviest_def using that le view_import_new(2) [of kec x ?td w] by (fastforce simp: max_def)
qed

text \<open>The part of \<^verbatim>\<open>WriteHeader\<close> that both branches share.\<close>

lemma WriteHeader_stored:
  assumes kl: "\<And>x. length (kec x) = 32"
    and inv: "headers_ok kec g (chain_view (hc_db hc))" "caches_ok (chain_view (hc_db hc)) hc"
    and cur: "v_header (chain_view (hc_db hc)) h n = Some y"
    and x: "importable kec x (chain_view (hc_db hc))"
  shows "\<exists>ptd ltd hc1 hc2 hc3 db. v_td (chain_view (hc_db hc)) (hd_ParentHash x) (Uint64 (hd_Number x) - 1) = Some ptd
    \<and> v_td (chain_view (hc_db hc)) h n = Some ltd
    \<and> hc_GetTd (hd_ParentHash x) (Uint64 (hd_Number x) - 1) hc = (Some ptd, hc1) \<and> hc_same hc hc1
    \<and> hc_GetTd h n hc1 = (Some ltd, hc2)
    \<and> hc_WriteTd (Header_Hash kec x) (Uint64 (hd_Number x)) (hd_Difficulty x + ptd) hc2 = Ok hc3
    \<and> WriteHeader kec x (hc_db hc3) = Ok db
    \<and> hc_same (hc\<lparr>hc_db := db\<rparr>) (hc3\<lparr>hc_db := db\<rparr>)
    \<and> chain_view db = view_import kec x (hd_Difficulty x + ptd) (chain_view (hc_db hc))
    \<and> caches_ok (chain_view db) (hc3\<lparr>hc_db := db\<rparr>)"
proof -
  let ?w = "chain_view (hc_db hc)" and ?h = "Header_Hash kec x" and ?n = "Uint64 (hd_Number x)"
  obtain p where p: "v_header ?w (hd_ParentHash x) (?n - 1) = Some p" using x by (auto simp: importable_def)
  obtain ptd where ptd: "v_td ?w (hd_ParentHash x) (?n - 1) = Some ptd" using headers_okD(8) [OF inv(1) p] by blast
  obtain ltd where ltd: "v_td ?w h n = Some ltd" using headers_okD(8) [OF inv(1) cur] by blast
  from hc_GetTd_ok [OF inv p] ptd obtain hc1 where
    1: "hc_GetTd (hd_ParentHash x) (?n - 1) hc = (Some ptd, hc1)" "hc_same hc hc1" "caches_ok ?w hc1" by auto
  have db1: "hc_db hc1 = hc_db hc" using 1(2) by (simp add: hc_same_def)
  from hc_GetTd_ok [of kec g hc1 h n y] inv(1) 1(3) cur ltd obtain hc2 where
    2: "hc_GetTd h n hc1 = (Some ltd, hc2)" "hc_same hc1 hc2" "caches_ok ?w hc2" by (auto simp: db1)
  have same2: "hc_same hc hc2" using 1(2) 2(2) by (simp add: hc_same_def)
  let ?td = "hd_Difficulty x + ptd"
  have h: "?h \<in> hashes" using Header_Hash_hashes [of kec x, OF kl] .
  have "td_ok ?td" "header_ok x" using x ptd by (auto simp: importable_def)
  from WriteTd_view [OF h this(1), of ?n "hc_db hc"] obtain db1' where
    3: "WriteTd ?h ?n ?td (hc_db hc) = Ok db1'" "chain_view db1' = ?w\<lparr>v_td := upd2 (v_td ?w) ?h ?n (Some ?td)\<rparr>" by blast
  define hc3 where "hc3 = hc2\<lparr>hc_db := db1', hc_tdCache := Lru_Add ?h ?td (hc_tdCache hc2)\<rparr>"
  from WriteHeader_view [of kec x db1', OF kl \<open>header_ok x\<close>] obtain db where
    4: "WriteHeader kec x db1' = Ok db" "chain_view db = view_header kec x (chain_view db1')" by blast
  have v: "chain_view db = view_import kec x ?td ?w" using 4(2) 3(2) by (simp add: view_import_def)
  have "caches_ok (chain_view db) hc2" unfolding v by (rule view_import_caches_ok [OF inv(1) x ptd 2(3)])
  then have "caches_ok (chain_view db) (hc3\<lparr>hc_db := db\<rparr>)"
    unfolding caches_ok_def hc3_def using view_import_new(1,2) [of kec x ?td ?w] unfolding v
    by (auto intro!: lru_all_Add)
  moreover have "hc_WriteTd ?h ?n ?td hc2 = Ok hc3" using 3(1) same2 by (simp add: hc_WriteTd_def hc3_def hc_same_def)
  moreover have "WriteHeader kec x (hc_db hc3) = Ok db" using 4(1) by (simp add: hc3_def)
  moreover have "hc_same (hc\<lparr>hc_db := db\<rparr>) (hc3\<lparr>hc_db := db\<rparr>)" using same2 by (simp add: hc_same_def hc3_def)
  ultimately show ?thesis using ptd ltd 1(1,2) 2(1) v by blast
qed

lemma ok_unaffected [simp]:
  "headers_ok kec g (w\<lparr>v_canonical := c\<rparr>) \<longleftrightarrow> headers_ok kec g w" "headers_ok kec g (w\<lparr>v_headHeader := hh\<rparr>) \<longleftrightarrow> headers_ok kec g w"
  "caches_ok (w\<lparr>v_canonical := c\<rparr>) hc \<longleftrightarrow> caches_ok w hc" "caches_ok (w\<lparr>v_headHeader := hh\<rparr>) hc \<longleftrightarrow> caches_ok w hc"
  "canonical_ok (w\<lparr>v_headHeader := hh\<rparr>) h n \<longleftrightarrow> canonical_ok w h n"
  by (simp_all add: headers_ok_def caches_ok_def canonical_ok_def)

lemma hc_invD:
  assumes "hc_inv kec g hc" "hc_currentHeader hc = Some y"
  shows "headers_ok kec g (chain_view (hc_db hc))" "caches_ok (chain_view (hc_db hc)) hc" "hc_currentHeaderHash hc = Header_Hash kec y"
    "v_header (chain_view (hc_db hc)) (Header_Hash kec y) (Uint64 (hd_Number y)) = Some y"
    "canonical_ok (chain_view (hc_db hc)) (Header_Hash kec y) (Uint64 (hd_Number y))"
  using assms by (auto simp: hc_inv_def Let_def)

lemma hc_invI:
  assumes "chain_view (hc_db hc) = w\<lparr>v_canonical := c, v_headHeader := hh\<rparr>" "headers_ok kec g w" "caches_ok w hc"
    and "hc_currentHeader hc = Some y" "hc_currentHeaderHash hc = Header_Hash kec y" "v_header w (Header_Hash kec y) (Uint64 (hd_Number y)) = Some y"
    and "canonical_ok (w\<lparr>v_canonical := c\<rparr>) (Header_Hash kec y) (Uint64 (hd_Number y))"
  shows "hc_inv kec g hc"
  using assms by (simp add: hc_inv_def)

lemma canonical_ok_import:
  assumes "headers_ok kec g w" "importable kec x w" "v_td w (hd_ParentHash x) (Uint64 (hd_Number x) - 1) = Some ptd" "canonical_ok w head n"
  shows "canonical_ok (view_import kec x (hd_Difficulty x + ptd) w) head n"
  using assms(4) view_import_stored(1) [OF assms(1-3)]
  by (fastforce simp: canonical_ok_def canon_link_def view_import_new(4))

text \<open>When the header imported is preferred to the current one.\<close>

definition outweighs :: "bool \<Rightarrow> int \<Rightarrow> int \<Rightarrow> bool" where
  "outweighs coin externTd localTd \<longleftrightarrow> externTd > localTd \<or> externTd = localTd \<and> coin"


section \<open>The genesis\<close>

text \<open>A store with the genesis alone, as \<^verbatim>\<open>NewHeaderChain\<close> finds it.\<close>

definition genesis_view :: "(bytes \<Rightarrow> bytes) \<Rightarrow> Header \<Rightarrow> chain_view \<Rightarrow> bool" where
  "genesis_view kec x w \<longleftrightarrow>
     header_ok x \<and> hd_Number x = 0 \<and> Header_Hash kec x \<noteq> zeroHash
     \<and> v_header w = upd2 (\<lambda>_ _. None) (Header_Hash kec x) 0 (Some x) \<and> v_number w (Header_Hash kec x) = 0
     \<and> v_td w (Header_Hash kec x) 0 = Some (hd_Difficulty x) \<and> v_canonical w = (\<lambda>_. zeroHash)(0 := Header_Hash kec x)
     \<and> v_headBlock w \<in> {zeroHash, Header_Hash kec x}"

lemma genesis_view_ok:
  assumes "genesis_view kec x w"
  shows "headers_ok kec (Header_Hash kec x) w" "canonical_ok w (Header_Hash kec x) 0" "heaviest w (Header_Hash kec x) 0"
proof -
  have h: "v_header w h n = Some y \<longleftrightarrow> h = Header_Hash kec x \<and> n = 0 \<and> y = x" for h n y
    using assms by (auto simp: genesis_view_def upd2_def)
  show "headers_ok kec (Header_Hash kec x) w"
    unfolding headers_ok_def h using assms by (auto simp: genesis_view_def missingNumber_def)
  show "canonical_ok w (Header_Hash kec x) 0"
    unfolding canonical_ok_def canon_link_def h using assms by (auto simp: genesis_view_def)
  show "heaviest w (Header_Hash kec x) 0"
    unfolding heaviest_def h using assms by (auto simp: genesis_view_def)
qed

lemma NewHeaderChain_genesis:
  assumes kl: "\<And>x. length (kec x) = 32" and g: "genesis_view kec x (chain_view db)"
  shows "\<exists>hc. NewHeaderChain kec db = Ok hc \<and> hc_inv kec (Header_Hash kec x) hc \<and> hc_currentHeader hc = Some x \<and> hc_db hc = db"
proof -
  let ?h = "Header_Hash kec x"
  have h: "?h \<in> hashes" using Header_Hash_hashes [of kec x, OF kl] .
  have stored: "v_header (chain_view db) ?h 0 = Some x" using g by (simp add: genesis_view_def upd2_def)
  have r: "GetCanonicalHash db 0 = ?h" "GetHeader db ?h 0 = Some x" "GetBlockNumber db ?h = 0" "GetHeadBlockHash db = zeroHash \<or> GetHeadBlockHash db = ?h" "?h \<noteq> zeroHash" "hd_Number x = 0"
    using g h v_header_hashes [OF stored] by (auto simp: genesis_view_def chain_view_def)
  have c: "canonical_ok (chain_view db) ?h 0" "headers_ok kec ?h (chain_view db)" using genesis_view_ok [OF g] by simp_all
  show ?thesis
    using r(4) r(1-3,5,6) c stored
    by (elim disjE) (auto simp: NewHeaderChain_def NewLRU_def headerCacheLimit_def tdCacheLimit_def numberCacheLimit_def Let_def hc_GetHeaderByHash_def
        hc_GetBlockNumber_def Lru_Get_def Lru_Add_def Lru_Contains_def hc_GetHeader_def to_front_def missingNumber_def hc_inv_def caches_ok_def lru_all_def)
qed

lemma sample_genesis:
  "\<exists>db. chain_steps tail_hash [HeaderW (sample_header 3 zeroHash 0 (replicate 32 1)), TdW (replicate 32 1) 0 3, CanonicalW (replicate 32 1) 0] Map.empty = Ok db
    \<and> genesis_view tail_hash (sample_header 3 zeroHash 0 (replicate 32 1)) (chain_view db)"
proof -
  let ?x = "sample_header 3 zeroHash 0 (replicate 32 1)" and ?h = "replicate 32 1 :: hash"
  have x: "header_ok ?x" "Header_Hash tail_hash ?x = ?h" by (simp_all add: sample_header_ok sample_header_hash zeroHash_def HashLength_def)
  have td: "td_ok 3" by (simp add: td_ok_def encodable_def rlp_str_def big_bytes.simps)
  have h: "?h \<in> hashes" by (simp add: hashes_def HashLength_def)
  from chain_step_view [of tail_hash "HeaderW ?x" Map.empty, OF length_tail_hash] x obtain db1 where
    1: "chain_step tail_hash (HeaderW ?x) Map.empty = Ok db1" "chain_view db1 = view_step tail_hash (HeaderW ?x) (chain_view Map.empty)" by auto
  from chain_step_view [of tail_hash "TdW ?h 0 3" db1, OF length_tail_hash] td h obtain db2 where
    2: "chain_step tail_hash (TdW ?h 0 3) db1 = Ok db2" "chain_view db2 = view_step tail_hash (TdW ?h 0 3) (chain_view db1)" by auto
  from chain_step_view [of tail_hash "CanonicalW ?h 0" db2, OF length_tail_hash] h obtain db where
    3: "chain_step tail_hash (CanonicalW ?h 0) db2 = Ok db" "chain_view db = view_step tail_hash (CanonicalW ?h 0) (chain_view db2)" by auto
  have e: "v_header (chain_view Map.empty) = (\<lambda>_ _. None)" "v_canonical (chain_view Map.empty) = (\<lambda>_. zeroHash)" "v_headBlock (chain_view Map.empty) = zeroHash"
    by (auto simp: view_simps BytesToHash_def set_bytes_def zeroHash_def)
  have n: "hd_Number ?x = 0" "hd_Difficulty ?x = 3" by (simp_all add: sample_header_def)
  have "genesis_view tail_hash ?x (chain_view db)"
    unfolding genesis_view_def 3(2) 2(2) 1(2) using x e n by (simp add: view_header_def Let_def upd2_def zeroHash_def HashLength_def)
  with 1(1) 2(1) 3(1) show ?thesis by auto
qed

text \<open>A chain with the sample genesis, and a header on top of it.\<close>

lemma sample_chain:
  defines "gx \<equiv> sample_header 3 zeroHash 0 (replicate 32 1)" and "x \<equiv> sample_header 3 (replicate 32 1) 1 (replicate 32 2)"
  shows "\<exists>db hc. chain_steps tail_hash [HeaderW gx, TdW (replicate 32 1) 0 3, CanonicalW (replicate 32 1) 0] Map.empty = Ok db
    \<and> genesis_view tail_hash gx (chain_view db) \<and> NewHeaderChain tail_hash db = Ok hc \<and> hc_inv tail_hash (replicate 32 1) hc
    \<and> hc_currentHeader hc = Some gx \<and> hc_db hc = db \<and> importable tail_hash x (chain_view db)
    \<and> v_td (chain_view db) (replicate 32 1) 0 = Some 3"
proof -
  have hg: "Header_Hash tail_hash gx = replicate 32 1" "Header_Hash tail_hash x = replicate 32 2" and ok: "header_ok x"
    by (simp_all add: gx_def x_def sample_header_ok sample_header_hash zeroHash_def HashLength_def)
  from sample_genesis obtain db where
    db: "chain_steps tail_hash [HeaderW gx, TdW (replicate 32 1) 0 3, CanonicalW (replicate 32 1) 0] Map.empty = Ok db" "genesis_view tail_hash gx (chain_view db)"
    unfolding gx_def by blast
  from NewHeaderChain_genesis [of tail_hash gx, OF length_tail_hash db(2)] obtain hc where
    hc: "NewHeaderChain tail_hash db = Ok hc" "hc_inv tail_hash (replicate 32 1) hc" "hc_currentHeader hc = Some gx" "hc_db hc = db"
    unfolding hg by blast
  have n: "hd_Number x = 1" "hd_Difficulty x = 3" "hd_ParentHash x = replicate 32 1" "hd_Difficulty gx = 3" "Uint64 1 = 1"
    by (simp_all add: gx_def x_def sample_header_def Uint64_def)
  have w: "v_header (chain_view db) = upd2 (\<lambda>_ _. None) (replicate 32 1) 0 (Some gx)" "v_td (chain_view db) (replicate 32 1) 0 = Some 3"
    using db(2) by (simp_all add: genesis_view_def hg n)
  have td: "td_ok 6" by (simp add: td_ok_def encodable_def rlp_str_def big_bytes.simps)
  have "importable tail_hash x (chain_view db)"
    using ok td by (simp add: importable_def hg n w upd2_def zeroHash_def HashLength_def)
  with db hc w(2) show ?thesis by blast
qed


section \<open>The common ancestor\<close>

inductive ancestor :: "chain_view \<Rightarrow> Header \<Rightarrow> Header \<Rightarrow> bool" for w :: chain_view where
  ancestor_refl: "ancestor w x x"
| ancestor_step: "ancestor w d p \<Longrightarrow> v_header w (hd_ParentHash x) (Uint64 (hd_Number x) - 1) = Some p \<Longrightarrow> hd_Number x \<noteq> 0 \<Longrightarrow> ancestor w d x"

inductive_cases ancestorE: "ancestor w d x"

definition stored :: "(bytes \<Rightarrow> bytes) \<Rightarrow> chain_view \<Rightarrow> Header \<Rightarrow> bool" where
  "stored kec w x \<longleftrightarrow> v_header w (Header_Hash kec x) (Uint64 (hd_Number x)) = Some x"

lemma stored_parent:
  assumes "headers_ok kec g w" "stored kec w x" "hd_Number x \<noteq> 0"
  shows "\<exists>p. v_header w (hd_ParentHash x) (Uint64 (hd_Number x) - 1) = Some p \<and> stored kec w p \<and> hd_Number x = hd_Number p + 1"
proof -
  note x = headers_okD [OF assms(1) assms(2) [unfolded stored_def]]
  have n: "Uint64 (hd_Number x) \<noteq> 0" using x(4) assms(3) by auto
  then obtain p where p: "v_header w (hd_ParentHash x) (Uint64 (hd_Number x) - 1) = Some p" using x(10) by blast
  note p' = headers_okD [OF assms(1) p]
  have "uint (Uint64 (hd_Number x) - 1) = uint (Uint64 (hd_Number x)) - 1" using n by uint_arith
  then have "hd_Number x = hd_Number p + 1" using x(4) p'(4) by simp
  with p p'(2,5) show ?thesis by (auto simp: stored_def)
qed

lemma ancestor_number:
  assumes "headers_ok kec g w"
  shows "ancestor w d x \<Longrightarrow> stored kec w x \<Longrightarrow> stored kec w d \<and> hd_Number d \<le> hd_Number x"
proof (induction rule: ancestor.induct)
  case (ancestor_step d p x)
  with stored_parent [OF assms ancestor_step.prems] show ?case by auto
qed simp

lemma ancestor_trans: "ancestor w a b \<Longrightarrow> ancestor w c a \<Longrightarrow> ancestor w c b"
  by (induction rule: ancestor.induct) (auto intro: ancestor_step)

lemma stored_nonneg: "headers_ok kec g w \<Longrightarrow> stored kec w x \<Longrightarrow> 0 \<le> hd_Number x \<and> hd_Number x = uint (Uint64 (hd_Number x))"
  using headers_okD(1,4) header_ok_nonneg unfolding stored_def by blast

lemma stored_GetHeader:
  "stored kec (chain_view db) p \<Longrightarrow> v_header (chain_view db) h n = Some p \<Longrightarrow> GetHeader db h n = Some p"
  using v_header_hashes by blast

text \<open>Climbing to the number \<open>n\<close> keeps every ancestor of that number or below.\<close>

lemma climb_ok:
  assumes ok: "headers_ok kec g (chain_view db)"
  shows "stored kec (chain_view db) a \<Longrightarrow> nat (hd_Number a) < fuel \<Longrightarrow>
    \<exists>c. climb db fuel n a = Ok (Some c) \<and> stored kec (chain_view db) c \<and> ancestor (chain_view db) c a \<and> hd_Number c = min (hd_Number a) (uint n)
      \<and> (\<forall>d. ancestor (chain_view db) d a \<longrightarrow> hd_Number d \<le> uint n \<longrightarrow> ancestor (chain_view db) d c)"
proof (induction fuel arbitrary: a)
  case (Suc fuel)
  let ?w = "chain_view db"
  note a = stored_nonneg [OF ok Suc.prems(1)]
  show ?case
  proof (cases "Uint64 (hd_Number a) > n")
    case True
    then have gt: "hd_Number a > uint n" using a by (simp add: word_less_def)
    then have nz: "hd_Number a \<noteq> 0" using uint_nonnegative [of n] by linarith
    from stored_parent [OF ok Suc.prems(1) nz] obtain p where
      p: "v_header ?w (hd_ParentHash a) (Uint64 (hd_Number a) - 1) = Some p" "stored kec ?w p" "hd_Number a = hd_Number p + 1" by blast
    have f: "nat (hd_Number p) < fuel" using Suc.prems(2) p(3) stored_nonneg [OF ok p(2)] by linarith
    from Suc.IH [OF p(2) f] obtain c where
      c: "climb db fuel n p = Ok (Some c)" "stored kec ?w c" "ancestor ?w c p" "hd_Number c = min (hd_Number p) (uint n)"
        "\<And>d. ancestor ?w d p \<Longrightarrow> hd_Number d \<le> uint n \<Longrightarrow> ancestor ?w d c" by blast
    have "ancestor ?w d c" if "ancestor ?w d a" "hd_Number d \<le> uint n" for d
      using that(1) by (rule ancestorE) (use that(2) gt p(1) c(5) in auto)
    moreover have "ancestor ?w c a" using c(3) p(1) nz by (rule ancestor_step)
    moreover have "hd_Number c = min (hd_Number a) (uint n)" using c(4) p(3) gt by simp
    ultimately show ?thesis using True c(1,2) v_header_hashes [OF p(1)] by auto
  next
    case False
    then have "hd_Number a \<le> uint n" using a by (simp add: word_less_def)
    with False Suc.prems(1) show ?thesis by (auto intro: ancestor_refl)
  qed
qed simp

lemma climb_both_ok:
  assumes ok: "headers_ok kec g (chain_view db)"
  shows "stored kec (chain_view db) a \<Longrightarrow> stored kec (chain_view db) b \<Longrightarrow> hd_Number a = hd_Number b \<Longrightarrow> nat (hd_Number a) < fuel \<Longrightarrow>
    \<exists>c. climb_both kec db fuel a b = Ok (Some c) \<and> ancestor (chain_view db) c a \<and> ancestor (chain_view db) c b
      \<and> (\<forall>d. ancestor (chain_view db) d a \<longrightarrow> ancestor (chain_view db) d b \<longrightarrow> ancestor (chain_view db) d c)"
proof (induction fuel arbitrary: a b)
  case (Suc fuel)
  let ?w = "chain_view db"
  show ?case
  proof (cases "Header_Hash kec a = Header_Hash kec b")
    case True
    then have "a = b" using Suc.prems(1-3) by (simp add: stored_def)
    then show ?thesis by (auto intro: ancestor_refl)
  next
    case False
    have nz: "hd_Number a \<noteq> 0"
    proof
      assume "hd_Number a = 0"
      with Suc.prems(1-3) have "v_header ?w (Header_Hash kec a) 0 = Some a" "v_header ?w (Header_Hash kec b) 0 = Some b"
        by (auto simp: stored_def)
      from headers_okD(9) [OF ok this(1)] headers_okD(9) [OF ok this(2)] False show False by simp
    qed
    then have nzb: "hd_Number b \<noteq> 0" using Suc.prems(3) by simp
    from stored_parent [OF ok Suc.prems(1) nz] obtain p where
      p: "v_header ?w (hd_ParentHash a) (Uint64 (hd_Number a) - 1) = Some p" "stored kec ?w p" "hd_Number a = hd_Number p + 1" by blast
    from stored_parent [OF ok Suc.prems(2) nzb] obtain q where
      q: "v_header ?w (hd_ParentHash b) (Uint64 (hd_Number b) - 1) = Some q" "stored kec ?w q" "hd_Number b = hd_Number q + 1" by blast
    have f: "nat (hd_Number p) < fuel" using Suc.prems(4) p(3) stored_nonneg [OF ok p(2)] by linarith
    from Suc.IH [OF p(2) q(2) _ f] p(3) q(3) Suc.prems(3) obtain c where
      c: "climb_both kec db fuel p q = Ok (Some c)" "ancestor ?w c p" "ancestor ?w c q"
        "\<And>d. ancestor ?w d p \<Longrightarrow> ancestor ?w d q \<Longrightarrow> ancestor ?w d c" by auto
    have "ancestor ?w d c" if d: "ancestor ?w d a" "ancestor ?w d b" for d
    proof -
      have "d \<noteq> a" using d(2) by (rule ancestorE) (use False Suc.prems(3) q ancestor_number [OF ok _ q(2), of d] in auto)
      then have "ancestor ?w d p" using d(1) p(1) by (auto elim: ancestorE)
      have "d \<noteq> b" using d(1) by (rule ancestorE) (use False Suc.prems(3) p ancestor_number [OF ok _ p(2), of d] in auto)
      then have "ancestor ?w d q" using d(2) q(1) by (auto elim: ancestorE)
      with \<open>ancestor ?w d p\<close> show ?thesis by (rule c(4))
    qed
    moreover have "ancestor ?w c a" "ancestor ?w c b" using c(2,3) p(1) q(1) nz nzb by (blast intro: ancestor_step)+
    ultimately show ?thesis using False c(1) v_header_hashes [OF p(1)] v_header_hashes [OF q(1)] Suc.prems(3) by auto
  qed
qed simp

text \<open>
  C21: The common ancestor of two stored headers.  In a store whose headers form a tree under the genesis,
  \<^verbatim>\<open>FindCommonAncestor\<close> returns a header that is an ancestor of both and below which every other common ancestor lies.
  Each of its loops takes at most one step more than the higher of the two numbers.
\<close>

theorem FindCommonAncestor_last:
  assumes "headers_ok kec g (chain_view db)" "stored kec (chain_view db) a" "stored kec (chain_view db) b"
    and "nat (max (hd_Number a) (hd_Number b)) < fuel"
  shows "\<exists>c. FindCommonAncestor kec fuel db a b = Ok (Some c) \<and> ancestor (chain_view db) c a \<and> ancestor (chain_view db) c b
    \<and> (\<forall>d. ancestor (chain_view db) d a \<and> ancestor (chain_view db) d b \<longrightarrow> ancestor (chain_view db) d c)"
proof -
  let ?w = "chain_view db"
  note ab = stored_nonneg [OF assms(1,2)] stored_nonneg [OF assms(1,3)]
  have f: "nat (hd_Number a) < fuel" "nat (hd_Number b) < fuel" using assms(4) ab by auto
  from climb_ok [OF assms(1,2) f(1), of "Uint64 (hd_Number b)"] ab obtain a' where
    a': "climb db fuel (Uint64 (hd_Number b)) a = Ok (Some a')" "stored kec ?w a'" "ancestor ?w a' a" "hd_Number a' = min (hd_Number a) (hd_Number b)"
      "\<And>d. ancestor ?w d a \<Longrightarrow> hd_Number d \<le> hd_Number b \<Longrightarrow> ancestor ?w d a'" by auto
  from climb_ok [OF assms(1,3) f(2), of "Uint64 (hd_Number a')"] stored_nonneg [OF assms(1) a'(2)] obtain b' where
    b': "climb db fuel (Uint64 (hd_Number a')) b = Ok (Some b')" "stored kec ?w b'" "ancestor ?w b' b" "hd_Number b' = min (hd_Number b) (hd_Number a')"
      "\<And>d. ancestor ?w d b \<Longrightarrow> hd_Number d \<le> hd_Number a' \<Longrightarrow> ancestor ?w d b'" by auto
  have eq: "hd_Number a' = hd_Number b'" "nat (hd_Number a') < fuel" using a'(4) b'(4) f by auto
  from climb_both_ok [OF assms(1) a'(2) b'(2) eq] obtain c where
    c: "climb_both kec db fuel a' b' = Ok (Some c)" "ancestor ?w c a'" "ancestor ?w c b'"
      "\<And>d. ancestor ?w d a' \<Longrightarrow> ancestor ?w d b' \<Longrightarrow> ancestor ?w d c" by blast
  have "ancestor ?w d c" if "ancestor ?w d a" "ancestor ?w d b" for d
  proof -
    have n: "hd_Number d \<le> hd_Number a" "hd_Number d \<le> hd_Number b" using ancestor_number [OF assms(1)] that assms(2,3) by blast+
    with a'(4) have "hd_Number d \<le> hd_Number a'" by simp
    with n that a'(5) b'(5) c(4) show ?thesis by blast
  qed
  moreover have "ancestor ?w c a" "ancestor ?w c b" using ancestor_trans c(2,3) a'(3) b'(3) by blast+
  ultimately show ?thesis using a'(1) b'(1) c(1) by (auto simp: FindCommonAncestor_def)
qed

theorem FindCommonAncestor_last_witness:
  "\<exists>db. chain_steps tail_hash [HeaderW (sample_header 3 zeroHash 0 (replicate 32 1)), TdW (replicate 32 1) 0 3, CanonicalW (replicate 32 1) 0] Map.empty = Ok db
    \<and> FindCommonAncestor tail_hash 1 db (sample_header 3 zeroHash 0 (replicate 32 1)) (sample_header 3 zeroHash 0 (replicate 32 1))
      = Ok (Some (sample_header 3 zeroHash 0 (replicate 32 1)))"
proof -
  let ?g = "sample_header 3 zeroHash 0 (replicate 32 1)"
  from sample_genesis obtain db where
    db: "chain_steps tail_hash [HeaderW ?g, TdW (replicate 32 1) 0 3, CanonicalW (replicate 32 1) 0] Map.empty = Ok db" "genesis_view tail_hash ?g (chain_view db)"
    by blast
  have n: "hd_Number ?g = 0" by (simp add: sample_header_def)
  have st: "stored tail_hash (chain_view db) ?g" using db(2) by (simp add: stored_def genesis_view_def upd2_def)
  from FindCommonAncestor_last [OF genesis_view_ok(1) [OF db(2)] st st, of 1] n obtain c where
    c: "FindCommonAncestor tail_hash 1 db ?g ?g = Ok (Some c)" "ancestor (chain_view db) c ?g" by auto
  have "c = ?g" using c(2) by (rule ancestorE) (use n in auto)
  with c(1) db(1) show ?thesis by auto
qed

end
