(* ===== verification/Merkle_Tree.thy ===== *)
theory Merkle_Tree
  imports Prelude
begin

text \<open>
  The Merkle tree over the contents of a block, \<^verbatim>\<open>src/common/merkletree/merkletree.go\<close>.  A content is hashed by \<open>calc\<close>
  and compared by \<open>same\<close>, the two methods of the interface \<^verbatim>\<open>Content\<close>; the inner nodes are hashed by \<open>sha\<close>, the tree's hash
  strategy.  The field \<^verbatim>\<open>Parent\<close> of a node is the function \<open>parents\<close> of the leaves and an index.
\<close>

section \<open>The tree\<close>

datatype 'c mnode = MLeaf (mn_dup: bool) bytes 'c | MInner "'c mnode" "'c mnode" bytes

fun mhash :: "'c mnode \<Rightarrow> bytes" where
  "mhash (MLeaf _ h _) = h"
| "mhash (MInner _ _ h) = h"

record 'c MerkleTree =
  mt_Root :: "'c mnode"
  mt_merkleRoot :: bytes
  mt_Leafs :: "'c mnode list"

datatype 'e merkle_error = NoContent | ContentError 'e

fun verifyNode :: "('c \<Rightarrow> ('e, bytes) res) \<Rightarrow> (bytes \<Rightarrow> bytes) \<Rightarrow> 'c mnode \<Rightarrow> ('e, bytes) res" where
  "verifyNode calc sha (MLeaf _ _ c) = calc c"
| "verifyNode calc sha (MInner l r _) =
     res_bind (verifyNode calc sha r) (\<lambda>rightBytes.
     res_bind (verifyNode calc sha l) (\<lambda>leftBytes. Ok (sha (leftBytes @ rightBytes))))"

fun calculateNodeHash :: "('c \<Rightarrow> ('e, bytes) res) \<Rightarrow> (bytes \<Rightarrow> bytes) \<Rightarrow> 'c mnode \<Rightarrow> ('e, bytes) res" where
  "calculateNodeHash calc sha (MLeaf _ _ c) = calc c"
| "calculateNodeHash calc sha (MInner l r _) = Ok (sha (mhash l @ mhash r))"

text \<open>One round of the loop of \<^verbatim>\<open>buildIntermediate\<close>: a last node without a partner is its own.\<close>

fun pair_up :: "(bytes \<Rightarrow> bytes) \<Rightarrow> 'c mnode list \<Rightarrow> 'c mnode list" where
  "pair_up sha (a # b # ns) = MInner a b (sha (mhash a @ mhash b)) # pair_up sha ns"
| "pair_up sha [a] = [MInner a a (sha (mhash a @ mhash a))]"
| "pair_up sha [] = []"

lemma length_pair_up [simp]: "length (pair_up sha nl) = (length nl + 1) div 2"
  by (induction sha nl rule: pair_up.induct) auto

text \<open>With fewer than two nodes the code calls itself on as many nodes again, for ever.\<close>

function buildIntermediate :: "(bytes \<Rightarrow> bytes) \<Rightarrow> 'c mnode list \<Rightarrow> ('e, 'c mnode) res" where
  "buildIntermediate sha nl =
     (if length nl < 2 then Diverge
      else if length nl = 2 then Ok (pair_up sha nl ! 0)
      else buildIntermediate sha (pair_up sha nl))"
  by pat_completeness auto
termination by (relation "measure (\<lambda>(sha, nl). length nl)") auto

declare buildIntermediate.simps [simp del]

fun leafs_of :: "('c \<Rightarrow> ('e, bytes) res) \<Rightarrow> 'c list \<Rightarrow> ('e, 'c mnode list) res" where
  "leafs_of calc [] = Ok []"
| "leafs_of calc (c # cs) = res_bind (calc c) (\<lambda>h. res_map ((#) (MLeaf False h c)) (leafs_of calc cs))"

fun duplicate :: "'c mnode \<Rightarrow> 'c mnode" where
  "duplicate (MLeaf _ h c) = MLeaf True h c"
| "duplicate n = n"

definition pad_leafs :: "'c mnode list \<Rightarrow> 'c mnode list" where
  "pad_leafs ls = (if length ls mod 2 = 1 then ls @ [duplicate (last ls)] else ls)"

fun merkle_err :: "('e, 'a) res \<Rightarrow> ('e merkle_error, 'a) res" where
  "merkle_err (Ok x) = Ok x"
| "merkle_err (Err e) = Err (ContentError e)"
| "merkle_err Panic = Panic"
| "merkle_err Diverge = Diverge"

definition buildWithContent ::
  "('c \<Rightarrow> ('e, bytes) res) \<Rightarrow> (bytes \<Rightarrow> bytes) \<Rightarrow> 'c list \<Rightarrow> ('e merkle_error, 'c mnode \<times> 'c mnode list) res" where
  "buildWithContent calc sha cs =
     (if cs = [] then Err NoContent
      else res_bind (merkle_err (leafs_of calc cs)) (\<lambda>leafs.
             let leafs = pad_leafs leafs in res_map (\<lambda>root. (root, leafs)) (buildIntermediate sha leafs)))"

definition NewTree :: "('c \<Rightarrow> ('e, bytes) res) \<Rightarrow> (bytes \<Rightarrow> bytes) \<Rightarrow> 'c list \<Rightarrow> ('e merkle_error, 'c MerkleTree) res" where
  "NewTree calc sha cs =
     res_map (\<lambda>(root, leafs). \<lparr>mt_Root = root, mt_merkleRoot = mhash root, mt_Leafs = leafs\<rparr>) (buildWithContent calc sha cs)"

definition MerkleRoot :: "'c MerkleTree \<Rightarrow> bytes" where
  "MerkleRoot t = mt_merkleRoot t"

fun content_of :: "'c mnode \<Rightarrow> 'c list" where
  "content_of (MLeaf _ _ c) = [c]"
| "content_of (MInner _ _ _) = []"

definition RebuildTreeWith ::
  "('c \<Rightarrow> ('e, bytes) res) \<Rightarrow> (bytes \<Rightarrow> bytes) \<Rightarrow> 'c list \<Rightarrow> 'c MerkleTree \<Rightarrow> ('e merkle_error, 'c MerkleTree) res" where
  "RebuildTreeWith calc sha cs t =
     res_map (\<lambda>(root, leafs). t\<lparr>mt_Root := root, mt_Leafs := leafs, mt_merkleRoot := mhash root\<rparr>) (buildWithContent calc sha cs)"

definition RebuildTree :: "('c \<Rightarrow> ('e, bytes) res) \<Rightarrow> (bytes \<Rightarrow> bytes) \<Rightarrow> 'c MerkleTree \<Rightarrow> ('e merkle_error, 'c MerkleTree) res" where
  "RebuildTree calc sha t = RebuildTreeWith calc sha (concat (map content_of (mt_Leafs t))) t"

definition VerifyTree :: "('c \<Rightarrow> ('e, bytes) res) \<Rightarrow> (bytes \<Rightarrow> bytes) \<Rightarrow> 'c MerkleTree \<Rightarrow> ('e, bool) res" where
  "VerifyTree calc sha t = res_map (\<lambda>h. mt_merkleRoot t = h) (verifyNode calc sha (mt_Root t))"

section \<open>Paths\<close>

text \<open>The nodes that \<^verbatim>\<open>Parent\<close> leads through from the node \<open>i\<close> of a level, up to the root.\<close>

function parents :: "(bytes \<Rightarrow> bytes) \<Rightarrow> 'c mnode list \<Rightarrow> nat \<Rightarrow> 'c mnode list" where
  "parents sha nl i =
     (if length nl < 2 then []
      else if length nl = 2 then [pair_up sha nl ! 0]
      else pair_up sha nl ! (i div 2) # parents sha (pair_up sha nl) (i div 2))"
  by pat_completeness auto
termination by (relation "measure (\<lambda>(sha, nl, i). length nl)") auto

declare parents.simps [simp del]

text \<open>Every parent is an inner node.\<close>

fun path_loop :: "'c mnode \<Rightarrow> 'c mnode list \<Rightarrow> (bytes \<times> int) list" where
  "path_loop current (MInner l r h # ps) =
     (if mhash l = mhash current then (mhash r, 1) else (mhash l, 0)) # path_loop (MInner l r h) ps"
| "path_loop current _ = []"

fun find_leaf :: "('c \<Rightarrow> 'c \<Rightarrow> ('e, bool) res) \<Rightarrow> 'c \<Rightarrow> nat \<Rightarrow> 'c mnode list \<Rightarrow> ('e, nat option) res" where
  "find_leaf same c i [] = Ok None"
| "find_leaf same c i (MLeaf _ _ c' # ls) =
     res_bind (same c' c) (\<lambda>ok. if ok then Ok (Some i) else find_leaf same c (i + 1) ls)"
| "find_leaf same c i (MInner _ _ _ # ls) = Panic"

definition GetMerklePath ::
  "(bytes \<Rightarrow> bytes) \<Rightarrow> ('c \<Rightarrow> 'c \<Rightarrow> ('e, bool) res) \<Rightarrow> 'c \<Rightarrow> 'c MerkleTree \<Rightarrow> ('e, (bytes \<times> int) list) res" where
  "GetMerklePath sha same c t =
     res_map (\<lambda>found. case found of None \<Rightarrow> [] | Some i \<Rightarrow> path_loop (mt_Leafs t ! i) (parents sha (mt_Leafs t) i))
       (find_leaf same c 0 (mt_Leafs t))"

fun verify_loop :: "('c \<Rightarrow> ('e, bytes) res) \<Rightarrow> (bytes \<Rightarrow> bytes) \<Rightarrow> 'c mnode list \<Rightarrow> ('e, bool) res" where
  "verify_loop calc sha (MInner l r h # ps) =
     res_bind (calculateNodeHash calc sha r) (\<lambda>rightBytes.
     res_bind (calculateNodeHash calc sha l) (\<lambda>leftBytes.
       if sha (leftBytes @ rightBytes) \<noteq> h then Ok False else verify_loop calc sha ps))"
| "verify_loop calc sha (MLeaf _ _ _ # ps) = Panic"
| "verify_loop calc sha [] = Ok True"

definition VerifyContent ::
  "('c \<Rightarrow> ('e, bytes) res) \<Rightarrow> (bytes \<Rightarrow> bytes) \<Rightarrow> ('c \<Rightarrow> 'c \<Rightarrow> ('e, bool) res) \<Rightarrow> 'c \<Rightarrow> 'c MerkleTree \<Rightarrow> ('e, bool) res" where
  "VerifyContent calc sha same c t =
     res_bind (find_leaf same c 0 (mt_Leafs t)) (\<lambda>found.
       case found of None \<Rightarrow> Ok False | Some i \<Rightarrow> verify_loop calc sha (parents sha (mt_Leafs t) i))"

section \<open>The root as a function of the hashes\<close>

fun hash_level :: "(bytes \<Rightarrow> bytes) \<Rightarrow> bytes list \<Rightarrow> bytes list" where
  "hash_level sha (a # b # hs) = sha (a @ b) # hash_level sha hs"
| "hash_level sha [a] = [sha (a @ a)]"
| "hash_level sha [] = []"

lemma length_hash_level [simp]: "length (hash_level sha hs) = (length hs + 1) div 2"
  by (induction sha hs rule: hash_level.induct) auto

function merkle_hash :: "(bytes \<Rightarrow> bytes) \<Rightarrow> bytes list \<Rightarrow> bytes" where
  "merkle_hash sha hs =
     (if length hs < 2 then [] else if length hs = 2 then hash_level sha hs ! 0 else merkle_hash sha (hash_level sha hs))"
  by pat_completeness auto
termination by (relation "measure (\<lambda>(sha, hs). length hs)") auto

declare merkle_hash.simps [simp del]

text \<open>A list of odd length is padded with its last element.\<close>

definition pad_last :: "'a list \<Rightarrow> 'a list" where
  "pad_last xs = (if length xs mod 2 = 1 then xs @ [last xs] else xs)"

lemma map_mhash_pair_up: "map mhash (pair_up sha nl) = hash_level sha (map mhash nl)"
  by (induction sha nl rule: pair_up.induct) auto

lemma mhash_duplicate [simp]: "mhash (duplicate n) = mhash n"
  by (cases n) auto

lemma map_mhash_pad: "map mhash (pad_leafs ls) = pad_last (map mhash ls)"
  by (cases "ls = []") (auto simp: pad_leafs_def pad_last_def last_map)

lemma buildIntermediate_hash:
  "2 \<le> length nl \<Longrightarrow> \<exists>root. buildIntermediate sha nl = Ok root \<and> mhash root = merkle_hash sha (map mhash nl)"
proof (induction sha nl rule: buildIntermediate.induct)
  case (1 sha nl)
  show ?case
  proof (cases "length nl = 2")
    case True
    have "mhash (pair_up sha nl ! 0) = map mhash (pair_up sha nl) ! 0" using True by simp
    then have "mhash (pair_up sha nl ! 0) = hash_level sha (map mhash nl) ! 0" by (simp only: map_mhash_pair_up)
    with True show ?thesis by (simp add: buildIntermediate.simps merkle_hash.simps [of sha "map mhash nl"])
  next
    case False
    with 1(2) have l: "\<not> length nl < 2" "2 \<le> length (pair_up sha nl)" by auto
    with False 1(1) 1(2) show ?thesis
      by (simp add: buildIntermediate.simps [of sha nl] merkle_hash.simps [of sha "map mhash nl"] map_mhash_pair_up)
  qed
qed

text \<open>The outcome does not depend on the type of the errors, of which there are none.\<close>

lemma build_any: "buildIntermediate sha nl = (Ok root :: ('a, 'c mnode) res) \<Longrightarrow> buildIntermediate sha nl = (Ok root :: ('b, 'c mnode) res)"
proof (induction sha nl rule: buildIntermediate.induct)
  case (1 sha nl)
  then show ?case
    by (subst buildIntermediate.simps, subst (asm) (2) buildIntermediate.simps) (simp split: if_splits)
qed

lemma leafs_of_Ok:
  "list_all2 (\<lambda>c h. calc c = Ok h) cs hs \<Longrightarrow> leafs_of calc cs = Ok (map2 (MLeaf False) hs cs)"
  by (induction rule: list_all2_induct) auto

lemma pad_leafs_length: "ls \<noteq> [] \<Longrightarrow> 2 \<le> length (pad_leafs ls)"
  by (cases "length ls mod 2 = 1"; cases ls; cases "tl ls") (auto simp: pad_leafs_def)

lemma NewTree_Ok:
  fixes calc :: "'c \<Rightarrow> ('e, bytes) res"
  assumes "list_all2 (\<lambda>c h. calc c = Ok h) cs hs" "cs \<noteq> []"
  shows "\<exists>root. buildIntermediate sha (pad_leafs (map2 (MLeaf False) hs cs)) = (Ok root :: ('e merkle_error, 'c mnode) res)
    \<and> NewTree calc sha cs = Ok \<lparr>mt_Root = root, mt_merkleRoot = merkle_hash sha (pad_last hs), mt_Leafs = pad_leafs (map2 (MLeaf False) hs cs)\<rparr>
    \<and> mhash root = merkle_hash sha (pad_last hs)"
proof -
  let ?ls = "map2 (MLeaf False) hs cs"
  have len: "length cs = length hs" using assms(1) by (rule list_all2_lengthD)
  then have ne: "?ls \<noteq> []" using assms(2) by (cases cs; cases hs) auto
  have mh: "map mhash ?ls = hs" using len by (auto intro: nth_equalityI)
  from buildIntermediate_hash [OF pad_leafs_length [OF ne], of sha] mh obtain root :: "'c mnode" where
    r: "buildIntermediate sha (pad_leafs ?ls) = (Ok root :: ('e merkle_error, 'c mnode) res)" "mhash root = merkle_hash sha (pad_last hs)"
    by (auto simp: map_mhash_pad)
  then show ?thesis using leafs_of_Ok [OF assms(1)] assms(2) by (simp add: NewTree_def buildWithContent_def Let_def)
qed

section \<open>Membership\<close>

fun node_ok :: "('c \<Rightarrow> ('e, bytes) res) \<Rightarrow> (bytes \<Rightarrow> bytes) \<Rightarrow> 'c mnode \<Rightarrow> bool" where
  "node_ok calc sha (MLeaf _ h c) \<longleftrightarrow> calc c = Ok h"
| "node_ok calc sha (MInner l r h) \<longleftrightarrow> node_ok calc sha l \<and> node_ok calc sha r \<and> h = sha (mhash l @ mhash r)"

lemma verifyNode_ok: "node_ok calc sha n \<Longrightarrow> verifyNode calc sha n = Ok (mhash n)"
  by (induction n) auto

lemma calculateNodeHash_ok: "node_ok calc sha n \<Longrightarrow> calculateNodeHash calc sha n = Ok (mhash n)"
  by (cases n) auto

lemma pair_up_nth:
  "j < (length nl + 1) div 2 \<Longrightarrow> \<exists>r. pair_up sha nl ! j = MInner (nl ! (2 * j)) r (sha (mhash (nl ! (2 * j)) @ mhash r))
    \<and> r = nl ! (if 2 * j + 1 < length nl then 2 * j + 1 else 2 * j)"
proof (induction sha nl arbitrary: j rule: pair_up.induct)
  case (1 sha a b ns)
  then show ?case by (cases j) auto
qed auto

lemma pair_up_ok: "list_all (node_ok calc sha) nl \<Longrightarrow> list_all (node_ok calc sha) (pair_up sha nl)"
  by (induction sha nl rule: pair_up.induct) auto

lemma build_ok:
  "buildIntermediate sha nl = Ok root \<Longrightarrow> list_all (node_ok calc sha) nl \<Longrightarrow> node_ok calc sha root"
proof (induction sha nl rule: buildIntermediate.induct)
  case (1 sha nl)
  have "list_all (node_ok calc sha) (pair_up sha nl)" using 1(3) by (rule pair_up_ok)
  with 1 show ?case
    by (subst (asm) (2) buildIntermediate.simps) (auto simp: list_all_length split: if_splits)
qed

lemma parents_ok:
  "list_all (node_ok calc sha) nl \<Longrightarrow> i < length nl \<Longrightarrow> verify_loop calc sha (parents sha nl i) = Ok True"
proof (induction sha nl i rule: parents.induct)
  case (1 sha nl i)
  have ok: "list_all (node_ok calc sha) (pair_up sha nl)" using 1(2) by (rule pair_up_ok)
  have step: "verify_loop calc sha (pair_up sha nl ! j # ps) = verify_loop calc sha ps" if "j < (length nl + 1) div 2" for j ps
  proof -
    obtain l r h where n: "pair_up sha nl ! j = MInner l r h" using pair_up_nth [of j nl sha] \<open>j < (length nl + 1) div 2\<close> by blast
    moreover have "node_ok calc sha (MInner l r h)" using ok that n by (auto simp: list_all_length)
    ultimately show ?thesis by (simp add: calculateNodeHash_ok)
  qed
  consider "length nl < 2" | "length nl = 2" | "2 < length nl" by linarith
  then show ?case
  proof cases
    case 3
    then have "verify_loop calc sha (parents sha (pair_up sha nl) (i div 2)) = Ok True" using 1(1,3) ok by simp
    with 3 1(3) step [of "i div 2"] show ?thesis by (subst parents.simps) simp
  qed (use step [of 0] in \<open>simp_all add: parents.simps [of sha nl]\<close>)
qed

lemma build_step:
  "\<not> length nl < 2 \<Longrightarrow> length nl \<noteq> 2 \<Longrightarrow> buildIntermediate sha nl = r \<Longrightarrow> buildIntermediate sha (pair_up sha nl) = r"
  by (subst (asm) buildIntermediate.simps) simp

text \<open>What a verifier computes from a leaf's hash and a path.\<close>

fun climb_path :: "(bytes \<Rightarrow> bytes) \<Rightarrow> bytes \<Rightarrow> (bytes \<times> int) list \<Rightarrow> bytes" where
  "climb_path sha h [] = h"
| "climb_path sha h ((s, i) # ps) = climb_path sha (if i = 1 then sha (h @ s) else sha (s @ h)) ps"

lemma path_climbs:
  "i < length nl \<Longrightarrow> buildIntermediate sha nl = Ok root \<Longrightarrow> climb_path sha (mhash (nl ! i)) (path_loop (nl ! i) (parents sha nl i)) = mhash root"
proof (induction sha nl i rule: parents.induct)
  case (1 sha nl i)
  have j: "i div 2 < (length nl + 1) div 2" using 1(2) by linarith
  obtain l r where n: "pair_up sha nl ! (i div 2) = MInner l r (sha (mhash l @ mhash r))" "l = nl ! (2 * (i div 2))"
    "r = nl ! (if 2 * (i div 2) + 1 < length nl then 2 * (i div 2) + 1 else 2 * (i div 2))" using pair_up_nth [OF j, of sha] by blast
  have i: "nl ! i = l \<or> nl ! i = r" using n(2,3) 1(2) by (cases "even i") (auto elim!: evenE oddE)
  have step: "climb_path sha (mhash (nl ! i)) (path_loop (nl ! i) (pair_up sha nl ! (i div 2) # ps))
      = climb_path sha (mhash (pair_up sha nl ! (i div 2))) (path_loop (pair_up sha nl ! (i div 2)) ps)" for ps
    using i n(1) by auto
  have l2: "2 \<le> length nl" using 1(3) by (subst (asm) buildIntermediate.simps) (auto split: if_splits)
  show ?case
  proof (cases "length nl = 2")
    case True
    then have "i div 2 = 0" using 1(2) by simp
    with True step [of "[]"] 1(3) show ?thesis
      by (subst parents.simps, subst (asm) buildIntermediate.simps) simp
  next
    case False
    with l2 have l: "\<not> length nl < 2" "length nl \<noteq> 2" by auto
    from 1(1) [OF l _ build_step [OF l 1(3)]] j have "climb_path sha (mhash (pair_up sha nl ! (i div 2))) (path_loop (pair_up sha nl ! (i div 2)) (parents sha (pair_up sha nl) (i div 2))) = mhash root"
      by simp
    with l step show ?thesis by (subst parents.simps) simp
  qed
qed

lemma leafs_of_OkD: "leafs_of calc cs = Ok ls \<Longrightarrow> \<exists>hs. list_all2 (\<lambda>c h. calc c = Ok h) cs hs"
proof (induction cs arbitrary: ls)
  case (Cons c cs)
  then obtain h hs where "calc c = Ok h" "list_all2 (\<lambda>c h. calc c = Ok h) cs hs" by auto
  then show ?case by (intro exI [of _ "h # hs"]) simp
qed auto

lemma NewTree_OkD:
  fixes calc :: "'a \<Rightarrow> ('b, bytes) res"
  assumes "NewTree calc sha cs = Ok t"
  shows "\<exists>hs. list_all2 (\<lambda>c h. calc c = Ok h) cs hs \<and> cs \<noteq> [] \<and> mt_Leafs t = pad_leafs (map2 (MLeaf False) hs cs)
    \<and> buildIntermediate sha (mt_Leafs t) = (Ok (mt_Root t) :: (unit, _) res) \<and> mhash (mt_Root t) = mt_merkleRoot t
    \<and> mt_merkleRoot t = merkle_hash sha (pad_last hs)"
proof -
  from assms obtain ls where "leafs_of calc cs = Ok ls" and ne: "cs \<noteq> []"
    by (cases "leafs_of calc cs") (auto simp: NewTree_def buildWithContent_def split: if_splits)
  then obtain hs where hs: "list_all2 (\<lambda>c h. calc c = Ok h) cs hs" using leafs_of_OkD by blast
  from NewTree_Ok [OF hs ne, of sha] assms obtain root where
    "buildIntermediate sha (pad_leafs (map2 (MLeaf False) hs cs)) = (Ok root :: ('b merkle_error, 'a mnode) res)"
    "t = \<lparr>mt_Root = root, mt_merkleRoot = merkle_hash sha (pad_last hs), mt_Leafs = pad_leafs (map2 (MLeaf False) hs cs)\<rparr>"
    "mhash root = merkle_hash sha (pad_last hs)" by auto
  with build_any [OF this(1), where ?'b = unit] hs ne show ?thesis by auto
qed

section \<open>Properties\<close>

lemma leafs_ok:
  assumes "list_all2 (\<lambda>c h. calc c = Ok h) cs hs"
  shows "list_all (node_ok calc sha) (pad_leafs (map2 (MLeaf False) hs cs))"
    and "\<And>l. l \<in> set (pad_leafs (map2 (MLeaf False) hs cs)) \<Longrightarrow> \<exists>d h c. l = MLeaf d h c \<and> c \<in> set cs \<and> calc c = Ok h"
    and "\<And>c. c \<in> set cs \<Longrightarrow> \<exists>h. MLeaf False h c \<in> set (pad_leafs (map2 (MLeaf False) hs cs))"
proof -
  let ?ls = "map2 (MLeaf False) hs cs"
  have ls: "\<exists>h c. l = MLeaf False h c \<and> c \<in> set cs \<and> calc c = Ok h" if "l \<in> set ?ls" for l
  proof -
    from that obtain h c where l: "(h, c) \<in> set (zip hs cs)" "l = MLeaf False h c" by auto
    then have "(c, h) \<in> set (zip cs hs)" by (auto simp: set_zip)
    then have "calc c = Ok h" "c \<in> set cs" using assms by (auto simp: list_all2_iff dest: set_zip_leftD)
    with l show ?thesis by blast
  qed
  show 2: "\<exists>d h c. l = MLeaf d h c \<and> c \<in> set cs \<and> calc c = Ok h" if "l \<in> set (pad_leafs ?ls)" for l
  proof (cases "l \<in> set ?ls")
    case True
    then show ?thesis using ls by blast
  next
    case False
    with that have "l = duplicate (last ?ls)" "?ls \<noteq> []" by (auto simp: pad_leafs_def split: if_splits)
    moreover from this have "last ?ls \<in> set ?ls" by (intro last_in_set)
    ultimately show ?thesis using ls [of "last ?ls"] by auto
  qed
  then show "list_all (node_ok calc sha) (pad_leafs ?ls)" by (fastforce simp: list_all_iff)
  show "\<exists>h. MLeaf False h c \<in> set (pad_leafs ?ls)" if "c \<in> set cs" for c
  proof -
    have "length cs = length hs" using assms by (rule list_all2_lengthD)
    with that obtain h where "(h, c) \<in> set (zip hs cs)" by (auto simp: in_set_conv_nth set_zip)
    then show ?thesis by (force simp: pad_leafs_def)
  qed
qed

lemma find_leaf_ok:
  assumes "\<And>l. l \<in> set ls \<Longrightarrow> \<exists>d h c. l = MLeaf d h c" "\<And>x. \<exists>b. same x c = Ok b" "MLeaf d h c' \<in> set ls" "same c' c = Ok True"
  shows "\<exists>k d h x. find_leaf same c i ls = Ok (Some (i + k)) \<and> k < length ls \<and> ls ! k = MLeaf d h x \<and> same x c = Ok True"
  using assms(1,3)
proof (induction ls arbitrary: i)
  case (Cons l ls)
  from Cons.prems(1) [of l] obtain d1 h1 x where l: "l = MLeaf d1 h1 x" by auto
  obtain b where b: "same x c = Ok b" using assms(2) by blast
  show ?case
  proof (cases b)
    case True
    then show ?thesis using l b by (intro exI [of _ 0]) auto
  next
    case False
    then have "MLeaf d h c' \<in> set ls" using Cons.prems(2) l b assms(4) by auto
    with Cons.IH [of "i + 1"] Cons.prems(1) obtain k d2 h2 x2 where
      "find_leaf same c (i + 1) ls = Ok (Some (i + 1 + k))" "k < length ls" "ls ! k = MLeaf d2 h2 x2" "same x2 c = Ok True" by auto
    with False l b show ?thesis by (intro exI [of _ "Suc k"]) auto
  qed
qed simp

text \<open>
  C22: Membership can be checked against the root.  For every content of a tree, \<^verbatim>\<open>GetMerklePath\<close> returns a path from which,
  with the content's hash, the root is computed; \<^verbatim>\<open>VerifyContent\<close> and \<^verbatim>\<open>VerifyTree\<close> accept.  Contents that are the same have
  the same hash.
\<close>

theorem merkle_path_verifies:
  assumes "NewTree calc sha cs = Ok t" and "c \<in> set cs" "calc c = Ok h"
    and same: "\<And>x. \<exists>b. same x c = Ok b \<and> (b \<longrightarrow> calc x = calc c)" "same c c = Ok True"
  shows "(\<exists>path. GetMerklePath sha same c t = Ok path \<and> climb_path sha h path = MerkleRoot t)
    \<and> VerifyContent calc sha same c t = Ok True \<and> VerifyTree calc sha t = Ok True"
proof (intro conjI)
  from NewTree_OkD [OF assms(1)] obtain hs where hs: "list_all2 (\<lambda>c h. calc c = Ok h) cs hs"
    "mt_Leafs t = pad_leafs (map2 (MLeaf False) hs cs)"
    "buildIntermediate sha (mt_Leafs t) = (Ok (mt_Root t) :: (unit, _) res)" "mhash (mt_Root t) = mt_merkleRoot t" by blast
  note leafs = leafs_ok [OF hs(1), folded hs(2)]
  obtain h1 where "MLeaf False h1 c \<in> set (mt_Leafs t)" using leafs(3) [OF assms(2)] by blast
  from find_leaf_ok [of "mt_Leafs t" same c False h1 c 0] this same leafs(2) obtain k d2 h2 x where
    f: "find_leaf same c 0 (mt_Leafs t) = Ok (Some k)" "k < length (mt_Leafs t)" "mt_Leafs t ! k = MLeaf d2 h2 x" "same x c = Ok True"
    by (metis add_0)
  from leafs(2) [OF nth_mem [OF f(2)]] f(3) have "calc x = Ok h2" by auto
  moreover have "calc x = calc c" using same(1) [of x] f(4) by auto
  ultimately have "mhash (mt_Leafs t ! k) = h" using assms(3) f(3) by simp
  with path_climbs [OF f(2) hs(3)] f(1) hs(4) show "\<exists>path. GetMerklePath sha same c t = Ok path \<and> climb_path sha h path = MerkleRoot t"
    by (simp add: GetMerklePath_def MerkleRoot_def)
  show "VerifyContent calc sha same c t = Ok True" using parents_ok [OF leafs(1) f(2)] f(1) by (simp add: VerifyContent_def)
  show "VerifyTree calc sha t = Ok True"
    using verifyNode_ok [OF build_ok [OF hs(3) leafs(1)]] hs(4) by (simp add: VerifyTree_def)
qed

theorem merkle_path_verifies_witness:
  "\<exists>t path. NewTree (\<lambda>c. (Ok [c] :: (unit, bytes) res)) rev [1, 2, 3] = Ok t
    \<and> GetMerklePath rev (\<lambda>x y. (Ok (x = y) :: (unit, bool) res)) 3 t = Ok path \<and> climb_path rev [3] path = MerkleRoot t"
proof -
  let ?calc = "\<lambda>c :: byte. (Ok [c] :: (unit, bytes) res)" and ?same = "\<lambda>x y :: byte. (Ok (x = y) :: (unit, bool) res)"
  obtain t where t: "NewTree ?calc rev [1, 2, 3] = Ok t"
    using NewTree_Ok [of ?calc "[1, 2, 3]" "[[1], [2], [3]]" rev] by auto
  have c: "?calc 3 = Ok [3]" "3 \<in> set [1, 2, 3 :: byte]" by simp_all
  have same: "\<exists>b. ?same x 3 = Ok b \<and> (b \<longrightarrow> ?calc x = ?calc 3)" for x by auto
  from merkle_path_verifies [where same = ?same, OF t c(2,1) same] t show ?thesis by auto
qed

subsection \<open>What the root says of the contents\<close>

fun level_inputs :: "bytes list \<Rightarrow> bytes set" where
  "level_inputs (a # b # hs) = insert (a @ b) (level_inputs hs)"
| "level_inputs [a] = {a @ a}"
| "level_inputs [] = {}"

text \<open>Everything that is hashed for the inner nodes of a tree.\<close>

function merkle_inputs :: "(bytes \<Rightarrow> bytes) \<Rightarrow> bytes list \<Rightarrow> bytes set" where
  "merkle_inputs sha hs =
     (if length hs < 2 then {} else if length hs = 2 then level_inputs hs
      else level_inputs hs \<union> merkle_inputs sha (hash_level sha hs))"
  by pat_completeness auto
termination by (relation "measure (\<lambda>(sha, hs). length hs)") auto

declare merkle_inputs.simps [simp del]

lemma hash_level_inj:
  "hash_level sha hs = hash_level sha hs' \<Longrightarrow> length hs = length hs' \<Longrightarrow> inj_on sha (level_inputs hs \<union> level_inputs hs')
    \<Longrightarrow> \<forall>h\<in>set hs \<union> set hs'. length h = n \<Longrightarrow> hs = hs'"
proof (induction sha hs arbitrary: hs' rule: hash_level.induct)
  case (1 sha a b hs)
  then obtain a' b' hs1 where hs': "hs' = a' # b' # hs1" by (cases hs' rule: level_inputs.cases) auto
  have "a @ b = a' @ b'" by (rule inj_onD [OF 1(4)]) (use 1(2) hs' in auto)
  with 1(5) hs' have "a = a'" "b = b'" by auto
  moreover have "hs = hs1"
    by (rule 1(1)) (use 1(2-5) hs' in \<open>auto intro: inj_on_subset\<close>)
  ultimately show ?case using hs' by simp
next
  case (2 sha a)
  then obtain a' where hs': "hs' = [a']" by (cases hs' rule: level_inputs.cases) auto
  have "a @ a = a' @ a'" by (rule inj_onD [OF 2(3)]) (use 2(1) hs' in auto)
  then show ?case using 2(4) hs' by simp
qed simp

lemma merkle_hash_inj:
  "merkle_hash sha hs = merkle_hash sha hs' \<Longrightarrow> length hs = length hs' \<Longrightarrow> 2 \<le> length hs \<Longrightarrow> inj_on sha (merkle_inputs sha hs \<union> merkle_inputs sha hs')
    \<Longrightarrow> (\<And>x. length (sha x) = n) \<Longrightarrow> \<forall>h\<in>set hs \<union> set hs'. length h = n \<Longrightarrow> hs = hs'"
proof (induction sha hs arbitrary: hs' rule: merkle_hash.induct)
  case (1 sha hs)
  have inj: "inj_on sha (level_inputs hs \<union> level_inputs hs')"
    using 1(4,5) unfolding merkle_inputs.simps [of sha hs] merkle_inputs.simps [of sha hs'] 1(3)
    by (auto split: if_splits intro: inj_on_subset)
  have "hash_level sha hs = hash_level sha hs'"
  proof (cases "length hs = 2")
    case True
    then have "length (hash_level sha hs) = 1" "length (hash_level sha hs') = 1" using 1(3) by simp_all
    moreover have "hash_level sha hs ! 0 = hash_level sha hs' ! 0"
      using 1(2,3) True by (simp add: merkle_hash.simps [of sha hs] merkle_hash.simps [of sha hs'])
    ultimately show ?thesis by (intro nth_equalityI) auto
  next
    case False
    with 1(3,4) have l: "\<not> length hs < 2" "length hs \<noteq> 2" "\<not> length hs' < 2" "length hs' \<noteq> 2" "2 \<le> length (hash_level sha hs)" by auto
    have lv: "\<forall>h\<in>set (hash_level sha hs). length h = n" for hs using 1(6) by (induction sha hs rule: hash_level.induct) auto
    show ?thesis
    proof (rule 1(1) [OF l(1,2) _ _ l(5) _ 1(6)])
      show "merkle_hash sha (hash_level sha hs) = merkle_hash sha (hash_level sha hs')"
        using 1(2) l by (simp add: merkle_hash.simps [of sha hs] merkle_hash.simps [of sha hs'])
      show "inj_on sha (merkle_inputs sha (hash_level sha hs) \<union> merkle_inputs sha (hash_level sha hs'))"
        using 1(5) l by (auto simp: merkle_inputs.simps [of sha hs] merkle_inputs.simps [of sha hs'] intro: inj_on_subset)
    qed (use 1(3) lv in auto)
  qed
  then show ?case using hash_level_inj [OF _ 1(3) inj 1(7)] by blast
qed

lemma pad_last_inj: "pad_last xs = pad_last ys \<Longrightarrow> length xs = length ys \<Longrightarrow> xs = ys"
  by (auto simp: pad_last_def split: if_splits)

lemma set_pad_last: "set (pad_last xs) = set xs"
  by (cases "xs = []") (auto simp: pad_last_def)

lemma length_pad_last: "xs \<noteq> [] \<Longrightarrow> 2 \<le> length (pad_last xs)" "length xs = length ys \<Longrightarrow> length (pad_last xs) = length (pad_last ys)"
  by (cases "length xs mod 2 = 1"; cases xs; cases "tl xs"; auto simp: pad_last_def)+

lemma length_merkle_hash: "(\<And>x. length (sha x) = n) \<Longrightarrow> 2 \<le> length hs \<Longrightarrow> length (merkle_hash sha hs) = n"
proof (induction sha hs rule: merkle_hash.induct)
  case (1 sha hs)
  have lv: "\<forall>h\<in>set (hash_level sha hs). length h = n" for hs using 1(2) by (induction sha hs rule: hash_level.induct) auto
  show ?case
  proof (cases "length hs = 2")
    case True
    then have "hash_level sha hs ! 0 \<in> set (hash_level sha hs)" by (intro nth_mem) simp
    then have "length (hash_level sha hs ! 0) = n" using lv by blast
    with True show ?thesis by (subst merkle_hash.simps) simp
  next
    case False
    with 1(3) have l: "\<not> length hs < 2" "length hs \<noteq> 2" "2 \<le> length (hash_level sha hs)" by auto
    from 1(1) [OF l(1,2) 1(2) l(3)] l show ?thesis by (subst merkle_hash.simps) simp
  qed
qed

end
