(* ===== verification/Block_Roots.thy ===== *)
theory Block_Roots
  imports Block_Types Merkle_Tree
begin

text \<open>
  The roots that a block header carries of the block's transactions, receipts and proofs: \<^verbatim>\<open>DeriveSha\<close> of
  \<^verbatim>\<open>src/blockchain/types/derive_sha.go\<close> over the Merkle tree, and the blocks made with them.  The tree's hash function
  (SHA-256) is the parameter \<open>sha\<close>.
\<close>

section \<open>Contents\<close>

definition tx_CalculateHash :: "(bytes \<Rightarrow> bytes) \<Rightarrow> Transaction \<Rightarrow> (unit, bytes) res" where
  "tx_CalculateHash kec tx = Ok (Transaction_Hash kec tx)"

definition tx_Equals :: "(bytes \<Rightarrow> bytes) \<Rightarrow> Transaction \<Rightarrow> Transaction \<Rightarrow> (unit, bool) res" where
  "tx_Equals kec tx other = Ok (Transaction_Hash kec other = Transaction_Hash kec tx)"

definition receipt_CalculateHash :: "Receipt \<Rightarrow> (unit, bytes) res" where
  "receipt_CalculateHash r = Ok (rc_TxHash r)"

definition receipt_Equals :: "Receipt \<Rightarrow> Receipt \<Rightarrow> (unit, bool) res" where
  "receipt_Equals r other = Ok (rc_TxHash r = rc_TxHash other \<and> rc_Status r = rc_Status other)"

definition proof_CalculateHash :: "ProofState \<Rightarrow> (unit, bytes) res" where
  "proof_CalculateHash p = Ok (ps_Root p)"

definition EmptyRootHash :: hash where
  "EmptyRootHash =
     [0x56, 0xe8, 0x1f, 0x17, 0x1b, 0xcc, 0x55, 0xa6, 0xff, 0x83, 0x45, 0xe6, 0x92, 0xc0, 0xf8, 0x6e,
      0x5b, 0x48, 0xe0, 0x1b, 0x99, 0x6c, 0xad, 0xc0, 0x01, 0x62, 0x2f, 0xb5, 0xe3, 0x63, 0xb4, 0x21]"

section \<open>Roots\<close>

definition DeriveSha :: "(bytes \<Rightarrow> bytes) \<Rightarrow> ('c \<Rightarrow> (unit, bytes) res) \<Rightarrow> 'c list \<Rightarrow> (unit, hash) res" where
  "DeriveSha sha calc cs =
     (if cs = [] then Ok EmptyRootHash
      else case NewTree calc sha cs of Ok t \<Rightarrow> Ok (BytesToHash (MerkleRoot t)) | Diverge \<Rightarrow> Diverge | _ \<Rightarrow> Panic)"

text \<open>A receipt's or a proof's root is derived only for a list that is not empty.\<close>

definition NewBlock ::
  "(bytes \<Rightarrow> bytes) \<Rightarrow> (bytes \<Rightarrow> bytes) \<Rightarrow> Header \<Rightarrow> Transaction list \<Rightarrow> ProofState list \<Rightarrow> Receipt list \<Rightarrow> (unit, Block) res" where
  "NewBlock kec sha header txs proofs receipts =
     res_bind (if hd_TxHash header = zeroHash then DeriveSha sha (tx_CalculateHash kec) txs else Ok (hd_TxHash header)) (\<lambda>txHash.
     res_bind (if proofs = [] then Ok EmptyRootHash else DeriveSha sha proof_CalculateHash proofs) (\<lambda>proofRoot.
     res_bind (if receipts = [] then Ok EmptyRootHash else DeriveSha sha receipt_CalculateHash receipts) (\<lambda>receiptHash.
       Ok \<lparr>bl_header = header\<lparr>hd_TxHash := txHash, hd_ProofRoot := proofRoot, hd_ReceiptHash := receiptHash\<rparr>,
           bl_transactions = txs, bl_proofs = proofs\<rparr>)))"

definition WithSeal :: "Header \<Rightarrow> Block \<Rightarrow> Block" where
  "WithSeal header b = b\<lparr>bl_header := header\<rparr>"

fun Block_Transaction :: "(bytes \<Rightarrow> bytes) \<Rightarrow> hash \<Rightarrow> Transaction list \<Rightarrow> Transaction option" where
  "Block_Transaction kec hash [] = None"
| "Block_Transaction kec hash (tx # txs) = (if Transaction_Hash kec tx = hash then Some tx else Block_Transaction kec hash txs)"

definition TxDifference :: "(bytes \<Rightarrow> bytes) \<Rightarrow> Transaction list \<Rightarrow> Transaction list \<Rightarrow> Transaction list" where
  "TxDifference kec a b = filter (\<lambda>tx. Transaction_Hash kec tx \<notin> Transaction_Hash kec ` set b) a"

section \<open>What a root says\<close>

text \<open>The hashes of the contents, when every content has one.\<close>

lemma DeriveSha_hashes:
  assumes "\<And>c. calc c = Ok (f c)" "cs \<noteq> []" "\<And>x. length (sha x) = 32"
  shows "DeriveSha sha calc cs = Ok (merkle_hash sha (pad_last (map f cs)))"
proof -
  have "list_all2 (\<lambda>c h. calc c = Ok h) cs (map f cs)" by (simp add: list_all2_map2 list_all2_refl assms(1))
  from NewTree_Ok [OF this assms(2), of sha] have "DeriveSha sha calc cs = Ok (BytesToHash (merkle_hash sha (pad_last (map f cs))))"
    using assms(2) by (auto simp: DeriveSha_def MerkleRoot_def)
  moreover have "length (merkle_hash sha (pad_last (map f cs))) = 32"
    using assms(2,3) by (intro length_merkle_hash length_pad_last) simp_all
  ultimately show ?thesis by (simp add: BytesToHash_def set_bytes_def HashLength_def)
qed



text \<open>
  C36: The transaction root does not determine the number of transactions.  When the number of transactions is odd, the
  list with its last transaction repeated has the same root.
\<close>

theorem tx_root_duplicate:
  assumes "\<And>x. length (sha x) = 32" "odd (length txs)"
  shows "DeriveSha sha (tx_CalculateHash kec) (txs @ [last txs]) = DeriveSha sha (tx_CalculateHash kec) txs"
proof -
  have ne: "txs \<noteq> []" using assms(2) by auto
  have "pad_last (map (Transaction_Hash kec) (txs @ [last txs])) = pad_last (map (Transaction_Hash kec) txs)"
    using assms(2) ne by (simp add: pad_last_def last_map odd_iff_mod_2_eq_one)
  with ne DeriveSha_hashes [of "tx_CalculateHash kec" "Transaction_Hash kec", OF tx_CalculateHash_def _ assms(1)]
  show ?thesis by simp
qed

theorem tx_root_duplicate_witness:
  "DeriveSha (\<lambda>x. take 32 (x @ replicate 32 0)) (tx_CalculateHash (\<lambda>x. x)) [\<lparr>tx_Payload = [1]\<rparr>, \<lparr>tx_Payload = [2]\<rparr>, \<lparr>tx_Payload = [3]\<rparr>, \<lparr>tx_Payload = [3]\<rparr>]
    = DeriveSha (\<lambda>x. take 32 (x @ replicate 32 0)) (tx_CalculateHash (\<lambda>x. x)) [\<lparr>tx_Payload = [1]\<rparr>, \<lparr>tx_Payload = [2]\<rparr>, \<lparr>tx_Payload = [3]\<rparr>]"
  using tx_root_duplicate [of "\<lambda>x. take 32 (x @ replicate 32 0)" "[\<lparr>tx_Payload = [1]\<rparr>, \<lparr>tx_Payload = [2]\<rparr>, \<lparr>tx_Payload = [3]\<rparr>]" "\<lambda>x. x"] by simp

text \<open>
  C35: The receipt root depends on the hashes of the transactions alone: receipts with other statuses and other numbers of
  confirmations have the same root, which is the root of the transactions.
\<close>

theorem receipt_root_ignores_status:
  assumes "\<And>x. length (sha x) = 32" "map rc_TxHash rs = map (Transaction_Hash kec) txs"
  shows "DeriveSha sha receipt_CalculateHash rs = DeriveSha sha (tx_CalculateHash kec) txs"
proof (cases "txs = []")
  case True
  with assms(2) show ?thesis by (simp add: DeriveSha_def)
next
  case False
  with assms(2) have "rs \<noteq> []" by auto
  with False assms(2) DeriveSha_hashes [of "tx_CalculateHash kec" "Transaction_Hash kec", OF tx_CalculateHash_def _ assms(1)]
    DeriveSha_hashes [of receipt_CalculateHash rc_TxHash, OF receipt_CalculateHash_def _ assms(1)]
  show ?thesis by simp
qed

theorem receipt_root_ignores_status_witness:
  "DeriveSha (\<lambda>x. take 32 (x @ replicate 32 0)) receipt_CalculateHash
      [\<lparr>rc_Status = 0, rc_ConfirmCount = 7, rc_TxHash = Transaction_Hash (\<lambda>x. x) \<lparr>tx_Payload = [1]\<rparr>\<rparr>]
    = DeriveSha (\<lambda>x. take 32 (x @ replicate 32 0)) (tx_CalculateHash (\<lambda>x. x)) [\<lparr>tx_Payload = [1]\<rparr>]"
  using receipt_root_ignores_status [of "\<lambda>x. take 32 (x @ replicate 32 0)"
      "[\<lparr>rc_Status = 0, rc_ConfirmCount = 7, rc_TxHash = Transaction_Hash (\<lambda>x. x) \<lparr>tx_Payload = [1]\<rparr>\<rparr>]" "\<lambda>x. x" "[\<lparr>tx_Payload = [1]\<rparr>]"]
  by simp

end
