(* ===== verification/Block_Chain.thy ===== *)
theory Block_Chain
  imports State_DB Header_Chain Block_Roots
begin

text \<open>
  The block chain, \<^verbatim>\<open>src/blockchain/blockchain.go\<close>, with the validator and the processor of blocks
  (\<^verbatim>\<open>block_validator.go\<close>, \<^verbatim>\<open>state_processor.go\<close>).  The database of the chain is the one its header chain holds.  A batch is the
  map of its pending writes, which \<^verbatim>\<open>Write\<close> lays over the database.  The verdicts of the consensus engine, the clock and the
  orders in which Go walks through maps are parameters.  A call that waits for a mutex its caller holds does not return.
\<close>

section \<open>State\<close>

record BlockChain =
  bc_hc :: HeaderChain
  bc_genesisBlock :: Block
  bc_currentBlock :: "Block option"
  bc_currentFastBlock :: "Block option"
  bc_bodyCache :: "(hash, Body) LRU"
  bc_bodyRLPCache :: "(hash, bytes) LRU"
  bc_blockCache :: "(hash, Block) LRU"
  bc_futureBlocks :: "(hash, Block) LRU"
  bc_badBlocks :: "(hash, Header) LRU"

abbreviation bc_db :: "BlockChain \<Rightarrow> store" where
  "bc_db bc \<equiv> hc_db (bc_hc bc)"

definition set_db :: "store \<Rightarrow> BlockChain \<Rightarrow> BlockChain" where
  "set_db db bc = bc\<lparr>bc_hc := (bc_hc bc)\<lparr>hc_db := db\<rparr>\<rparr>"

datatype import_error =
    ErrKnownBlock | ErrFutureBlock | ErrNoAncestor | ErrTooFarAhead | ErrNotContiguous | ErrMissingBlock | ErrGenesisMissing
  | ErrTxRoot | ErrReceiptRoot | ErrStateRoot | ErrStateOpen trie_error | ErrStateCommit state_error | ErrEncode rlp_error
  | ErrEngine nat

text \<open>An early return of an error, with the state it leaves.\<close>

fun or_return :: "('e, 'a) res \<Rightarrow> ('e \<Rightarrow> 'b) \<Rightarrow> ('a \<Rightarrow> (unit, 'b) res) \<Rightarrow> (unit, 'b) res" where
  "or_return (Ok x) f g = g x"
| "or_return (Err e) f g = Ok (f e)"
| "or_return Panic f g = Panic"
| "or_return Diverge f g = Diverge"

section \<open>Reading\<close>

definition bc_GetTd :: "hash \<Rightarrow> u64 \<Rightarrow> BlockChain \<Rightarrow> int option \<times> BlockChain" where
  "bc_GetTd hash number bc = (case hc_GetTd hash number (bc_hc bc) of (td, hc) \<Rightarrow> (td, bc\<lparr>bc_hc := hc\<rparr>))"

definition bc_GetHeader :: "hash \<Rightarrow> u64 \<Rightarrow> BlockChain \<Rightarrow> Header option \<times> BlockChain" where
  "bc_GetHeader hash number bc = (case hc_GetHeader hash number (bc_hc bc) of (h, hc) \<Rightarrow> (h, bc\<lparr>bc_hc := hc\<rparr>))"

definition bc_GetHeaderByHash :: "hash \<Rightarrow> BlockChain \<Rightarrow> Header option \<times> BlockChain" where
  "bc_GetHeaderByHash hash bc = (case hc_GetHeaderByHash hash (bc_hc bc) of (h, hc) \<Rightarrow> (h, bc\<lparr>bc_hc := hc\<rparr>))"

definition bc_GetTdByHash :: "hash \<Rightarrow> BlockChain \<Rightarrow> int option \<times> BlockChain" where
  "bc_GetTdByHash hash bc = (case hc_GetTdByHash hash (bc_hc bc) of (td, hc) \<Rightarrow> (td, bc\<lparr>bc_hc := hc\<rparr>))"

definition bc_GetHeaderByNumber :: "u64 \<Rightarrow> BlockChain \<Rightarrow> Header option \<times> BlockChain" where
  "bc_GetHeaderByNumber number bc = (case hc_GetHeaderByNumber number (bc_hc bc) of (h, hc) \<Rightarrow> (h, bc\<lparr>bc_hc := hc\<rparr>))"

definition bc_GetBlockHashesFromHash :: "hash \<Rightarrow> u64 \<Rightarrow> BlockChain \<Rightarrow> hash list \<times> BlockChain" where
  "bc_GetBlockHashesFromHash hash limit bc = (case GetBlockHashesFromHash hash limit (bc_hc bc) of (hs, hc) \<Rightarrow> (hs, bc\<lparr>bc_hc := hc\<rparr>))"

definition bc_HasHeader :: "hash \<Rightarrow> u64 \<Rightarrow> BlockChain \<Rightarrow> bool" where
  "bc_HasHeader hash number bc = hc_HasHeader hash number (bc_hc bc)"

definition bc_GetBody :: "hash \<Rightarrow> BlockChain \<Rightarrow> Body option \<times> BlockChain" where
  "bc_GetBody hash bc =
     (case Lru_Get hash (bc_bodyCache bc) of
        (Some body, c) \<Rightarrow> (Some body, bc\<lparr>bc_bodyCache := c\<rparr>)
      | (None, c) \<Rightarrow>
          (case hc_GetBlockNumber hash (bc_hc bc) of (number, hc) \<Rightarrow>
             (case GetBody (hc_db hc) hash number of
                None \<Rightarrow> (None, bc\<lparr>bc_hc := hc, bc_bodyCache := c\<rparr>)
              | Some body \<Rightarrow> (Some body, bc\<lparr>bc_hc := hc, bc_bodyCache := Lru_Add hash body c\<rparr>))))"

definition bc_GetBodyRLP :: "hash \<Rightarrow> BlockChain \<Rightarrow> bytes \<times> BlockChain" where
  "bc_GetBodyRLP hash bc =
     (case Lru_Get hash (bc_bodyRLPCache bc) of
        (Some body, c) \<Rightarrow> (body, bc\<lparr>bc_bodyRLPCache := c\<rparr>)
      | (None, c) \<Rightarrow>
          (case hc_GetBlockNumber hash (bc_hc bc) of (number, hc) \<Rightarrow>
             (let body = GetBodyRLP (hc_db hc) hash number
              in if body = [] then ([], bc\<lparr>bc_hc := hc, bc_bodyRLPCache := c\<rparr>)
                 else (body, bc\<lparr>bc_hc := hc, bc_bodyRLPCache := Lru_Add hash body c\<rparr>))))"

definition HasBlock :: "hash \<Rightarrow> u64 \<Rightarrow> BlockChain \<Rightarrow> bool" where
  "HasBlock hash number bc \<longleftrightarrow> Lru_Contains hash (bc_blockCache bc) \<or> bc_db bc (blockBodyKey hash number) \<noteq> None"

definition bc_GetBlock :: "(bytes \<Rightarrow> bytes) \<Rightarrow> hash \<Rightarrow> u64 \<Rightarrow> BlockChain \<Rightarrow> Block option \<times> BlockChain" where
  "bc_GetBlock kec hash number bc =
     (case Lru_Get hash (bc_blockCache bc) of
        (Some block, c) \<Rightarrow> (Some block, bc\<lparr>bc_blockCache := c\<rparr>)
      | (None, c) \<Rightarrow>
          (case GetBlock (bc_db bc) hash number of
             None \<Rightarrow> (None, bc\<lparr>bc_blockCache := c\<rparr>)
           | Some block \<Rightarrow> (Some block, bc\<lparr>bc_blockCache := Lru_Add (Block_Hash kec block) block c\<rparr>)))"

definition bc_GetBlockByHash :: "(bytes \<Rightarrow> bytes) \<Rightarrow> hash \<Rightarrow> BlockChain \<Rightarrow> Block option \<times> BlockChain" where
  "bc_GetBlockByHash kec hash bc =
     (case hc_GetBlockNumber hash (bc_hc bc) of (number, hc) \<Rightarrow> bc_GetBlock kec hash number (bc\<lparr>bc_hc := hc\<rparr>))"

definition bc_GetBlockByNumber :: "(bytes \<Rightarrow> bytes) \<Rightarrow> u64 \<Rightarrow> BlockChain \<Rightarrow> Block option \<times> BlockChain" where
  "bc_GetBlockByNumber kec number bc =
     (let hash = GetCanonicalHash (bc_db bc) number in if hash = zeroHash then (None, bc) else bc_GetBlock kec hash number bc)"

fun GetBlocks_loop :: "(bytes \<Rightarrow> bytes) \<Rightarrow> nat \<Rightarrow> hash \<Rightarrow> u64 \<Rightarrow> BlockChain \<Rightarrow> Block list \<times> BlockChain" where
  "GetBlocks_loop kec 0 hash number bc = ([], bc)"
| "GetBlocks_loop kec (Suc n) hash number bc =
     (case bc_GetBlock kec hash number bc of
        (None, bc) \<Rightarrow> ([], bc)
      | (Some block, bc) \<Rightarrow>
          (case GetBlocks_loop kec n (hd_ParentHash (bl_header block)) (number - 1) bc of (blocks, bc) \<Rightarrow> (block # blocks, bc)))"

definition GetBlocksFromHash :: "(bytes \<Rightarrow> bytes) \<Rightarrow> hash \<Rightarrow> nat \<Rightarrow> BlockChain \<Rightarrow> Block list \<times> BlockChain" where
  "GetBlocksFromHash kec hash n bc =
     (case hc_GetBlockNumber hash (bc_hc bc) of (number, hc) \<Rightarrow> GetBlocks_loop kec n hash number (bc\<lparr>bc_hc := hc\<rparr>))"

text \<open>Whether the state with a root can be opened.\<close>

definition has_state :: "hash \<Rightarrow> store \<Rightarrow> bool" where
  "has_state root db \<longleftrightarrow> (case NewSecure root (Some db) MaxTrieCacheGen of Ok _ \<Rightarrow> True | _ \<Rightarrow> False)"

definition HasBlockAndState :: "(bytes \<Rightarrow> bytes) \<Rightarrow> hash \<Rightarrow> BlockChain \<Rightarrow> bool \<times> BlockChain" where
  "HasBlockAndState kec hash bc =
     (case bc_GetBlockByHash kec hash bc of
        (None, bc) \<Rightarrow> (False, bc)
      | (Some block, bc) \<Rightarrow> (has_state (hd_Root (bl_header block)) (bc_db bc), bc))"

definition LastBlockHash :: "(bytes \<Rightarrow> bytes) \<Rightarrow> BlockChain \<Rightarrow> (unit, hash) res" where
  "LastBlockHash kec bc = (case bc_currentBlock bc of None \<Rightarrow> Panic | Some b \<Rightarrow> Ok (Block_Hash kec b))"

definition Status :: "(bytes \<Rightarrow> bytes) \<Rightarrow> BlockChain \<Rightarrow> (unit, (int option \<times> hash \<times> hash) \<times> BlockChain) res" where
  "Status kec bc =
     (case bc_currentBlock bc of
        None \<Rightarrow> Panic
      | Some b \<Rightarrow>
          (case bc_GetTd (Block_Hash kec b) (NumberU64 b) bc of
             (td, bc) \<Rightarrow> Ok ((td, Block_Hash kec b, Block_Hash kec (bc_genesisBlock bc)), bc)))"

text \<open>The receipts of a block, with the hashes of its transactions; there may be more transactions than receipts.\<close>

fun SetReceiptsData :: "(bytes \<Rightarrow> bytes) \<Rightarrow> Transaction list \<Rightarrow> Receipt list \<Rightarrow> (unit, Receipt list) res" where
  "SetReceiptsData kec txs [] = Ok []"
| "SetReceiptsData kec [] (r # rs) = Panic"
| "SetReceiptsData kec (tx # txs) (r # rs) = res_map ((#) (r\<lparr>rc_TxHash := Transaction_Hash kec tx\<rparr>)) (SetReceiptsData kec txs rs)"

definition countTransactions :: "Block list \<Rightarrow> nat" where
  "countTransactions chain = fold (\<lambda>b c. c + length (bl_transactions b)) chain 0"

section \<open>Heads\<close>

definition bc_insert :: "(bytes \<Rightarrow> bytes) \<Rightarrow> Block \<Rightarrow> BlockChain \<Rightarrow> BlockChain" where
  "bc_insert kec block bc =
     (let hash = Block_Hash kec block; number = NumberU64 block;
          updateHeads = (GetCanonicalHash (bc_db bc) number \<noteq> hash);
          bc = (set_db (WriteHeadBlockHash hash (WriteCanonicalHash hash number (bc_db bc))) bc)\<lparr>bc_currentBlock := Some block\<rparr>
      in if updateHeads then
           let bc = bc\<lparr>bc_hc := SetCurrentHeader kec (bl_header block) (bc_hc bc)\<rparr>
           in (set_db (WriteHeadFastBlockHash hash (bc_db bc)) bc)\<lparr>bc_currentFastBlock := Some block\<rparr>
         else bc)"

text \<open>
  \<^verbatim>\<open>loadLastState\<close>, given what \<^verbatim>\<open>Reset\<close> does.  The difficulties that it reads for its report go through the cache.
\<close>

definition loadLastState ::
  "(bytes \<Rightarrow> bytes) \<Rightarrow> (BlockChain \<Rightarrow> (unit, import_error option \<times> BlockChain) res) \<Rightarrow> BlockChain
    \<Rightarrow> (unit, import_error option \<times> BlockChain) res" where
  "loadLastState kec reset bc =
     (let head = GetHeadBlockHash (bc_db bc)
      in if head = zeroHash then reset bc
         else case bc_GetBlockByHash kec head bc of
                (None, bc) \<Rightarrow> reset bc
              | (Some currentBlock, bc) \<Rightarrow>
                  if \<not> has_state (hd_Root (bl_header currentBlock)) (bc_db bc) then reset bc
                  else
                    (let bc = bc\<lparr>bc_currentBlock := Some currentBlock\<rparr>;
                         hh = GetHeadHeaderHash (bc_db bc);
                         (header, bc) = (if hh \<noteq> zeroHash then bc_GetHeaderByHash hh bc else (None, bc));
                         currentHeader = (case header of Some h \<Rightarrow> h | None \<Rightarrow> bl_header currentBlock);
                         bc = bc\<lparr>bc_hc := SetCurrentHeader kec currentHeader (bc_hc bc)\<rparr>;
                         fh = GetHeadFastBlockHash (bc_db bc);
                         (fast, bc) = (if fh \<noteq> zeroHash then bc_GetBlockByHash kec fh bc else (None, bc));
                         currentFastBlock = (case fast of Some b \<Rightarrow> b | None \<Rightarrow> currentBlock);
                         bc = bc\<lparr>bc_currentFastBlock := Some currentFastBlock\<rparr>;
                         (_, bc) = bc_GetTd (Header_Hash kec currentHeader) (Uint64 (hd_Number currentHeader)) bc;
                         (_, bc) = bc_GetTd (Block_Hash kec currentBlock) (NumberU64 currentBlock) bc;
                         (_, bc) = bc_GetTd (Block_Hash kec currentFastBlock) (NumberU64 currentFastBlock) bc
                     in Ok (None, bc)))"

text \<open>A block of a chain whose head is rewound to the header \<open>h\<close>.\<close>

definition rewound :: "(bytes \<Rightarrow> bytes) \<Rightarrow> Header \<Rightarrow> Block option \<Rightarrow> BlockChain \<Rightarrow> Block option \<times> BlockChain" where
  "rewound kec h b bc =
     (case b of
        None \<Rightarrow> (None, bc)
      | Some block \<Rightarrow>
          if Uint64 (hd_Number h) < NumberU64 block then bc_GetBlock kec (Header_Hash kec h) (Uint64 (hd_Number h)) bc else (b, bc))"

text \<open>
  \<^verbatim>\<open>SetHead\<close> holds the mutex of the chain when it calls \<^verbatim>\<open>loadLastState\<close>; a \<^verbatim>\<open>Reset\<close> from there calls \<^verbatim>\<open>SetHead\<close> again and waits
  for the mutex for ever.
\<close>

definition bc_SetHead :: "(bytes \<Rightarrow> bytes) \<Rightarrow> nat \<Rightarrow> u64 \<Rightarrow> BlockChain \<Rightarrow> (unit, import_error option \<times> BlockChain) res" where
  "bc_SetHead kec fuel head bc =
     res_bind (hc_SetHead kec (Some DeleteBody) fuel head (bc_hc bc)) (\<lambda>hc.
       let bc = bc\<lparr>bc_hc := hc, bc_bodyCache := Lru_Purge (bc_bodyCache bc), bc_bodyRLPCache := Lru_Purge (bc_bodyRLPCache bc),
                   bc_blockCache := Lru_Purge (bc_blockCache bc), bc_futureBlocks := Lru_Purge (bc_futureBlocks bc)\<rparr>
       in case hc_currentHeader hc of
            None \<Rightarrow> Panic
          | Some h \<Rightarrow>
              (let (b, bc) = rewound kec h (bc_currentBlock bc) bc;
                   b = (case b of None \<Rightarrow> None | Some block \<Rightarrow> if has_state (hd_Root (bl_header block)) (bc_db bc) then b else None);
                   (f, bc) = rewound kec h (bc_currentFastBlock bc) bc;
                   current = (case b of None \<Rightarrow> bc_genesisBlock bc | Some block \<Rightarrow> block);
                   fast = (case f of None \<Rightarrow> bc_genesisBlock bc | Some block \<Rightarrow> block);
                   bc = (set_db (WriteHeadFastBlockHash (Block_Hash kec fast) (WriteHeadBlockHash (Block_Hash kec current) (bc_db bc))) bc)
                          \<lparr>bc_currentBlock := Some current, bc_currentFastBlock := Some fast\<rparr>
               in loadLastState kec (\<lambda>_. Diverge) bc))"

definition ResetWithGenesisBlock ::
  "(bytes \<Rightarrow> bytes) \<Rightarrow> nat \<Rightarrow> Block \<Rightarrow> BlockChain \<Rightarrow> (unit, import_error option \<times> BlockChain) res" where
  "ResetWithGenesisBlock kec fuel genesis bc =
     res_bind (bc_SetHead kec fuel 0 bc) (\<lambda>(err, bc).
       if err \<noteq> None then Ok (err, bc)
       else case hc_WriteTd (Block_Hash kec genesis) (NumberU64 genesis) (hd_Difficulty (bl_header genesis)) (bc_hc bc) of
              Ok hc \<Rightarrow>
                (case WriteBlock kec genesis (hc_db hc) of
                   Ok db \<Rightarrow>
                     (let bc = (set_db db (bc\<lparr>bc_hc := hc\<rparr>))\<lparr>bc_genesisBlock := genesis\<rparr>;
                          bc = (bc_insert kec genesis bc)\<lparr>bc_currentBlock := Some genesis\<rparr>;
                          hc = SetCurrentHeader kec (bl_header genesis) (SetGenesis (bl_header genesis) (bc_hc bc))
                      in Ok (None, bc\<lparr>bc_hc := hc, bc_currentFastBlock := Some genesis\<rparr>))
                 | _ \<Rightarrow> Panic)
            | _ \<Rightarrow> Panic)"

definition bodyCacheLimit :: int where "bodyCacheLimit = 256"
definition blockCacheLimit :: int where "blockCacheLimit = 256"
definition maxFutureBlocks :: int where "maxFutureBlocks = 256"
definition badBlockLimit :: int where "badBlockLimit = 10"
definition maxTimeFutureBlocks :: int where "maxTimeFutureBlocks = 30"

text \<open>The genesis is read before the chain is used; \<open>NewBlockWithHeader\<close> of the header chain's genesis holds its place until then.\<close>

definition NewBlockChainWithEngine ::
  "(bytes \<Rightarrow> bytes) \<Rightarrow> nat \<Rightarrow> store \<Rightarrow> (unit, (import_error, BlockChain) res) res" where
  "NewBlockChainWithEngine kec fuel db =
     (case (NewLRU bodyCacheLimit, NewLRU bodyCacheLimit, NewLRU blockCacheLimit, NewLRU maxFutureBlocks, NewLRU badBlockLimit) of
        (Ok bodies, Ok rlps, Ok blocks, Ok future, Ok bad) \<Rightarrow>
          or_return (NewHeaderChain kec db) (\<lambda>_. Err ErrGenesisMissing) (\<lambda>hc.
            (let bc = \<lparr>bc_hc = hc, bc_genesisBlock = NewBlockWithHeader (hc_genesisHeader hc), bc_currentBlock = None,
                       bc_currentFastBlock = None, bc_bodyCache = bodies, bc_bodyRLPCache = rlps, bc_blockCache = blocks,
                       bc_futureBlocks = future, bc_badBlocks = bad\<rparr>
             in case bc_GetBlockByNumber kec 0 bc of
                  (None, _) \<Rightarrow> Ok (Err ErrGenesisMissing)
                | (Some genesis, bc) \<Rightarrow>
                    res_map (\<lambda>(err, bc). case err of None \<Rightarrow> Ok bc | Some e \<Rightarrow> Err e)
                      (loadLastState kec (ResetWithGenesisBlock kec fuel genesis) (bc\<lparr>bc_genesisBlock := genesis\<rparr>))))
      | _ \<Rightarrow> Panic)"

definition FastSyncCommitHead :: "(bytes \<Rightarrow> bytes) \<Rightarrow> hash \<Rightarrow> BlockChain \<Rightarrow> (unit, import_error option \<times> BlockChain) res" where
  "FastSyncCommitHead kec hash bc =
     (case bc_GetBlockByHash kec hash bc of
        (None, bc) \<Rightarrow> Ok (Some ErrMissingBlock, bc)
      | (Some block, bc) \<Rightarrow>
          (case NewSecure (hd_Root (bl_header block)) (Some (bc_db bc)) 0 of
             Ok _ \<Rightarrow> Ok (None, bc\<lparr>bc_currentBlock := Some block\<rparr>)
           | Err e \<Rightarrow> Ok (Some (ErrStateOpen e), bc)
           | Panic \<Rightarrow> Panic
           | Diverge \<Rightarrow> Diverge))"

text \<open>
  Rolling back to parents.  A parent header that is not stored leaves the chain without a current header, under the hash
  of an encoded nil; a missing parent block is dereferenced.
\<close>

definition rollback_header :: "(bytes \<Rightarrow> bytes) \<Rightarrow> hash \<Rightarrow> BlockChain \<Rightarrow> (unit, BlockChain) res" where
  "rollback_header kec hash bc =
     (case hc_currentHeader (bc_hc bc) of
        None \<Rightarrow> if kec [0xC0] = hash then Panic else Ok bc
      | Some h \<Rightarrow>
          if Header_Hash kec h \<noteq> hash then Ok bc
          else case bc_GetHeader (hd_ParentHash h) (Uint64 (hd_Number h) - 1) bc of
                 (Some p, bc) \<Rightarrow> Ok (bc\<lparr>bc_hc := SetCurrentHeader kec p (bc_hc bc)\<rparr>)
               | (None, bc) \<Rightarrow>
                   Ok (bc\<lparr>bc_hc := (bc_hc bc)\<lparr>hc_db := WriteHeadHeaderHash (kec [0xC0]) (bc_db bc), hc_currentHeader := None,
                                               hc_currentHeaderHash := kec [0xC0]\<rparr>\<rparr>))"

definition rollback_block :: "(bytes \<Rightarrow> bytes) \<Rightarrow> hash \<Rightarrow> Block option \<Rightarrow> BlockChain \<Rightarrow> (unit, Block option \<times> BlockChain) res" where
  "rollback_block kec hash b bc =
     (case b of
        None \<Rightarrow> Panic
      | Some block \<Rightarrow>
          if Block_Hash kec block \<noteq> hash then Ok (None, bc)
          else case bc_GetBlock kec (hd_ParentHash (bl_header block)) (NumberU64 block - 1) bc of
                 (None, _) \<Rightarrow> Panic
               | (Some p, bc) \<Rightarrow> Ok (Some p, bc))"

fun Rollback_loop :: "(bytes \<Rightarrow> bytes) \<Rightarrow> hash list \<Rightarrow> BlockChain \<Rightarrow> (unit, BlockChain) res" where
  "Rollback_loop kec [] bc = Ok bc"
| "Rollback_loop kec (hash # chain) bc =
     res_bind (rollback_header kec hash bc) (\<lambda>bc.
     res_bind (rollback_block kec hash (bc_currentFastBlock bc) bc) (\<lambda>(f, bc).
       let bc = (case f of None \<Rightarrow> bc
                 | Some p \<Rightarrow> (set_db (WriteHeadFastBlockHash (Block_Hash kec p) (bc_db bc)) bc)\<lparr>bc_currentFastBlock := Some p\<rparr>)
       in res_bind (rollback_block kec hash (bc_currentBlock bc) bc) (\<lambda>(b, bc).
            let bc = (case b of None \<Rightarrow> bc
                      | Some p \<Rightarrow> (set_db (WriteHeadBlockHash (Block_Hash kec p) (bc_db bc)) bc)\<lparr>bc_currentBlock := Some p\<rparr>)
            in Rollback_loop kec chain bc)))"

definition Rollback :: "(bytes \<Rightarrow> bytes) \<Rightarrow> hash list \<Rightarrow> BlockChain \<Rightarrow> (unit, BlockChain) res" where
  "Rollback kec chain bc = Rollback_loop kec (rev chain) bc"

section \<open>Validating and processing\<close>

definition ValidateBody ::
  "(bytes \<Rightarrow> bytes) \<Rightarrow> (bytes \<Rightarrow> bytes) \<Rightarrow> Block \<Rightarrow> BlockChain \<Rightarrow> (unit, import_error option \<times> BlockChain) res" where
  "ValidateBody kec sha block bc =
     (case HasBlockAndState kec (Block_Hash kec block) bc of
        (True, bc) \<Rightarrow> Ok (Some ErrKnownBlock, bc)
      | (False, bc) \<Rightarrow>
          (case HasBlockAndState kec (hd_ParentHash (bl_header block)) bc of
             (False, bc) \<Rightarrow> Ok (Some ErrNoAncestor, bc)
           | (True, bc) \<Rightarrow>
               res_map (\<lambda>hash. (if hash \<noteq> hd_TxHash (bl_header block) then Some ErrTxRoot else None, bc))
                 (DeriveSha sha (tx_CalculateHash kec) (bl_transactions block))))"

text \<open>The orders in which the maps of a state are walked through.\<close>

record commit_order =
  or_addresses :: "address list"
  or_storage :: "address \<Rightarrow> hash list"
  or_keys :: "SecureTrie \<Rightarrow> bytes list"
  or_preimages :: "hash list"

definition ValidateState ::
  "(bytes \<Rightarrow> bytes) \<Rightarrow> (bytes \<Rightarrow> bytes) \<Rightarrow> nat \<Rightarrow> commit_order \<Rightarrow> store \<Rightarrow> Block \<Rightarrow> (SecureTrie, 'l) StateDB \<Rightarrow> Receipt list
    \<Rightarrow> (unit, import_error option \<times> (SecureTrie, 'l) StateDB) res" where
  "ValidateState kec sha fuel ord db block statedb receipts =
     res_bind (DeriveSha sha receipt_CalculateHash receipts) (\<lambda>receiptSha.
       if receiptSha \<noteq> hd_ReceiptHash (bl_header block) then Ok (Some ErrReceiptRoot, statedb)
       else res_map (\<lambda>(root, s). (if hd_Root (bl_header block) \<noteq> root then Some ErrStateRoot else None, s))
              (IntermediateRoot (secure_backend kec fuel db) kec (or_storage ord) (or_addresses ord) True statedb))"

definition NewReceipt :: "bool \<Rightarrow> Receipt" where
  "NewReceipt failed = \<lparr>rc_Status = (if failed then 0 else 1), rc_ConfirmCount = 0, rc_TxHash = zeroHash\<rparr>"

definition ApplyTransaction :: "(bytes \<Rightarrow> bytes) \<Rightarrow> Transaction \<Rightarrow> Receipt" where
  "ApplyTransaction kec tx = (NewReceipt False)\<lparr>rc_TxHash := Transaction_Hash kec tx, rc_ConfirmCount := 1\<rparr>"

fun Process_loop ::
  "(bytes \<Rightarrow> bytes) \<Rightarrow> hash \<Rightarrow> u64 \<Rightarrow> Transaction list \<Rightarrow> (SecureTrie, 'l) StateDB \<Rightarrow> Receipt list \<times> (SecureTrie, 'l) StateDB" where
  "Process_loop kec bhash i [] statedb = ([], statedb)"
| "Process_loop kec bhash i (tx # txs) statedb =
     (case Process_loop kec bhash (i + 1) txs (Prepare (Transaction_Hash kec tx) bhash i statedb) of
        (receipts, statedb) \<Rightarrow> (ApplyTransaction kec tx # receipts, statedb))"

text \<open>The engine's last word on a block's state.\<close>

type_synonym 'l finalizer =
  "Header \<Rightarrow> (SecureTrie, 'l) StateDB \<Rightarrow> Transaction list \<Rightarrow> ProofState list \<Rightarrow> Receipt list
    \<Rightarrow> (import_error, (SecureTrie, 'l) StateDB) res"

definition Process ::
  "(bytes \<Rightarrow> bytes) \<Rightarrow> 'l finalizer \<Rightarrow> Block \<Rightarrow> (SecureTrie, 'l) StateDB \<Rightarrow> (import_error, Receipt list \<times> (SecureTrie, 'l) StateDB) res" where
  "Process kec finalize block statedb =
     (case Process_loop kec (Block_Hash kec block) 0 (bl_transactions block) statedb of
        (receipts, statedb) \<Rightarrow>
          res_map (Pair receipts) (finalize (bl_header block) statedb (bl_transactions block) (bl_proofs block) receipts))"

section \<open>Importing blocks\<close>

definition state_CommitTo ::
  "(bytes \<Rightarrow> bytes) \<Rightarrow> nat \<Rightarrow> commit_order \<Rightarrow> store \<Rightarrow> (SecureTrie, 'l) StateDB \<Rightarrow> store
    \<Rightarrow> (unit, (state_error, hash) res \<times> (SecureTrie, 'l) StateDB \<times> store) res" where
  "state_CommitTo kec fuel ord db statedb batch =
     StateDB_CommitTo (secure_backend kec fuel db) kec (\<lambda>t. sec_CommitTo kec (\<lambda>d k v. Ok (d(k \<mapsto> v))) (or_keys ord t) t)
       (or_storage ord) (or_addresses ord) True statedb batch"

definition preimage_list :: "commit_order \<Rightarrow> (SecureTrie, 'l) StateDB \<Rightarrow> (hash \<times> bytes) list" where
  "preimage_list ord statedb =
     concat (map (\<lambda>h. case sd_preimages statedb h of None \<Rightarrow> [] | Some p \<Rightarrow> [(h, p)]) (or_preimages ord))"

definition finish_write :: "(bytes \<Rightarrow> bytes) \<Rightarrow> Block \<Rightarrow> WriteStatus \<Rightarrow> store \<Rightarrow> BlockChain \<Rightarrow> BlockChain" where
  "finish_write kec block status batch bc =
     (let bc = set_db (bc_db bc ++ batch) bc;
          bc = (if status = CanonStatTy then bc_insert kec block bc else bc)
      in bc\<lparr>bc_futureBlocks := Lru_Remove (Block_Hash kec block) (bc_futureBlocks bc)\<rparr>)"

definition WriteBlockAndState ::
  "(bytes \<Rightarrow> bytes) \<Rightarrow> nat \<Rightarrow> commit_order \<Rightarrow> Block \<Rightarrow> Receipt list \<Rightarrow> (SecureTrie, 'l) StateDB \<Rightarrow> BlockChain
    \<Rightarrow> (unit, WriteStatus \<times> import_error option \<times> BlockChain) res" where
  "WriteBlockAndState kec fuel ord block receipts statedb bc =
     (let hash = Block_Hash kec block; number = NumberU64 block; parentHash = hd_ParentHash (bl_header block);
          (ptd, bc) = bc_GetTd parentHash (number - 1) bc
      in case ptd of
           None \<Rightarrow> Ok (NonStatTy, Some ErrNoAncestor, bc)
         | Some ptd \<Rightarrow>
             (case bc_currentBlock bc of
                None \<Rightarrow> Panic
              | Some current \<Rightarrow>
                  (let (localTd, bc) = bc_GetTd (Block_Hash kec current) (NumberU64 current) bc;
                       externTd = hd_Difficulty (bl_header block) + ptd
                   in or_return (hc_WriteTd hash number externTd (bc_hc bc)) (\<lambda>e. (NonStatTy, Some (ErrEncode e), bc)) (\<lambda>hc.
                      let bc = bc\<lparr>bc_hc := hc\<rparr>
                      in or_return (WriteBlock kec block Map.empty) (\<lambda>e. (NonStatTy, Some (ErrEncode e), bc)) (\<lambda>batch.
                         res_bind (state_CommitTo kec fuel ord (bc_db bc) statedb batch) (\<lambda>(root, statedb, batch).
                         or_return root (\<lambda>e. (NonStatTy, Some (ErrStateCommit e), bc)) (\<lambda>_.
                         or_return (WriteBlockReceipts hash number receipts batch) (\<lambda>e. (NonStatTy, Some (ErrEncode e), bc)) (\<lambda>batch.
                         case localTd of
                           None \<Rightarrow> Panic
                         | Some localTd \<Rightarrow>
                             if externTd > localTd
                                \<or> externTd = localTd \<and> be_nat (hd_Coinbase (bl_header block)) > be_nat (hd_Coinbase (bl_header current)) then
                               if parentHash \<noteq> Block_Hash kec current then Ok (NonStatTy, None, bc)
                               else or_return (WriteTxLookupEntries kec block batch) (\<lambda>e. (NonStatTy, Some (ErrEncode e), bc)) (\<lambda>batch.
                                      let bc = set_db (WritePreimages (preimage_list ord statedb) (bc_db bc)) bc
                                      in Ok (CanonStatTy, None, finish_write kec block CanonStatTy batch bc))
                             else Ok (SideStatTy, None, finish_write kec block SideStatTy batch bc)))))))))"

fun linked_blocks :: "(bytes \<Rightarrow> bytes) \<Rightarrow> Block list \<Rightarrow> bool" where
  "linked_blocks kec (b # b' # bs) \<longleftrightarrow>
     NumberU64 b' = NumberU64 b + 1 \<and> hd_ParentHash (bl_header b') = Block_Hash kec b \<and> linked_blocks kec (b' # bs)"
| "linked_blocks kec _ \<longleftrightarrow> True"

datatype chain_event = ChainEvent Block | ChainHeadEvent Block

definition addBadBlock :: "(bytes \<Rightarrow> bytes) \<Rightarrow> Block \<Rightarrow> BlockChain \<Rightarrow> BlockChain" where
  "addBadBlock kec block bc =
     bc\<lparr>bc_badBlocks := Lru_Add (Header_Hash kec (bl_header block)) (bl_header block) (bc_badBlocks bc)\<rparr>"

definition add_future :: "(bytes \<Rightarrow> bytes) \<Rightarrow> Block \<Rightarrow> BlockChain \<Rightarrow> BlockChain" where
  "add_future kec block bc = bc\<lparr>bc_futureBlocks := Lru_Add (Block_Hash kec block) block (bc_futureBlocks bc)\<rparr>"

text \<open>What the code outside the chain decides for one import.\<close>

record 'l import_env =
  ie_results :: "nat \<Rightarrow> import_error option"
  ie_interrupt :: "nat \<Rightarrow> bool"
  ie_now :: "nat \<Rightarrow> int"
  ie_finalize :: "'l finalizer"
  ie_order :: "nat \<Rightarrow> commit_order"

text \<open>\<open>prev\<close> is the block before in the chain, when there is one; \<open>lastCanon\<close> the last block that became canonical.\<close>

definition insert_end ::
  "(bytes \<Rightarrow> bytes) \<Rightarrow> Block option \<Rightarrow> chain_event list \<Rightarrow> BlockChain \<Rightarrow> (unit, nat \<times> chain_event list \<times> import_error option \<times> BlockChain) res" where
  "insert_end kec lastCanon events bc =
     (case lastCanon of
        None \<Rightarrow> Ok (0, events, None, bc)
      | Some b \<Rightarrow>
          res_map (\<lambda>last. (0, if last = Block_Hash kec b then events @ [ChainHeadEvent b] else events, None, bc)) (LastBlockHash kec bc))"

fun insert_loop ::
  "(bytes \<Rightarrow> bytes) \<Rightarrow> (bytes \<Rightarrow> bytes) \<Rightarrow> nat \<Rightarrow> 'l import_env \<Rightarrow> nat \<Rightarrow> Block option \<Rightarrow> Block option \<Rightarrow> chain_event list \<Rightarrow> Block list
    \<Rightarrow> BlockChain \<Rightarrow> (unit, nat \<times> chain_event list \<times> import_error option \<times> BlockChain) res" where
  "insert_loop kec sha fuel env i prev lastCanon events [] bc = insert_end kec lastCanon events bc"
| "insert_loop kec sha fuel env i prev lastCanon events (block # rest) bc =
     (if ie_interrupt env i then insert_end kec lastCanon events bc
      else
          res_bind (case ie_results env i of Some e \<Rightarrow> Ok (Some e, bc) | None \<Rightarrow> ValidateBody kec sha block bc) (\<lambda>(err, bc).
            let next_block = insert_loop kec sha fuel env (i + 1) (Some block) lastCanon events rest;
                bad = (\<lambda>e bc. Ok (i, events, Some e, addBadBlock kec block bc))
            in case err of
                 Some e \<Rightarrow>
                   if e = ErrKnownBlock then next_block bc
                   else if e = ErrFutureBlock then
                     (if hd_Time (bl_header block) > ie_now env i + maxTimeFutureBlocks then Ok (i, events, Some ErrTooFarAhead, bc)
                      else next_block (add_future kec block bc))
                   else if e = ErrNoAncestor \<and> Lru_Contains (hd_ParentHash (bl_header block)) (bc_futureBlocks bc)
                   then next_block (add_future kec block bc)
                   else bad e bc
               | None \<Rightarrow>
                   (let (parent, bc) = (case prev of
                            Some p \<Rightarrow> (Some p, bc)
                          | None \<Rightarrow> bc_GetBlock kec (hd_ParentHash (bl_header block)) (NumberU64 block - 1) bc)
                    in case parent of
                         None \<Rightarrow> Panic
                       | Some parent \<Rightarrow>
                           or_return (State_New (secure_backend kec fuel (bc_db bc)) (hd_Root (bl_header parent)))
                             (\<lambda>e. (i, events, Some (ErrStateOpen e), bc)) (\<lambda>statedb.
                           case Process kec (ie_finalize env) block statedb of
                             Err e \<Rightarrow> bad e bc
                           | Panic \<Rightarrow> Panic
                           | Diverge \<Rightarrow> Diverge
                           | Ok (receipts, statedb) \<Rightarrow>
                               res_bind (ValidateState kec sha fuel (ie_order env i) (bc_db bc) block statedb receipts) (\<lambda>(err, statedb).
                                 case err of
                                   Some e \<Rightarrow> bad e bc
                                 | None \<Rightarrow>
                                     res_bind (WriteBlockAndState kec fuel (ie_order env i) block receipts statedb bc) (\<lambda>(status, err, bc).
                                       case err of
                                         Some e \<Rightarrow> Ok (i, events, Some e, bc)
                                       | None \<Rightarrow>
                                           if status = CanonStatTy
                                           then insert_loop kec sha fuel env (i + 1) (Some block) (Some block) (events @ [ChainEvent block]) rest bc
                                           else next_block bc))))))"

definition insertChain ::
  "(bytes \<Rightarrow> bytes) \<Rightarrow> (bytes \<Rightarrow> bytes) \<Rightarrow> nat \<Rightarrow> 'l import_env \<Rightarrow> Block list \<Rightarrow> BlockChain
    \<Rightarrow> (unit, nat \<times> chain_event list \<times> import_error option \<times> BlockChain) res" where
  "insertChain kec sha fuel env chain bc =
     (if linked_blocks kec chain then insert_loop kec sha fuel env 0 None None [] chain bc
      else Ok (0, [], Some ErrNotContiguous, bc))"

text \<open>
  The blocks that wait for their time, in the order of their numbers: \<open>sort_blocks\<close> is \<^verbatim>\<open>sort.Sort\<close> by number, of which the
  code relies on nothing but that the result is sorted; blocks of equal number may come in any order.
\<close>

definition future_blocks :: "BlockChain \<Rightarrow> Block list" where
  "future_blocks bc =
     concat (map (\<lambda>h. case Lru_Peek h (bc_futureBlocks bc) of None \<Rightarrow> [] | Some b \<Rightarrow> [b]) (Lru_Keys (bc_futureBlocks bc)))"

fun insert_each ::
  "(bytes \<Rightarrow> bytes) \<Rightarrow> (bytes \<Rightarrow> bytes) \<Rightarrow> nat \<Rightarrow> (Block \<Rightarrow> 'l import_env) \<Rightarrow> Block list \<Rightarrow> BlockChain \<Rightarrow> (unit, BlockChain) res" where
  "insert_each kec sha fuel envs [] bc = Ok bc"
| "insert_each kec sha fuel envs (b # bs) bc =
     res_bind (insertChain kec sha fuel (envs b) [b] bc) (\<lambda>(_, _, _, bc). insert_each kec sha fuel envs bs bc)"

definition procFutureBlocks ::
  "(bytes \<Rightarrow> bytes) \<Rightarrow> (bytes \<Rightarrow> bytes) \<Rightarrow> nat \<Rightarrow> (Block list \<Rightarrow> Block list) \<Rightarrow> (Block \<Rightarrow> 'l import_env) \<Rightarrow> BlockChain \<Rightarrow> (unit, BlockChain) res" where
  "procFutureBlocks kec sha fuel sort_blocks envs bc = insert_each kec sha fuel envs (sort_blocks (future_blocks bc)) bc"

definition BadBlocks :: "BlockChain \<Rightarrow> Header list" where
  "BadBlocks bc =
     concat (map (\<lambda>h. case Lru_Peek h (bc_badBlocks bc) of None \<Rightarrow> [] | Some x \<Rightarrow> [x]) (Lru_Keys (bc_badBlocks bc)))"

definition bc_writeHeader ::
  "(bytes \<Rightarrow> bytes) \<Rightarrow> nat \<Rightarrow> bool \<Rightarrow> Header \<Rightarrow> BlockChain \<Rightarrow> (unit, chain_error option \<times> BlockChain) res" where
  "bc_writeHeader kec fuel coin header bc =
     res_map (\<lambda>(_, err, hc). (err, bc\<lparr>bc_hc := hc\<rparr>)) (hc_WriteHeader kec fuel coin header (bc_hc bc))"

definition bc_InsertHeaderChain ::
  "(bytes \<Rightarrow> bytes) \<Rightarrow> nat \<Rightarrow> (nat \<Rightarrow> bool) \<Rightarrow> (nat \<Rightarrow> bool) \<Rightarrow> (nat \<Rightarrow> nat option) \<Rightarrow> nat \<Rightarrow> Header list \<Rightarrow> BlockChain
    \<Rightarrow> (unit, nat \<times> chain_error option \<times> BlockChain) res" where
  "bc_InsertHeaderChain kec fuel coins stopping results checkFreq chain bc =
     res_bind (ValidateHeaderChain kec stopping results checkFreq chain) (\<lambda>(i, err).
       if err \<noteq> None then Ok (i, err, bc)
       else res_map (\<lambda>(n, err, hc). (n, err, bc\<lparr>bc_hc := hc\<rparr>)) (InsertHeaderChain kec fuel coins stopping chain (bc_hc bc)))"

end
