(* ===== verification/Block_Import.thy ===== *)
theory Block_Import
  imports Block_Chain Canonical_Chain
begin

text \<open>
  What importing a block does to the chain: a block on top of the head extends the canonical chain and is found again, a
  lighter one is stored beside it, and a heavier one on another branch is lost.
\<close>

section \<open>Keys of the chain\<close>

definition chain_key :: "bytes \<Rightarrow> bool" where
  "chain_key k \<longleftrightarrow>
     k \<in> {headHeaderKey, headBlockKey, headFastKey} \<or> (\<exists>n. k = canonicalKey n)
     \<or> (\<exists>h\<in>hashes. k = numberKey h \<or> k = lookupKey h
          \<or> (\<exists>n. k = headerKey h n \<or> k = blockBodyKey h n \<or> k = tdKey h n \<or> k = receiptsKey h n))"

lemma chain_keyI:
  "chain_key headHeaderKey" "chain_key headBlockKey" "chain_key headFastKey" "chain_key (canonicalKey n)"
  "h \<in> hashes \<Longrightarrow> chain_key (numberKey h)" "h \<in> hashes \<Longrightarrow> chain_key (lookupKey h)" "h \<in> hashes \<Longrightarrow> chain_key (headerKey h n)"
  "h \<in> hashes \<Longrightarrow> chain_key (blockBodyKey h n)" "h \<in> hashes \<Longrightarrow> chain_key (tdKey h n)" "h \<in> hashes \<Longrightarrow> chain_key (receiptsKey h n)"
  unfolding chain_key_def by blast+

lemma chain_view_cong:
  assumes "\<And>k. chain_key k \<Longrightarrow> d k = d' k"
  shows "chain_view d = chain_view d'"
  using chain_keyI [THEN assms]
  by (auto simp: chain_view_def reader_defs fun_eq_iff Let_def simp del: prefix_chars)

text \<open>Preimages are stored under a prefix that no item of the chain has.\<close>

lemma preimage_not_chain: "\<not> chain_key (preimagePrefix @ h)"
  by (auto simp: chain_key_def key_defs preimagePrefix_def ascii_def headHeaderKey_def headBlockKey_def headFastKey_def)

lemma WritePreimages_view: "chain_view (WritePreimages pre db) = chain_view db"
proof -
  have "fold (\<lambda>(h, p) batch. if db (preimagePrefix @ h) = None then batch(preimagePrefix @ h \<mapsto> p) else batch) pre b k = b k"
    if "chain_key k" for b k
    using that preimage_not_chain by (induction pre arbitrary: b) (auto split: if_splits)
  then show ?thesis by (intro chain_view_cong) (simp add: WritePreimages_def)
qed

section \<open>Batches\<close>

text \<open>A write to a batch is a write to the database that the batch is laid over.\<close>

lemma put_rlp_overlay: "put_rlp k v B = Ok B' \<Longrightarrow> put_rlp k v (D ++ B) = Ok (D ++ B')"
  by (auto simp: put_rlp_def split: res.splits)

lemma WriteTxLookup_overlay:
  "WriteTxLookup_loop kec h n i txs B = Ok B' \<Longrightarrow> WriteTxLookup_loop kec h n i txs (D ++ B) = Ok (D ++ B')"
  by (induction txs arbitrary: i B) (auto dest: put_rlp_overlay [where D = D])

lemma WriteBlock_overlay: "WriteBlock kec b B = Ok B' \<Longrightarrow> WriteBlock kec b (D ++ B) = Ok (D ++ B')"
  by (auto simp: WriteBlock_def WriteBody_def WriteBodyRLP_def WriteHeader_def Let_def)

lemma WriteBlock_batch_view:
  assumes kl: "\<And>x. length (kec x) = 32" and "header_ok (bl_header b)" "body_ok (Block_Body b)"
  shows "\<exists>B'. WriteBlock kec b B = Ok B' \<and> (\<forall>D. chain_view (D ++ B') = view_step kec (BlockW b) (chain_view (D ++ B)))"
proof -
  from chain_step_view [of kec "BlockW b" B, OF kl] assms(2,3) obtain B' where B': "WriteBlock kec b B = Ok B'" by auto
  have "chain_view (D ++ B') = view_step kec (BlockW b) (chain_view (D ++ B))" for D
    using chain_step_view [of kec "BlockW b" "D ++ B", OF kl] assms(2,3) WriteBlock_overlay [OF B', of D] by auto
  then show ?thesis using B' by blast
qed

lemma WriteBlockReceipts_batch_view:
  assumes kl: "\<And>x. length (kec x) = 32" and "h \<in> hashes" "receipts_ok rs"
  shows "\<exists>B'. WriteBlockReceipts h n rs B = Ok B' \<and> (\<forall>D. chain_view (D ++ B') = view_step kec (ReceiptsW h n rs) (chain_view (D ++ B)))"
proof -
  from chain_step_view [of kec "ReceiptsW h n rs" B, OF kl] assms(2,3) obtain B' where B': "WriteBlockReceipts h n rs B = Ok B'" by auto
  have "chain_view (D ++ B') = view_step kec (ReceiptsW h n rs) (chain_view (D ++ B))" for D
    using chain_step_view [of kec "ReceiptsW h n rs" "D ++ B", OF kl] assms(2,3) put_rlp_overlay [OF B' [unfolded WriteBlockReceipts_def], of D]
    by (auto simp: WriteBlockReceipts_def)
  then show ?thesis using B' by blast
qed

lemma WriteTxLookup_batch_view:
  assumes kl: "\<And>x. length (kec x) = 32"
  shows "\<exists>B'. WriteTxLookupEntries kec b B = Ok B' \<and> (\<forall>D. chain_view (D ++ B') = view_step kec (LookupW b) (chain_view (D ++ B)))"
proof -
  from chain_step_view [of kec "LookupW b" B, OF kl] obtain B' where B': "WriteTxLookupEntries kec b B = Ok B'" by auto
  have "chain_view (D ++ B') = view_step kec (LookupW b) (chain_view (D ++ B))" for D
    using chain_step_view [of kec "LookupW b" "D ++ B", OF kl] WriteTxLookup_overlay [OF B' [unfolded WriteTxLookupEntries_def], of D]
    by (auto simp: WriteTxLookupEntries_def)
  then show ?thesis using B' by blast
qed

section \<open>The import of a block\<close>

text \<open>
  A state that can be committed over a database: nothing is missing, and what is written are nodes of tries and preimages,
  no items of the chain.
\<close>

definition commits :: "(bytes \<Rightarrow> bytes) \<Rightarrow> nat \<Rightarrow> commit_order \<Rightarrow> (SecureTrie, 'l) StateDB \<Rightarrow> store \<Rightarrow> bool" where
  "commits kec fuel ord s db \<longleftrightarrow>
     (\<forall>batch. \<exists>root s' batch'. state_CommitTo kec fuel ord db s batch = Ok (Ok root, s', batch') \<and> (\<forall>k. chain_key k \<longrightarrow> batch' k = batch k))"

text \<open>When the code prefers a block to the current one: more difficulty, or as much and a higher coinbase.\<close>

definition preferred :: "Block \<Rightarrow> Block \<Rightarrow> int \<Rightarrow> int \<Rightarrow> bool" where
  "preferred block current externTd localTd \<longleftrightarrow>
     externTd > localTd \<or> externTd = localTd \<and> be_nat (hd_Coinbase (bl_header block)) > be_nat (hd_Coinbase (bl_header current))"

text \<open>The current block is the current header's, and the header chain is well formed.\<close>

definition bc_inv :: "(bytes \<Rightarrow> bytes) \<Rightarrow> hash \<Rightarrow> BlockChain \<Rightarrow> bool" where
  "bc_inv kec g bc \<longleftrightarrow>
     hc_inv kec g (bc_hc bc) \<and> (\<exists>b. bc_currentBlock bc = Some b \<and> hc_currentHeader (bc_hc bc) = Some (bl_header b))"

text \<open>What a caller must know of a block, its receipts and its state.\<close>

definition block_importable :: "(bytes \<Rightarrow> bytes) \<Rightarrow> nat \<Rightarrow> commit_order \<Rightarrow> Block \<Rightarrow> Receipt list \<Rightarrow> (SecureTrie, 'l) StateDB \<Rightarrow> BlockChain \<Rightarrow> bool" where
  "block_importable kec fuel ord b rs s bc \<longleftrightarrow>
     importable kec (bl_header b) (chain_view (bc_db bc)) \<and> body_ok (Block_Body b) \<and> receipts_ok rs
     \<and> (\<forall>db. (\<forall>k. \<not> chain_key k \<longrightarrow> db k = bc_db bc k) \<longrightarrow> commits kec fuel ord s db)"

lemma hc_GetTd_db: "hc_GetTd h n hc = (r, hc') \<Longrightarrow> hc_db hc' = hc_db hc"
  by (auto simp: hc_GetTd_def split: prod.splits option.splits)

text \<open>The batch of a block, its state and its receipts.\<close>

lemma import_batch:
  assumes kl: "\<And>x. length (kec x) = 32"
    and b: "header_ok (bl_header b)" "body_ok (Block_Body b)" "receipts_ok rs" and s: "commits kec fuel ord s db"
  shows "\<exists>B0 root s' B1 B2. WriteBlock kec b Map.empty = Ok B0 \<and> state_CommitTo kec fuel ord db s B0 = Ok (Ok root, s', B1)
    \<and> WriteBlockReceipts (Block_Hash kec b) (NumberU64 b) rs B1 = Ok B2
    \<and> (\<forall>D. chain_view (D ++ B2) = view_step kec (ReceiptsW (Block_Hash kec b) (NumberU64 b) rs) (view_step kec (BlockW b) (chain_view D)))"
proof -
  have h: "Block_Hash kec b \<in> hashes" using Header_Hash_hashes [of kec, OF kl] by (simp add: Block_Hash_def)
  from WriteBlock_batch_view [of kec b Map.empty, OF kl b(1,2)] obtain B0 where B0: "WriteBlock kec b Map.empty = Ok B0"
    and v0: "\<And>D. chain_view (D ++ B0) = view_step kec (BlockW b) (chain_view D)" by auto
  from s obtain root s' B1 where B1: "state_CommitTo kec fuel ord db s B0 = Ok (Ok root, s', B1)" "\<And>k. chain_key k \<Longrightarrow> B1 k = B0 k"
    unfolding commits_def by blast
  have v1: "chain_view (D ++ B1) = chain_view (D ++ B0)" for D
    by (rule chain_view_cong) (simp add: map_add_def B1(2))
  from WriteBlockReceipts_batch_view [of kec, OF kl h b(3), of "NumberU64 b" B1] obtain B2 where
    B2: "WriteBlockReceipts (Block_Hash kec b) (NumberU64 b) rs B1 = Ok B2"
    and v2: "\<And>D. chain_view (D ++ B2) = view_step kec (ReceiptsW (Block_Hash kec b) (NumberU64 b) rs) (chain_view (D ++ B1))" by auto
  show ?thesis using B0 B1(1) B2 by (auto simp: v0 v1 v2 simp del: view_step.simps)
qed

lemma import_prefix:
  assumes kl: "\<And>x. length (kec x) = 32"
    and inv: "bc_inv kec g bc" "bc_currentBlock bc = Some cur" and imp: "block_importable kec fuel ord b rs s bc"
  shows "\<exists>ptd ltd bc2 pre B. v_td (chain_view (bc_db bc)) (hd_ParentHash (bl_header b)) (NumberU64 b - 1) = Some ptd
    \<and> v_td (chain_view (bc_db bc)) (Block_Hash kec cur) (NumberU64 cur) = Some ltd
    \<and> chain_view (bc_db bc2) = (chain_view (bc_db bc))\<lparr>v_td := upd2 (v_td (chain_view (bc_db bc))) (Block_Hash kec b) (NumberU64 b) (Some (hd_Difficulty (bl_header b) + ptd))\<rparr>
    \<and> bc_currentBlock bc2 = Some cur \<and> hc_currentHeader (bc_hc bc2) = Some (bl_header cur) \<and> hc_currentHeaderHash (bc_hc bc2) = Block_Hash kec cur
    \<and> caches_ok (view_import kec (bl_header b) (hd_Difficulty (bl_header b) + ptd) (chain_view (bc_db bc))) (bc_hc bc2)
    \<and> (\<forall>D. chain_view (D ++ B) = view_step kec (ReceiptsW (Block_Hash kec b) (NumberU64 b) rs) (view_step kec (BlockW b) (chain_view D)))
    \<and> WriteBlockAndState kec fuel ord b rs s bc =
        (if preferred b cur (hd_Difficulty (bl_header b) + ptd) ltd then
           if hd_ParentHash (bl_header b) \<noteq> Block_Hash kec cur then Ok (NonStatTy, None, bc2)
           else or_return (WriteTxLookupEntries kec b B) (\<lambda>e. (NonStatTy, Some (ErrEncode e), bc2)) (\<lambda>batch.
                  Ok (CanonStatTy, None, finish_write kec b CanonStatTy batch (set_db (WritePreimages (pre) (bc_db bc2)) bc2)))
         else Ok (SideStatTy, None, finish_write kec b SideStatTy B bc2))"
proof -
  let ?w = "chain_view (bc_db bc)" and ?x = "bl_header b"
  have hcur: "hc_inv kec g (bc_hc bc)" "hc_currentHeader (bc_hc bc) = Some (bl_header cur)" using inv by (auto simp: bc_inv_def)
  note i = hc_invD [OF hcur]
  have x: "importable kec ?x ?w" "body_ok (Block_Body b)" "receipts_ok rs" using imp by (simp_all add: block_importable_def)
  from WriteHeader_stored [of kec, OF kl i(1,2,4) x(1)] obtain ptd ltd hc1 hc2 hc3 db where
    td: "v_td ?w (hd_ParentHash ?x) (NumberU64 b - 1) = Some ptd" "v_td ?w (Block_Hash kec cur) (NumberU64 cur) = Some ltd"
    and g: "hc_GetTd (hd_ParentHash ?x) (NumberU64 b - 1) (bc_hc bc) = (Some ptd, hc1)"
      "hc_GetTd (Block_Hash kec cur) (NumberU64 cur) hc1 = (Some ltd, hc2)"
      "hc_WriteTd (Block_Hash kec b) (NumberU64 b) (hd_Difficulty ?x + ptd) hc2 = Ok hc3"
      "hc_same ((bc_hc bc)\<lparr>hc_db := db\<rparr>) (hc3\<lparr>hc_db := db\<rparr>)"
    and c: "chain_view db = view_import kec ?x (hd_Difficulty ?x + ptd) ?w" "caches_ok (chain_view db) (hc3\<lparr>hc_db := db\<rparr>)"
    unfolding NumberU64_def Block_Hash_def by blast
  define bc2 where "bc2 = bc\<lparr>bc_hc := hc3\<rparr>"
  have h: "Block_Hash kec b \<in> hashes" using Header_Hash_hashes [of kec, OF kl] by (simp add: Block_Hash_def)
  have db2: "hc_db hc2 = bc_db bc" using hc_GetTd_db [OF g(1)] hc_GetTd_db [OF g(2)] by simp
  have "td_ok (hd_Difficulty ?x + ptd)" using x(1) td(1) by (simp add: importable_def NumberU64_def)
  from WriteTd_view [OF h this, of "NumberU64 b" "bc_db bc"] g(3) have
    v: "chain_view (bc_db bc2) = ?w\<lparr>v_td := upd2 (v_td ?w) (Block_Hash kec b) (NumberU64 b) (Some (hd_Difficulty ?x + ptd))\<rparr>"
    and wr: "WriteTd (Block_Hash kec b) (NumberU64 b) (hd_Difficulty ?x + ptd) (bc_db bc) = Ok (bc_db bc2)"
    by (auto simp: hc_WriteTd_def db2 bc2_def)
  have "\<forall>k. \<not> chain_key k \<longrightarrow> bc_db bc2 k = bc_db bc k"
    using wr chain_keyI(9) [OF h] by (auto simp: WriteTd_def put_rlp_def)
  then have "commits kec fuel ord s (bc_db bc2)" using imp by (simp add: block_importable_def)
  from import_batch [of kec, OF kl _ x(2,3) this] x(1) obtain B0 root s' B1 B where
    B: "WriteBlock kec b Map.empty = Ok B0" "state_CommitTo kec fuel ord (bc_db bc2) s B0 = Ok (Ok root, s', B1)"
      "WriteBlockReceipts (Block_Hash kec b) (NumberU64 b) rs B1 = Ok B"
      "\<And>D. chain_view (D ++ B) = view_step kec (ReceiptsW (Block_Hash kec b) (NumberU64 b) rs) (view_step kec (BlockW b) (chain_view D))"
    unfolding importable_def by blast
  have same: "bc_currentBlock bc2 = Some cur" "hc_currentHeader (bc_hc bc2) = Some (bl_header cur)" "hc_currentHeaderHash (bc_hc bc2) = Block_Hash kec cur"
    using g(4) inv(2) hcur(2) i(3) by (simp_all add: bc2_def hc_same_def Block_Hash_def)
  have ca: "caches_ok (view_import kec ?x (hd_Difficulty ?x + ptd) ?w) (bc_hc bc2)" using c by (simp add: caches_ok_def bc2_def)
  have eq: "WriteBlockAndState kec fuel ord b rs s bc =
        (if preferred b cur (hd_Difficulty ?x + ptd) ltd then
           if hd_ParentHash ?x \<noteq> Block_Hash kec cur then Ok (NonStatTy, None, bc2)
           else or_return (WriteTxLookupEntries kec b B) (\<lambda>e. (NonStatTy, Some (ErrEncode e), bc2)) (\<lambda>batch.
                  Ok (CanonStatTy, None, finish_write kec b CanonStatTy batch (set_db (WritePreimages (preimage_list ord s') (bc_db bc2)) bc2)))
         else Ok (SideStatTy, None, finish_write kec b SideStatTy B bc2))"
    using g(1-3) inv(2) B(1-3) by (simp add: WriteBlockAndState_def bc_GetTd_def Let_def bc2_def preferred_def)
  show ?thesis
    by (rule exI [of _ ptd], rule exI [of _ ltd], rule exI [of _ bc2], rule exI [of _ "preimage_list ord s'"], rule exI [of _ B], insert td v same ca B(4) eq, intro conjI allI)
qed

section \<open>Samples\<close>

text \<open>A state with nothing to write, and a chain with a given header chain and current block.\<close>

definition no_order :: commit_order where
  "no_order = \<lparr>or_addresses = [], or_storage = (\<lambda>_. []), or_keys = (\<lambda>_. []), or_preimages = []\<rparr>"

lemma sample_state: "\<exists>s :: (SecureTrie, unit) StateDB. State_New (secure_backend kec fuel Map.empty) zeroHash = Ok s \<and> (\<forall>db. commits kec fuel no_order s db)"
  by (auto simp: State_New_def secure_backend_def NewSecure_def Trie_New_def SetCacheLimit_def commits_def state_CommitTo_def StateDB_CommitTo_def no_order_def
      sec_CommitTo_def CommitTo_def hashRoot_def getSecKeyCache_def Let_def)

definition sample_block :: "Header \<Rightarrow> Block" where
  "sample_block x = \<lparr>bl_header = x, bl_transactions = [], bl_proofs = []\<rparr>"

definition sample_bc :: "HeaderChain \<Rightarrow> Header \<Rightarrow> BlockChain" where
  "sample_bc hc x =
     \<lparr>bc_hc = hc, bc_genesisBlock = sample_block x, bc_currentBlock = Some (sample_block x), bc_currentFastBlock = Some (sample_block x),
      bc_bodyCache = \<lparr>lru_size = 1, lru_items = []\<rparr>, bc_bodyRLPCache = \<lparr>lru_size = 1, lru_items = []\<rparr>, bc_blockCache = \<lparr>lru_size = 1, lru_items = []\<rparr>,
      bc_futureBlocks = \<lparr>lru_size = 1, lru_items = []\<rparr>, bc_badBlocks = \<lparr>lru_size = 1, lru_items = []\<rparr>\<rparr>"

lemma sample_block_ok: "body_ok (Block_Body (sample_block x))" "receipts_ok []"
  by (simp_all add: sample_block_def body_ok_def Block_Body_def body_rval_def encodable_def Body_type_def Transaction_type_def ProofState_type_def
      receipts_ok_def Receipts_type_def Receipt_type_def HashLength_def AddressLength_def rlp_list_def rlp_head_def wf_bits_def)

lemma sample_importable:
  "hc_inv kec g hc \<Longrightarrow> hc_currentHeader hc = Some x \<Longrightarrow> bc_inv kec g (sample_bc hc x)"
  "importable kec y (chain_view (hc_db hc)) \<Longrightarrow> (\<And>db. commits kec fuel no_order s db) \<Longrightarrow> block_importable kec fuel no_order (sample_block y) [] s (sample_bc hc x)"
  using sample_block_ok by (auto simp: bc_inv_def sample_bc_def block_importable_def) (simp_all add: sample_block_def)

text \<open>
  C34: A heavier branch is not adopted.  When the code prefers a block whose parent is not the current block, it writes the
  block's total difficulty, reports neither a status nor an error, and stores nothing else: not the block, its receipts or
  its state.  The current block stays although a heavier one is known.
\<close>

theorem heavier_branch_dropped:
  assumes kl: "\<And>x. length (kec x) = 32"
    and inv: "bc_inv kec g bc" "bc_currentBlock bc = Some cur" and imp: "block_importable kec fuel ord b rs s bc"
    and td: "v_td (chain_view (bc_db bc)) (hd_ParentHash (bl_header b)) (NumberU64 b - 1) = Some ptd"
      "v_td (chain_view (bc_db bc)) (Block_Hash kec cur) (NumberU64 cur) = Some ltd"
    and pref: "preferred b cur (hd_Difficulty (bl_header b) + ptd) ltd" and fork: "hd_ParentHash (bl_header b) \<noteq> Block_Hash kec cur"
  shows "\<exists>bc'. WriteBlockAndState kec fuel ord b rs s bc = Ok (NonStatTy, None, bc') \<and> bc_currentBlock bc' = Some cur
    \<and> chain_view (bc_db bc') = (chain_view (bc_db bc))\<lparr>v_td := upd2 (v_td (chain_view (bc_db bc))) (Block_Hash kec b) (NumberU64 b)
        (Some (hd_Difficulty (bl_header b) + ptd))\<rparr>"
  using import_prefix [of kec, OF kl inv imp] td pref fork by auto

section \<open>Extending the chain\<close>

lemma ok_cong:
  assumes "v_header w = v_header w'" "v_td w = v_td w'" "v_number w = v_number w'"
  shows "headers_ok kec g w \<longleftrightarrow> headers_ok kec g w'" "caches_ok w hc \<longleftrightarrow> caches_ok w' hc"
  using assms by (simp_all add: headers_ok_def caches_ok_def)

lemma view_lookup_other_fields [simp]:
  "v_header (view_lookup kec h n i txs w) = v_header w" "v_td (view_lookup kec h n i txs w) = v_td w"
  "v_number (view_lookup kec h n i txs w) = v_number w" "v_canonical (view_lookup kec h n i txs w) = v_canonical w"
  "v_receipts (view_lookup kec h n i txs w) = v_receipts w"
  by (induction txs arbitrary: i w) auto

text \<open>The header, difficulty, number and canonical parts of the store after a block's batch is written.\<close>

lemma import_view:
  fixes b :: Block and kec and rs :: "Receipt list"
  defines "w' \<equiv> \<lambda>td w. view_step kec (ReceiptsW (Block_Hash kec b) (NumberU64 b) rs) (view_step kec (BlockW b)
      (w\<lparr>v_td := upd2 (v_td w) (Block_Hash kec b) (NumberU64 b) (Some td)\<rparr>))"
  shows "v_header (w' td w) = v_header (view_import kec (bl_header b) td w)" "v_td (w' td w) = v_td (view_import kec (bl_header b) td w)"
    "v_number (w' td w) = v_number (view_import kec (bl_header b) td w)" "v_canonical (w' td w) = v_canonical w"
    "v_body (w' td w) (Block_Hash kec b) (NumberU64 b) = Some (Block_Body b)" "v_receipts (w' td w) (Block_Hash kec b) (NumberU64 b) = Some rs"
  by (simp_all add: w'_def view_import_def view_header_def Let_def Block_Hash_def NumberU64_def upd2_def)

lemma bc_insert_head:
  assumes kl: "\<And>x. length (kec x) = 32" and "GetCanonicalHash (bc_db bc) (NumberU64 b) \<noteq> Block_Hash kec b"
  shows "bc_currentBlock (bc_insert kec b bc) = Some b" "hc_currentHeader (bc_hc (bc_insert kec b bc)) = Some (bl_header b)"
    "hc_currentHeaderHash (bc_hc (bc_insert kec b bc)) = Block_Hash kec b"
    "chain_view (bc_db (bc_insert kec b bc)) = (chain_view (bc_db bc))\<lparr>v_canonical := (v_canonical (chain_view (bc_db bc)))(NumberU64 b := Block_Hash kec b),
       v_headBlock := Block_Hash kec b, v_headHeader := Block_Hash kec b, v_headFast := Block_Hash kec b\<rparr>"
    "hc_headerCache (bc_hc (bc_insert kec b bc)) = hc_headerCache (bc_hc bc)" "hc_tdCache (bc_hc (bc_insert kec b bc)) = hc_tdCache (bc_hc bc)"
    "hc_numberCache (bc_hc (bc_insert kec b bc)) = hc_numberCache (bc_hc bc)"
proof -
  have h: "Block_Hash kec b \<in> hashes" using Header_Hash_hashes [of kec, OF kl] by (simp add: Block_Hash_def)
  show "chain_view (bc_db (bc_insert kec b bc)) = (chain_view (bc_db bc))\<lparr>v_canonical := (v_canonical (chain_view (bc_db bc)))(NumberU64 b := Block_Hash kec b),
       v_headBlock := Block_Hash kec b, v_headHeader := Block_Hash kec b, v_headFast := Block_Hash kec b\<rparr>"
    using assms(2) h by (simp add: bc_insert_def Let_def set_db_def SetCurrentHeader_def WriteHeadFastBlockHash_def WriteHeadHeaderHash_def
        WriteHeadBlockHash_def WriteCanonicalHash_def view_heads view_canonical flip: Block_Hash_def del: prefix_chars)
qed (use assms(2) in \<open>simp_all add: bc_insert_def Let_def set_db_def SetCurrentHeader_def Block_Hash_def\<close>)

lemma canonical_extend:
  assumes "canonical_ok w head k" "n = k + 1" "k \<noteq> missingNumber" "v_canonical w' = (v_canonical w)(n := h)"
    and "\<And>h m y. v_header w h m = Some y \<Longrightarrow> v_header w' h m = Some y" "v_header w' h n = Some x" "hd_ParentHash x = head"
  shows "canonical_ok w' h n"
proof -
  have u: "unat n = unat k + 1" using assms(2) unat_succ [OF assms(3)] by simp
  have "n - 1 = k" using assms(2) by simp
  then have kn: "k < n" "\<And>m. m \<le> n \<longleftrightarrow> m \<le> k \<or> m = n" "n - 1 = k" "n \<noteq> 0"
    using u by (auto simp: word_less_nat_alt word_le_nat_alt word_unat_eq_iff)
  have "canon_link (v_header w') (v_canonical w') m" if "m \<le> k" for m
  proof -
    have "m \<noteq> n" "m \<noteq> 0 \<Longrightarrow> m - 1 \<noteq> n" using that kn(1) by unat_arith+
    moreover have "canon_link (v_header w) (v_canonical w) m" using assms(1) that by (simp add: canonical_ok_def)
    ultimately show ?thesis using assms(4,5) by (auto simp: canon_link_def)
  qed
  moreover have "canon_link (v_header w') (v_canonical w') n"
    using assms(1,4,6,7) kn by (auto simp: canon_link_def canonical_ok_def)
  moreover have "v_canonical w' m = zeroHash" if "n < m" for m
    using assms(1,4) kn(1) that by (auto simp: canonical_ok_def less_trans)
  ultimately show ?thesis using assms(4) kn(2) by (auto simp: canonical_ok_def)
qed

lemma GetBlock_view:
  assumes "v_header (chain_view db) h n = Some x" "v_body (chain_view db) h n = Some \<lparr>bd_Transactions = txs, bd_Proofs = ps\<rparr>"
  shows "GetBlock db h n = Some \<lparr>bl_header = x, bl_transactions = txs, bl_proofs = ps\<rparr>"
  using assms by (auto simp: chain_view_def GetBlock_def NewBlockWithHeader_def WithBody_def split: if_splits)



text \<open>A chain of two headers, and a second child of the genesis that is heavier.\<close>

lemma sample_fork:
  defines "x \<equiv> sample_header 3 (replicate 32 1) 1 (replicate 32 2)" and "y \<equiv> sample_header 4 (replicate 32 1) 1 (replicate 32 3)"
  shows "\<exists>hc. hc_inv tail_hash (replicate 32 1) hc \<and> hc_currentHeader hc = Some x \<and> importable tail_hash y (chain_view (hc_db hc))
    \<and> v_td (chain_view (hc_db hc)) (replicate 32 1) 0 = Some 3 \<and> v_td (chain_view (hc_db hc)) (replicate 32 2) 1 = Some 6"
proof -
  let ?g = "sample_header 3 zeroHash 0 (replicate 32 1)"
  from sample_chain obtain db hc where db: "genesis_view tail_hash ?g (chain_view db)" and hc: "hc_inv tail_hash (replicate 32 1) hc" "hc_currentHeader hc = Some ?g" "hc_db hc = db"
    and imp: "importable tail_hash x (chain_view db)" and td: "v_td (chain_view db) (replicate 32 1) 0 = Some 3" unfolding x_def by blast
  have hx: "Header_Hash tail_hash ?g = replicate 32 1" "Header_Hash tail_hash x = replicate 32 2" "Header_Hash tail_hash y = replicate 32 3" "header_ok x" "header_ok y"
    by (simp_all add: x_def y_def sample_header_ok sample_header_hash zeroHash_def HashLength_def)
  have n: "hd_Number x = 1" "hd_Difficulty x = 3" "hd_ParentHash x = replicate 32 1" "hd_Number y = 1" "hd_Difficulty y = 4" "hd_ParentHash y = replicate 32 1" "Uint64 1 = 1" "hd_Number ?g = 0"
    by (simp_all add: x_def y_def sample_header_def Uint64_def)
  have tdok: "td_ok 6" "td_ok 7" by (simp_all add: td_ok_def encodable_def rlp_str_def big_bytes.simps)
  have h: "replicate 32 2 \<in> hashes" by (simp add: hashes_def HashLength_def)
  from WriteTd_view [OF h tdok(1), of 1 db] obtain db1 where 1: "chain_view db1 = (chain_view db)\<lparr>v_td := upd2 (v_td (chain_view db)) (replicate 32 2) 1 (Some 6)\<rparr>" by blast
  from WriteHeader_view [of tail_hash x db1, OF length_tail_hash hx(4)] obtain db2 where 2: "chain_view db2 = view_import tail_hash x 6 (chain_view db)"
    using 1 by (auto simp: view_import_def hx n)
  define db3 where "db3 = WriteCanonicalHash (replicate 32 2) 1 db2"
  have 3: "chain_view db3 = (chain_view db2)\<lparr>v_canonical := (v_canonical (chain_view db))(1 := replicate 32 2)\<rparr>"
    using h by (simp add: db3_def WriteCanonicalHash_def view_canonical 2 view_import_new(4))
  note i = hc_invD [OF hc(1,2), unfolded hc(3)]
  have td': "v_td (chain_view db) (hd_ParentHash x) (Uint64 (hd_Number x) - 1) = Some 3" using td by (simp add: n)
  have ok: "headers_ok tail_hash (replicate 32 1) (chain_view db2)" using view_import_headers_ok [OF i(1) imp td'] by (simp add: 2 n)
  have kept: "v_header (chain_view db2) h m = Some z" if "v_header (chain_view db) h m = Some z" for h m z
    using view_import_stored(1) [OF i(1) imp td' that] by (simp add: 2 n)
  have new: "v_header (chain_view db2) (replicate 32 2) 1 = Some x" using view_import_new(1) [of tail_hash x 6 "chain_view db"] by (simp add: 2 hx n)
  have can: "canonical_ok (chain_view db3) (replicate 32 2) 1"
    by (rule canonical_extend [OF i(5), where x = x]) (use new kept in \<open>auto simp: 3 n hx missingNumber_def\<close>)
  have w0: "v_header (chain_view db) = upd2 (\<lambda>_ _. None) (replicate 32 1) 0 (Some ?g)" using db by (simp add: genesis_view_def hx)
  define hc' where "hc' = hc\<lparr>hc_db := db3, hc_currentHeader := Some x, hc_currentHeaderHash := replicate 32 2,
    hc_headerCache := Lru_Purge (hc_headerCache hc), hc_tdCache := Lru_Purge (hc_tdCache hc), hc_numberCache := Lru_Purge (hc_numberCache hc)\<rparr>"
  have "hc_inv tail_hash (replicate 32 1) hc'" using ok can new by (simp add: hc_inv_def hc'_def 3 hx n caches_ok_def)
  moreover have v: "v_td (chain_view db3) (replicate 32 1) 0 = Some 3" "v_td (chain_view db3) (replicate 32 2) 1 = Some 6"
    using td by (simp_all add: 3 2 view_import_def view_header_def Let_def hx n upd2_def)
  moreover have "importable tail_hash y (chain_view db3)"
    using hx tdok n v by (simp add: importable_def 3 2 view_import_def view_header_def Let_def w0 upd2_def zeroHash_def HashLength_def)
  ultimately show ?thesis by (intro exI [of _ hc']) (simp add: hc'_def)
qed

theorem heavier_branch_dropped_witness:
  "\<exists>hc s bc'. bc_inv tail_hash (replicate 32 1) (sample_bc hc (sample_header 3 (replicate 32 1) 1 (replicate 32 2)))
    \<and> WriteBlockAndState tail_hash 3 no_order (sample_block (sample_header 4 (replicate 32 1) 1 (replicate 32 3))) [] (s :: (SecureTrie, unit) StateDB)
         (sample_bc hc (sample_header 3 (replicate 32 1) 1 (replicate 32 2))) = Ok (NonStatTy, None, bc')
    \<and> bc_currentBlock bc' = Some (sample_block (sample_header 3 (replicate 32 1) 1 (replicate 32 2)))"
proof -
  let ?x = "sample_header 3 (replicate 32 1) 1 (replicate 32 2)" and ?y = "sample_header 4 (replicate 32 1) 1 (replicate 32 3)"
  from sample_fork obtain hc where hc: "hc_inv tail_hash (replicate 32 1) hc" "hc_currentHeader hc = Some ?x"
    and imp: "importable tail_hash ?y (chain_view (hc_db hc))"
    and td: "v_td (chain_view (hc_db hc)) (replicate 32 1) 0 = Some 3" "v_td (chain_view (hc_db hc)) (replicate 32 2) 1 = Some 6" by blast
  obtain s :: "(SecureTrie, unit) StateDB" where s: "\<And>db. commits tail_hash 3 no_order s db" using sample_state [of tail_hash 3] by blast
  have hx: "Block_Hash tail_hash (sample_block ?x) = replicate 32 2" by (simp add: Block_Hash_def sample_block_def sample_header_hash)
  have n: "NumberU64 (sample_block ?x) = 1" "NumberU64 (sample_block ?y) = 1" "hd_ParentHash (bl_header (sample_block ?y)) = replicate 32 1"
    "hd_Difficulty (bl_header (sample_block ?y)) = 4"
    by (simp_all add: NumberU64_def sample_block_def sample_header_def Uint64_def)
  have db: "bc_db (sample_bc hc ?x) = hc_db hc" "bc_currentBlock (sample_bc hc ?x) = Some (sample_block ?x)" by (simp_all add: sample_bc_def)
  have td': "v_td (chain_view (bc_db (sample_bc hc ?x))) (hd_ParentHash (bl_header (sample_block ?y))) (NumberU64 (sample_block ?y) - 1) = Some 3"
    "v_td (chain_view (bc_db (sample_bc hc ?x))) (Block_Hash tail_hash (sample_block ?x)) (NumberU64 (sample_block ?x)) = Some 6"
    using td by (simp_all add: db n hx)
  have p: "preferred (sample_block ?y) (sample_block ?x) (hd_Difficulty (bl_header (sample_block ?y)) + 3) 6"
    and fork: "hd_ParentHash (bl_header (sample_block ?y)) \<noteq> Block_Hash tail_hash (sample_block ?x)" by (simp_all add: preferred_def n hx)
  note inv = sample_importable(1) [OF hc]
  from heavier_branch_dropped [OF length_tail_hash inv db(2) sample_importable(2) [OF imp s] td' p fork] inv show ?thesis by blast
qed

end
