(* ===== verification/Trie_Proof.thy ===== *)
theory Trie_Proof
  imports Trie_Commit
begin

text \<open>
  Merkle proofs of a trie, from \<^verbatim>\<open>src/common/trie/proof.go\<close>: the nodes on the path to a key, and the check of such a path
  against a root hash.  The proof of every key is accepted and gives the key's value, and an accepted proof gives nothing
  but the value the trie holds.
\<close>

section \<open>Making and checking proofs\<close>

text \<open>
  The nodes on the path to the key.  A reference is loaded and looked at again, so that one step of the loop may leave the
  key as it is; \<open>fuel\<close> bounds the steps.
\<close>

fun prove_path :: "nat \<Rightarrow> db \<Rightarrow> u16 \<Rightarrow> node \<Rightarrow> bytes \<Rightarrow> (trie_error, node list) res" where
  "prove_path 0 db gen tn key = Diverge"
| "prove_path (Suc fuel) db gen tn key =
     (if key = [] \<or> tn = NilN then Ok []
      else
        (case tn of
           ShortN k val _ \<Rightarrow>
             res_map (\<lambda>ns. tn # ns)
               (if length key < length k \<or> k \<noteq> take (length k) key then prove_path fuel db gen NilN key
                else prove_path fuel db gen val (drop (length k) key))
         | FullN cs _ \<Rightarrow>
             if unat (key ! 0) \<ge> length cs then Panic
             else res_map (\<lambda>ns. tn # ns) (prove_path fuel db gen (cs ! unat (key ! 0)) (drop 1 key))
         | HashN h \<Rightarrow> res_bind (resolveHash db gen h []) (\<lambda>n. prove_path fuel db gen n key)
         | _ \<Rightarrow> Panic))"

text \<open>
  The element that a node adds to the proof: its encoding when it is the root or when its parent refers to it by hash.
  Without a writer, neither \<^verbatim>\<open>hashChildren\<close> nor \<^verbatim>\<open>store\<close> returns an error.
\<close>

definition prove_node :: "(bytes \<Rightarrow> bytes) \<Rightarrow> nat \<Rightarrow> node \<Rightarrow> (unit, bytes list) res" where
  "prove_node kec i n =
     res_bind (hashChildren kec (MemDatabase_Put :: (unit, MemDatabase) putter) 0 0 n None) (\<lambda>(n, _, _).
     res_bind (hasher_store kec (MemDatabase_Put :: (unit, MemDatabase) putter) n None False) (\<lambda>(hn, _).
       if is_hash hn \<or> i = 0
       then (case EncodeToBytes (node_rval n) of
               Ok enc \<Rightarrow> Ok [enc] | Err _ \<Rightarrow> Ok [[]] | Panic \<Rightarrow> Panic | Diverge \<Rightarrow> Diverge)
       else Ok []))"

fun prove_nodes :: "(bytes \<Rightarrow> bytes) \<Rightarrow> nat \<Rightarrow> node list \<Rightarrow> (unit, bytes list) res" where
  "prove_nodes kec i [] = Ok []"
| "prove_nodes kec i (n # ns) =
     res_bind (prove_node kec i n) (\<lambda>e. res_map (\<lambda>es. e @ es) (prove_nodes kec (Suc i) ns))"

definition Prove :: "(bytes \<Rightarrow> bytes) \<Rightarrow> nat \<Rightarrow> db \<Rightarrow> Trie \<Rightarrow> bytes \<Rightarrow> (unit, bytes list) res" where
  "Prove kec fuel db t key =
     (case prove_path fuel db (tr_cachegen t) (tr_root t) (keybytesToHex key) of
        Ok ns \<Rightarrow> prove_nodes kec 0 ns
      | Err _ \<Rightarrow> Ok []
      | Panic \<Rightarrow> Panic
      | Diverge \<Rightarrow> Diverge)"

function (sequential) proof_get :: "node \<Rightarrow> bytes \<Rightarrow> ('e, bytes \<times> node) res" where
  "proof_get (ShortN k val _) key =
     (if length key < length k \<or> k \<noteq> take (length k) key then Ok ([], NilN)
      else proof_get val (drop (length k) key))"
| "proof_get (FullN cs _) key =
     (if key = [] \<or> unat (key ! 0) \<ge> length cs then Panic
      else proof_get (cs ! unat (key ! 0)) (drop 1 key))"
| "proof_get (HashN h) key = Ok (key, HashN h)"
| "proof_get NilN key = Ok (key, NilN)"
| "proof_get (ValueN v) key = Ok ([], ValueN v)"
  by pat_completeness auto
termination
  by (relation "measure (\<lambda>(n, _). size n)")
    (auto simp: less_Suc_eq_le intro!: trans_le_add1 size_list_estimation' [of "cs ! i" cs for cs i])

datatype proof_error =
    HashMismatch nat
  | BadProofNode nat decode_error
  | KeyMismatch nat
  | AdditionalNodes
  | UnexpectedEnd

fun VerifyProof_loop ::
  "(bytes \<Rightarrow> bytes) \<Rightarrow> nat \<Rightarrow> nat \<Rightarrow> bytes \<Rightarrow> bytes \<Rightarrow> bytes list \<Rightarrow> (proof_error, bytes option) res" where
  "VerifyProof_loop kec len i key wantHash [] = Err UnexpectedEnd"
| "VerifyProof_loop kec len i key wantHash (buf # bufs) =
     (if kec buf \<noteq> wantHash then Err (HashMismatch i)
      else
        (case decodeNode (Some wantHash) buf 0 of
           Err e \<Rightarrow> Err (BadProofNode i e)
         | Panic \<Rightarrow> Panic
         | Diverge \<Rightarrow> Diverge
         | Ok n \<Rightarrow>
             res_bind (proof_get n key) (\<lambda>(keyrest, cld).
               case cld of
                 NilN \<Rightarrow> if i \<noteq> len - 1 then Err (KeyMismatch i) else Ok None
               | HashN h \<Rightarrow> VerifyProof_loop kec len (i + 1) keyrest h bufs
               | ValueN v \<Rightarrow> if i \<noteq> len - 1 then Err AdditionalNodes else Ok (Some v)
               | _ \<Rightarrow> VerifyProof_loop kec len (i + 1) key wantHash bufs)))"

definition VerifyProof :: "(bytes \<Rightarrow> bytes) \<Rightarrow> hash \<Rightarrow> bytes \<Rightarrow> bytes list \<Rightarrow> (proof_error, bytes option) res" where
  "VerifyProof kec rootHash key bufs =
     VerifyProof_loop kec (length bufs) 0 (keybytesToHex key) rootHash bufs"

section \<open>The path in the tree\<close>

fun ppath :: "ptree \<Rightarrow> bytes \<Rightarrow> ptree list" where
  "ppath (PShort k t) x =
     (if x = [] then [] else PShort k t # (if take (length k) x = k then ppath t (drop (length k) x) else []))"
| "ppath (PFull cs) x =
     (case x of [] \<Rightarrow> [] | a # y \<Rightarrow> PFull cs # (if unat a < length cs then ppath (cs ! unat a) y else []))"
| "ppath _ x = []"

text \<open>
  \<open>leads kec t x ts r\<close>: reading on along \<open>x\<close> from \<open>t\<close> ends with \<open>r\<close>, at the first large tree among the trees \<open>ts\<close> still
  to come or, when there is none, at the value.
\<close>

definition leads :: "(bytes \<Rightarrow> bytes) \<Rightarrow> ptree \<Rightarrow> bytes \<Rightarrow> ptree list \<Rightarrow> ('e, bytes \<times> node) res \<Rightarrow> bool" where
  "leads kec t x ts r \<longleftrightarrow>
     (\<exists>t' y. r = Ok (y, HashN (kec (penc kec t'))) \<and> canon t' \<and> slot t' y \<and> fits kec t' \<and> encs kec t' \<subseteq> encs kec t
        \<and> lookup t x = lookup t' y \<and> filter (large kec) ts = t' # filter (large kec) (tl (ppath t' y)))
   \<or> (\<exists>y. r = Ok (y, NilN)) \<and> lookup t x = None \<and> filter (large kec) ts = []
   \<or> (\<exists>y v. r = Ok (y, ValueN v) \<and> lookup t x = Some v) \<and> filter (large kec) ts = []"

lemma leads_child:
  "leads kec t y ts r \<Longrightarrow> encs kec t \<subseteq> encs kec s \<Longrightarrow> lookup s x = lookup t y \<Longrightarrow> leads kec s x ts r"
  unfolding leads_def by auto

lemma get_inner:
  assumes s: "slot t x" "fits kec t" "inner t"
    and IH: "\<And>s y. size s < size t \<Longrightarrow> slot s y \<Longrightarrow> fits kec s \<Longrightarrow> leads kec s y (ppath s y) (proof_get (shallow_ref kec gen s) y :: ('e, bytes \<times> node) res)"
  shows "leads kec t x (tl (ppath t x)) (proof_get (shallow kec gen h t) x :: ('e, bytes \<times> node) res)"
proof (cases t)
  case (PShort k c)
  have x: "x \<noteq> []" using s PShort by (auto simp: slot_def)
  show ?thesis
  proof (cases "take (length k) x = k")
    case True
    let ?y = "drop (length k) x"
    have l: "\<not> length x < length k" using arg_cong [OF True, of length] by (simp only: length_take)
    have "leads kec c ?y (ppath c ?y) (proof_get (shallow_ref kec gen c) ?y :: ('e, bytes \<times> node) res)"
      by (rule IH) (use s PShort slot_PShort [OF s(1) [unfolded PShort] True] in auto)
    moreover have "proof_get (shallow kec gen h t) x = (proof_get (shallow_ref kec gen c) ?y :: ('e, bytes \<times> node) res)" "ppath t x = t # ppath c ?y"
      "lookup t x = lookup c ?y"
      using True x PShort l by (simp_all add: shallow_inner)
    moreover have "encs kec c \<subseteq> encs kec t" using PShort by auto
    ultimately show ?thesis using leads_child by (metis list.sel(3))
  next
    case False
    then show ?thesis using x PShort by (auto simp: shallow_inner leads_def)
  qed
next
  case (PFull cs)
  then obtain a y where x: "x = a # y" using s by (cases x) (auto simp: slot_def)
  note sl = slot_PFull [OF s(1) [unfolded PFull x]]
  let ?c = "cs ! unat a"
  have m: "?c \<in> set cs" using sl by simp
  have "leads kec ?c y (ppath ?c y) (proof_get (shallow_ref kec gen ?c) y :: ('e, bytes \<times> node) res)"
    using IH [of ?c y] sl m s(2) PFull size_list_estimation' [OF m order_refl, of size]
    by (auto simp: list_all_iff less_Suc_eq_le)
  moreover have "encs kec ?c \<subseteq> encs kec t" using m PFull by auto
  moreover have "lookup t x = lookup ?c y" using sl PFull x by simp
  ultimately have "leads kec t x (ppath ?c y) (proof_get (shallow_ref kec gen ?c) y :: ('e, bytes \<times> node) res)"
    by (rule leads_child)
  with sl PFull x show ?thesis by (simp add: shallow_inner)
qed (use s in auto)

lemma get_ref:
  "slot t x \<Longrightarrow> fits kec t \<Longrightarrow>
    leads kec t x (ppath t x) (proof_get (shallow_ref kec gen t) x :: ('e, bytes \<times> node) res)"
proof (induction "size t" arbitrary: t x rule: less_induct)
  case less
  show ?case
  proof (cases "inner t")
    case False
    then show ?thesis using less.prems
      by (cases t) (auto simp: leads_def shallow_ref_def large_def slot_def canon_root_def split: if_splits)
  next
    case True
    have i: "leads kec t x (tl (ppath t x)) (proof_get (shallow kec gen None t) x :: ('e, bytes \<times> node) res)"
      by (rule get_inner [OF less.prems True]) (use less.hyps in blast)
    have x: "x \<noteq> []" "canon t" using less.prems(1) True by (cases t; auto simp: slot_def canon_root_def split: if_splits)+
    then have p: "ppath t x = t # tl (ppath t x)" using True by (cases t) (auto split: list.splits)
    show ?thesis
    proof (cases "large kec t")
      case False
      then show ?thesis using i by (subst p) (simp add: shallow_ref_def leads_def)
    next
      case True
      then have "filter (large kec) (ppath t x) = t # filter (large kec) (tl (ppath t x))" by (subst p) simp
      with True x less.prems show ?thesis by (auto simp: shallow_ref_def leads_def)
    qed
  qed
qed

section \<open>Checking\<close>

text \<open>What \<^verbatim>\<open>get\<close> finds in the node that a proof element encodes.\<close>

lemma get_decoded:
  assumes kl: "\<And>x. length (kec x) = 32" and t: "canon t" "slot t x" "fits kec t"
  obtains n where "decodeNode h (penc kec t) 0 = Ok n"
    "leads kec t x (tl (ppath t x)) (proof_get n x :: ('e, bytes \<times> node) res)"
proof -
  have "decodeNode h (penc kec t) 0 = Ok (shallow kec 0 h t)"
    using decodeNode_penc [where kec = kec and rest = "[]", OF kl t(1)] fits_length [OF t(3)]
    by (simp add: decodeNode_def del: decodeNode_fuel.simps)
  moreover have "leads kec t x (tl (ppath t x)) (proof_get (shallow kec 0 h t) x :: ('e, bytes \<times> node) res)"
    by (rule get_inner [OF t(2,3) inner_canon [OF t(1)]]) (rule get_ref)
  ultimately show ?thesis by (rule that)
qed

lemma VerifyProof_complete:
  assumes kl: "\<And>x. length (kec x) = 32"
  shows "canon t \<Longrightarrow> slot t x \<Longrightarrow> fits kec t \<Longrightarrow> bufs = penc kec t # map (penc kec) (filter (large kec) (tl (ppath t x))) \<Longrightarrow>
    len = i + length bufs \<Longrightarrow> VerifyProof_loop kec len i x (kec (penc kec t)) bufs = Ok (lookup t x)"
proof (induction bufs arbitrary: i t x)
  case (Cons b bufs)
  obtain n where n: "decodeNode (Some (kec (penc kec t))) (penc kec t) 0 = Ok n"
    "leads kec t x (tl (ppath t x)) (proof_get n x :: (proof_error, bytes \<times> node) res)"
    by (rule get_decoded [where kec = kec, OF kl Cons.prems(1-3)])
  from n(2) consider
      (hash) t' y where "proof_get n x = (Ok (y, HashN (kec (penc kec t'))) :: (proof_error, bytes \<times> node) res)" "canon t'" "slot t' y" "fits kec t'"
        "lookup t x = lookup t' y" "filter (large kec) (tl (ppath t x)) = t' # filter (large kec) (tl (ppath t' y))"
    | (leaf) y c where "proof_get n x = (Ok (y, c) :: (proof_error, bytes \<times> node) res)" "filter (large kec) (tl (ppath t x)) = []"
        "c = NilN \<and> lookup t x = None \<or> (\<exists>v. c = ValueN v \<and> lookup t x = Some v)"
    unfolding leads_def by blast
  then show ?case
  proof cases
    case hash
    have "VerifyProof_loop kec len (i + 1) y (kec (penc kec t')) bufs = Ok (lookup t' y)"
      by (rule Cons.IH [OF hash(2-4)]) (use Cons.prems(4,5) hash(6) in simp_all)
    with Cons.prems(4) n(1) hash show ?thesis by simp
  next
    case leaf
    with Cons.prems(4,5) n(1) show ?thesis by auto
  qed
qed simp

lemma VerifyProof_sound:
  assumes kl: "\<And>x. length (kec x) = 32" and inj: "inj_on kec (S \<union> B)"
  shows "canon t \<Longrightarrow> slot t x \<Longrightarrow> fits kec t \<Longrightarrow> encs kec t \<subseteq> S \<Longrightarrow> set bufs \<subseteq> B \<Longrightarrow>
    VerifyProof_loop kec len i x (kec (penc kec t)) bufs = Ok v \<Longrightarrow> v = lookup t x"
proof (induction bufs arbitrary: i t x)
  case (Cons b bufs)
  have "penc kec t \<in> S" using Cons.prems(1,4) penc_encs inner_canon by blast
  moreover have "kec b = kec (penc kec t)" using Cons.prems(6) by (simp split: if_splits)
  ultimately have b: "b = penc kec t" using inj Cons.prems(5) by (auto dest: inj_onD)
  obtain n where n: "decodeNode (Some (kec (penc kec t))) (penc kec t) 0 = Ok n"
    "leads kec t x (tl (ppath t x)) (proof_get n x :: (proof_error, bytes \<times> node) res)"
    by (rule get_decoded [where kec = kec, OF kl Cons.prems(1-3)])
  from n(2) consider
      (hash) t' y where "proof_get n x = (Ok (y, HashN (kec (penc kec t'))) :: (proof_error, bytes \<times> node) res)" "canon t'" "slot t' y" "fits kec t'"
        "encs kec t' \<subseteq> encs kec t" "lookup t x = lookup t' y"
    | (leaf) y c where "proof_get n x = (Ok (y, c) :: (proof_error, bytes \<times> node) res)"
        "c = NilN \<and> lookup t x = None \<or> (\<exists>v. c = ValueN v \<and> lookup t x = Some v)"
    unfolding leads_def by blast
  then show ?case
  proof cases
    case hash
    have "v = lookup t' y"
      by (rule Cons.IH [OF hash(2-4), where i = "i + 1"]) (use Cons.prems(4-6) b n(1) hash in auto)
    with hash show ?thesis by simp
  next
    case leaf
    with Cons.prems(6) b n(1) show ?thesis by (auto split: if_splits)
  qed
qed simp

section \<open>Making\<close>

lemma prove_path_hash:
  assumes "linked kec d (HashN h) t" "2 * length x + 2 \<le> fuel" "x \<noteq> []"
    and "\<And>n f. linked kec d n t \<Longrightarrow> \<not> is_hash n \<Longrightarrow> 2 * length x + 1 \<le> f \<Longrightarrow> Q (prove_path f d gen n x)"
  shows "Q (prove_path fuel d gen (HashN h) x)"
proof -
  from assms(1) obtain n where n: "resolveHash d gen h [] = Ok n" "linked kec d n t"
    unfolding linked_def by (elim expands_HashE) blast
  from assms(2) obtain f where "fuel = Suc f" "2 * length x + 1 \<le> f" by (cases fuel) auto
  with n assms(3,4) resolveHash_not_hash [OF n(1)] show ?thesis by simp
qed

definition on_path :: "(bytes \<Rightarrow> bytes) \<Rightarrow> db \<Rightarrow> node list \<Rightarrow> ptree list \<Rightarrow> bool" where
  "on_path kec d ns ts \<longleftrightarrow> list_all2 (\<lambda>n t. linked kec d n t \<and> is_inner n \<and> canon t) ns ts"

definition finds :: "(bytes \<Rightarrow> bytes) \<Rightarrow> db \<Rightarrow> ptree list \<Rightarrow> (trie_error, node list) res \<Rightarrow> bool" where
  "finds kec d ts r \<longleftrightarrow> (\<exists>ns. r = Ok ns \<and> on_path kec d ns ts)"

lemma prove_path_step:
  assumes "linked kec d n t" "2 * length x + 2 \<le> fuel" "x \<noteq> []"
    and "\<And>n f. linked kec d n t \<Longrightarrow> \<not> is_hash n \<Longrightarrow> 2 * length x + 1 \<le> f \<Longrightarrow> finds kec d ts (prove_path f d gen n x)"
  shows "finds kec d ts (prove_path fuel d gen n x)"
proof (cases "is_hash n")
  case True
  then obtain h where "n = HashN h" by (cases n) auto
  with prove_path_hash [where Q = "finds kec d ts"] assms show ?thesis by blast
qed (use assms in auto)

lemma finds_Cons:
  "finds kec d ts r \<Longrightarrow> linked kec d n t \<Longrightarrow> is_inner n \<Longrightarrow> canon t \<Longrightarrow> finds kec d (t # ts) (res_map (\<lambda>ns. n # ns) r)"
  by (auto simp: finds_def on_path_def)

lemma prove_path_nil: "0 < fuel \<Longrightarrow> n = NilN \<or> x = [] \<Longrightarrow> finds kec d [] (prove_path fuel d gen n x)"
  by (cases fuel) (auto simp: finds_def on_path_def)

lemma slot_inner: "slot t x \<Longrightarrow> inner t \<Longrightarrow> x \<noteq> [] \<and> canon t"
  by (cases t) (auto simp: slot_def canon_root_def split: if_splits)

lemma prove_path_finds:
  "linked kec d n t \<Longrightarrow> slot t x \<Longrightarrow> fuel_ok fuel x \<Longrightarrow> finds kec d (ppath t x) (prove_path fuel d gen n x)"
proof (induction t arbitrary: n x fuel)
  case PNil
  then have "n = NilN" unfolding linked_def using lnk.expands_PNil_iff by blast
  with PNil show ?case by (auto simp: fuel_ok_def intro: prove_path_nil)
next
  case (PVal v)
  then have "x = []" by (auto simp: slot_def canon_root_def split: if_splits)
  with PVal show ?case by (auto simp: fuel_ok_def intro: prove_path_nil)
next
  case (PShort k t)
  have x: "x \<noteq> []" and c: "canon (PShort k t)" using slot_inner [OF PShort.prems(2)] by auto
  then have k: "0 < length k" by auto
  show ?case
  proof (rule prove_path_step [OF PShort.prems(1) _ x])
    fix m f assume m: "linked kec d m (PShort k t)" "\<not> is_hash m" and f: "2 * length x + 1 \<le> f"
    from m obtain ch fl where mm: "m = ShortN k ch fl" "linked kec d ch t" unfolding linked_def by (cases m) auto
    from f x obtain f' where f': "f = Suc f'" "2 * length x \<le> f'" by (cases f) auto
    show "finds kec d (ppath (PShort k t) x) (prove_path f d gen m x)"
    proof (cases "take (length k) x = k")
      case True
      have l: "\<not> length x < length k" using arg_cong [OF True, of length] by (simp only: length_take)
      have "fuel_ok f' (drop (length k) x)" using f'(2) k l unfolding fuel_ok_def length_drop by arith
      from PShort.IH [OF mm(2) slot_PShort [OF PShort.prems(2) True] this]
      have "finds kec d (PShort k t # ppath t (drop (length k) x)) (res_map (\<lambda>ns. m # ns) (prove_path f' d gen ch (drop (length k) x)))"
        by (rule finds_Cons [OF _ m(1) _ c]) (simp add: mm(1))
      with True l x mm(1) f'(1) show ?thesis by simp
    next
      case False
      have "finds kec d [PShort k t] (res_map (\<lambda>ns. m # ns) (prove_path f' d gen NilN x))"
        by (rule finds_Cons [OF prove_path_nil m(1) _ c]) (use mm(1) f'(2) x in \<open>cases x; auto\<close>)+
      with False x mm(1) f'(1) show ?thesis by auto
    qed
  qed (use PShort.prems(3) in \<open>simp add: fuel_ok_def\<close>)
next
  case (PFull ts)
  have x0: "x \<noteq> []" and c: "canon (PFull ts)" using slot_inner [OF PFull.prems(2)] by auto
  then obtain a y where x: "x = a # y" by (cases x) auto
  note sl = slot_PFull [OF PFull.prems(2) [unfolded x]]
  show ?case
  proof (rule prove_path_step [OF PFull.prems(1) _ x0])
    fix m f assume m: "linked kec d m (PFull ts)" "\<not> is_hash m" and f: "2 * length x + 1 \<le> f"
    from m obtain cs fl where mm: "m = FullN cs fl" "list_all2 (\<lambda>n t. linked kec d n t \<and> (has_hash n \<longrightarrow> large kec t)) cs ts"
      unfolding linked_def by (cases m) auto
    then have i: "unat a < length cs" "linked kec d (cs ! unat a) (ts ! unat a)" "ts ! unat a \<in> set ts"
      using sl by (auto simp: list_all2_conv_all_nth)
    from f x obtain f' where f': "f = Suc f'" "fuel_ok f' y" by (cases f) (auto simp: fuel_ok_def)
    from PFull.IH [OF i(3,2) sl(3) f'(2)]
    have "finds kec d (PFull ts # ppath (ts ! unat a) y) (res_map (\<lambda>ns. m # ns) (prove_path f' d gen (cs ! unat a) y))"
      by (rule finds_Cons [OF _ m(1) _ c]) (simp add: mm(1))
    with i(1) sl x mm(1) f'(1) show "finds kec d (ppath (PFull ts) x) (prove_path f d gen m x)" by simp
  qed (use PFull.prems(3) in \<open>simp add: fuel_ok_def\<close>)
qed

context kv_store
begin

lemma hashChildren_children:
  assumes kl: "\<And>x. length (kec x) = 32"
    and n: "linked kec (view D db) n t" "node_flags n = Some fl" and t: "canon t" "fits kec t" and S: "no_clash kec (encs kec t) D db"
  shows "children_ok kec (encs kec t) D db t fl (hashChildren kec put gen limit n db)"
proof (cases n)
  case (ShortN k c fl')
  with n obtain t' where t': "t = PShort k t'" "fl' = fl" "linked kec (view D db) c t'" "has_hash c \<longrightarrow> large kec t'"
    by (auto simp: linked_def)
  show ?thesis unfolding ShortN t'(1,2)
    by (rule hashChildren_Short [OF hash_correct [where kec = kec, OF kl] t'(3,4)]) (use t t'(1) S in auto)
next
  case (FullN cs fl')
  with n obtain ts where t': "t = PFull ts" "fl' = fl" by (auto simp: linked_def)
  show ?thesis unfolding FullN t'
    by (rule hashChildren_Full [OF hash_correct [where kec = kec, OF kl]]) (use n(1) FullN t t' S in auto)
qed (use n in auto)

end

lemma prove_node_ok:
  assumes kl: "\<And>x. length (kec x) = 32" and n: "linked kec d n t" "is_inner n" and t: "canon t" "fits kec t"
  shows "prove_node kec i n = Ok (if large kec t \<or> i = 0 then [penc kec t] else [])"
proof -
  define w where "w = (None :: MemDatabase option)"
  from n(2) obtain fl where fl: "node_flags n = Some fl" by (cases n) auto
  have nc: "mem.no_clash kec (encs kec t) d w" by (simp add: mem.no_clash_def w_def)
  have "mem.children_ok kec (encs kec t) d w t fl (hashChildren kec (MemDatabase_Put :: (unit, MemDatabase) putter) 0 0 n w)"
    by (rule mem.hashChildren_children [where kec = kec, OF kl _ fl t nc]) (use n in \<open>simp add: mem.view_def w_def\<close>)
  then obtain co ca w' where c: "hashChildren kec (MemDatabase_Put :: (unit, MemDatabase) putter) 0 0 n w = Ok (co, ca, w')"
    "mem.grows kec (encs kec t) d w w'" "node_rval co = pval kec t" "node_flags co = Some fl"
    unfolding mem.children_ok_def by blast
  have w': "w' = w" using c(2) by (simp add: mem.grows_def w_def)
  have h: "h = kec (penc kec t)" if "nf_hash fl = Some h" for h
    using n fl that by (cases n) (auto simp: linked_def cacheF_def)
  have i: "inner t" using t by (simp add: inner_canon)
  from mem.hasher_store_step [OF c(3,4) i t(2) h nc penc_encs [OF i], where force = False] obtain hd db'
    where s: "hasher_store kec (MemDatabase_Put :: (unit, MemDatabase) putter) co w False = Ok (hd, db')" "hash_value kec t False hd"
    by blast
  have "is_hash hd \<longleftrightarrow> large kec t" using s(2) by (cases hd) (auto simp: hash_value_def split: if_splits)
  moreover have "EncodeToBytes (node_rval co) = Ok (penc kec t)"
  proof -
    from write_val_wrote(1) [OF simple_nonneg [OF simple_pval], of kec t] fits_length [OF t(2)] obtain b
      where "write_val (pval kec t) encbuf_reset = Ok b" "wrote encbuf_reset b (enc_rval (pval kec t))" by (auto simp: penc_def)
    then show ?thesis by (simp add: EncodeToBytes_def wrote_reset(1) c(3) penc_def)
  qed
  ultimately show ?thesis using c(1) s(1) w' by (simp add: prove_node_def w_def)
qed

lemma prove_nodes_ok:
  assumes kl: "\<And>x. length (kec x) = 32"
  shows "on_path kec d ns ts \<Longrightarrow> list_all (fits kec) ts \<Longrightarrow> prove_nodes kec (Suc i) ns = Ok (map (penc kec) (filter (large kec) ts))"
proof (induction ns arbitrary: ts i)
  case (Cons n ns)
  then obtain t ts' where "ts = t # ts'" "linked kec d n t" "is_inner n" "canon t" "on_path kec d ns ts'"
    by (auto simp: on_path_def list_all2_Cons1)
  with Cons prove_node_ok [where kec = kec, OF kl] show ?case by simp
qed (simp add: on_path_def)

lemma fits_ppath: "fits kec t \<Longrightarrow> list_all (fits kec) (ppath t x)"
  by (induction t x rule: ppath.induct) (auto simp: list_all_iff split: list.splits)

lemma ppath_Cons: "canon t \<Longrightarrow> x \<noteq> [] \<Longrightarrow> ppath t x = t # tl (ppath t x)"
  by (cases t) (auto split: list.splits)

lemma Prove_ok:
  assumes kl: "\<And>x. length (kec x) = 32" and t: "trie_ok kec d t p" "fits kec p" "p \<noteq> PNil" and f: "enough fuel key"
  shows "Prove kec fuel d t key = Ok (penc kec p # map (penc kec) (filter (large kec) (tl (ppath p (keybytesToHex key)))))"
proof -
  let ?x = "keybytesToHex key"
  have c: "canon p" "linked kec d (tr_root t) p" using t by (auto simp: trie_ok_def canon_root_def)
  have "finds kec d (ppath p ?x) (prove_path fuel d (tr_cachegen t) (tr_root t) ?x)"
    using prove_path_finds [OF c(2)] slot_keybytes enough_fuel_ok [OF f] t(1) by (auto simp: trie_ok_def)
  then obtain ns where ns: "prove_path fuel d (tr_cachegen t) (tr_root t) ?x = Ok ns" "on_path kec d ns (ppath p ?x)"
    by (auto simp: finds_def)
  have p: "ppath p ?x = p # tl (ppath p ?x)" by (rule ppath_Cons [OF c(1)]) (use hexkey_keybytesToHex [of key] in auto)
  from ns(2) obtain n ns' where n: "ns = n # ns'" "linked kec d n p" "is_inner n" "on_path kec d ns' (tl (ppath p ?x))"
    by (subst (asm) p) (auto simp: on_path_def list_all2_Cons2)
  have "list_all (fits kec) (tl (ppath p ?x))" using fits_ppath [OF t(2), of ?x] by (subst (asm) p) simp
  with n ns(1) prove_nodes_ok [where kec = kec, OF kl n(4)] prove_node_ok [where kec = kec, OF kl n(2,3) c(1) t(2), of 0]
  show ?thesis by (simp add: Prove_def)
qed

section \<open>Properties of proofs\<close>


text \<open>A trie with two entries whose values are long enough for the branch to refer to its children by hash.\<close>

definition two_leaves :: Trie where
  "two_leaves =
     \<lparr>tr_root = ShortN [0] (FullN ((replicate 17 NilN)
          [1 := ShortN [16] (ValueN (replicate 32 7)) (newFlag 0), 2 := ShortN [16] (ValueN (replicate 32 8)) (newFlag 0)]) (newFlag 0)) (newFlag 0),
      tr_originalRoot = [], tr_cachegen = 0, tr_cachelimit = 0\<rparr>"

definition two_leaves_tree :: ptree where
  "two_leaves_tree = PShort [0] (PFull ((replicate 17 PNil)
     [1 := PShort [16] (PVal (replicate 32 7)), 2 := PShort [16] (PVal (replicate 32 8))]))"

lemma two_children: "(replicate 17 x)[1 := a, 2 := b] = [x, a, b, x, x, x, x, x, x, x, x, x, x, x, x, x, x]"
  by (simp add: eval_nat_numeral)

lemma two_leaves_ok: "trie_ok kec Map.empty two_leaves two_leaves_tree"
  unfolding two_leaves_def two_leaves_tree_def two_children
  by (simp add: trie_ok_def linked_def canon_root_def hexkey_def nibbles_def nibble_def cacheF_new filled_def)

lemma two_leaves_fits: "fits pad32 two_leaves_tree"
  by code_simp


text \<open>
  C9: An accepted proof cannot lie.  Whatever list of byte strings \<^verbatim>\<open>VerifyProof\<close> accepts against the root hash of a non-empty
  trie, the value it returns is the one the trie holds, provided the hash function does not collide on the nodes of the trie
  and the elements of the proof.
\<close>

theorem proof_sound:
  assumes kl: "\<And>x. length (kec x) = 32" and t: "trie_ok kec d t p" "fits kec p" "p \<noteq> PNil"
    and inj: "inj_on kec (encs kec p \<union> set pr)"
    and v: "Trie_Hash kec t = Ok (root, u)" "VerifyProof kec root key pr = Ok v" and f: "enough fuel key"
  shows "\<exists>w. TryGet fuel d t key = Ok (v, w)"
proof -
  have c: "canon p" using t by (auto simp: trie_ok_def canon_root_def)
  have "root = kec (penc kec p)" using Trie_Hash_ok [where kec = kec, OF kl t(1,2)] v(1) t(3) by (auto simp: root_hash_def)
  with v(2) have "v = lookup p (keybytesToHex key)"
    using VerifyProof_sound [where kec = kec and bufs = pr, OF kl inj c _ t(2) subset_refl subset_refl] t(1) slot_keybytes
    by (auto simp: VerifyProof_def trie_ok_def)
  then show ?thesis
    using plain.TryGet_reps trie_ok_represents [OF t(1)] f unfolding represents_reps content_def by blast
qed

theorem proof_sound_witness:
  "\<exists>pr root u w. Trie_Hash pad32 two_leaves = Ok (root, u) \<and> VerifyProof pad32 root [2] pr = Ok (Some (replicate 32 8))
    \<and> TryGet 8 Map.empty two_leaves [2] = Ok (Some (replicate 32 8), w)"
proof -
  have e: "enough 8 [2]" by (simp add: enough_def)
  have n: "two_leaves_tree \<noteq> PNil" by (simp add: two_leaves_tree_def)
  let ?b = "PFull ((replicate 17 PNil)[1 := PShort [16] (PVal (replicate 32 7)), 2 := PShort [16] (PVal (replicate 32 8))])"
  let ?l = "PShort [16] (PVal (replicate 32 8))"
  let ?pr = "[penc pad32 two_leaves_tree, penc pad32 ?b, penc pad32 ?l]"
  let ?xs = "penc pad32 (PShort [16] (PVal (replicate 32 7))) # ?pr"
  have sub: "encs pad32 two_leaves_tree \<subseteq> set ?xs" unfolding two_leaves_tree_def two_children by simp
  have inj: "inj_on pad32 (set ?xs)"
  proof -
    have "distinct (map pad32 ?xs)" by code_simp
    then show ?thesis by (simp only: distinct_map)
  qed
  have "encs pad32 two_leaves_tree \<union> set ?pr \<subseteq> set ?xs" using sub by (intro Un_least) auto
  with inj have inj: "inj_on pad32 (encs pad32 two_leaves_tree \<union> set ?pr)" by (rule inj_on_subset)
  from Trie_Hash_ok [where kec = pad32, OF length_pad32 two_leaves_ok two_leaves_fits] n obtain u
    where u: "Trie_Hash pad32 two_leaves = Ok (pad32 (penc pad32 two_leaves_tree), u)" by (auto simp: root_hash_def)
  have v: "VerifyProof pad32 (pad32 (penc pad32 two_leaves_tree)) [2] ?pr = Ok (Some (replicate 32 8))" by code_simp
  from proof_sound [where kec = pad32, OF length_pad32 two_leaves_ok two_leaves_fits n inj u v e] u v show ?thesis by blast
qed

end
