(* ===== verification/Bit_Compress.thy ===== *)
theory Bit_Compress
  imports Prelude
begin

text \<open>
  The compression of sparse byte strings, \<^verbatim>\<open>src/common/bitutil/compress.go\<close>: the non-zero bytes behind a bit set that says where
  they stand, which is compressed in the same way.  Decompression gives back what was compressed, and accepts for every
  string only one compressed form shorter than the string.
\<close>

section \<open>Compression\<close>

datatype compress_error = ErrMissingData | ErrUnreferencedData | ErrExceededTarget | ErrZeroContent

fun bitset_loop :: "nat \<Rightarrow> bytes \<Rightarrow> bytes \<Rightarrow> bytes \<Rightarrow> bytes \<times> bytes" where
  "bitset_loop i [] nonZeroBitset nonZeroBytes = (nonZeroBitset, nonZeroBytes)"
| "bitset_loop i (b # data) nonZeroBitset nonZeroBytes =
     (if b \<noteq> 0
      then bitset_loop (i + 1) data
             (nonZeroBitset[i div 8 := nonZeroBitset ! (i div 8) OR push_bit (7 - i mod 8) 1]) (nonZeroBytes @ [b])
      else bitset_loop (i + 1) data nonZeroBitset nonZeroBytes)"

lemma length_bitset_loop [simp]: "length (fst (bitset_loop i data bs nz)) = length bs"
  by (induction i data bs nz rule: bitset_loop.induct) auto

function bitsetEncodeBytes :: "bytes \<Rightarrow> bytes" where
  "bitsetEncodeBytes data =
     (if length data = 0 then []
      else if length data = 1 then (if data ! 0 = 0 then [] else data)
      else
        (let (nonZeroBitset, nonZeroBytes) = bitset_loop 0 data (replicate ((length data + 7) div 8) 0) []
         in if length nonZeroBytes = 0 then [] else bitsetEncodeBytes nonZeroBitset @ nonZeroBytes))"
  by pat_completeness auto
termination
proof (relation "measure length", goal_cases)
  case (2 data x y z)
  then have "length y = (length data + 7) div 8"
    using length_bitset_loop [of 0 data "replicate ((length data + 7) div 8) 0" "[]"] by (metis fst_conv length_replicate)
  moreover have "2 \<le> length data" using 2 by (cases data; cases "tl data") auto
  ultimately show ?case by simp
qed simp

declare bitsetEncodeBytes.simps [simp del]

definition CompressBytes :: "bytes \<Rightarrow> bytes" where
  "CompressBytes data =
     (let out = bitsetEncodeBytes data in if length out < length data then out else data)"

section \<open>Decompression\<close>

text \<open>The bits from number \<open>i\<close> on, \<open>n\<close> of them.\<close>

fun spread_loop ::
  "nat \<Rightarrow> nat \<Rightarrow> bytes \<Rightarrow> bytes \<Rightarrow> bytes \<Rightarrow> nat \<Rightarrow> (compress_error, bytes \<times> nat) res" where
  "spread_loop 0 i nonZeroBitset data decomp ptr = Ok (decomp, ptr)"
| "spread_loop (Suc n) i nonZeroBitset data decomp ptr =
     (if nonZeroBitset ! (i div 8) AND push_bit (7 - i mod 8) 1 \<noteq> 0 then
        if ptr \<ge> length data then Err ErrMissingData
        else if i \<ge> length decomp then Err ErrExceededTarget
        else if data ! ptr = 0 then Err ErrZeroContent
        else spread_loop n (i + 1) nonZeroBitset data (decomp[i := data ! ptr]) (ptr + 1)
      else spread_loop n (i + 1) nonZeroBitset data decomp ptr)"

fun bitsetDecodePartialBytes :: "bytes \<Rightarrow> nat \<Rightarrow> (compress_error, bytes \<times> nat) res" where
  "bitsetDecodePartialBytes data target =
     (if target = 0 then Ok ([], 0)
      else
        let decomp = replicate target 0
        in if length data = 0 then Ok (decomp, 0)
           else if target = 1 then
             (let decomp = decomp[0 := data ! 0]
              in if data ! 0 \<noteq> 0 then Ok (decomp, 1) else Ok (decomp, 0))
           else
             res_bind (bitsetDecodePartialBytes data ((target + 7) div 8)) (\<lambda>(nonZeroBitset, ptr).
               spread_loop (8 * length nonZeroBitset) 0 nonZeroBitset data decomp ptr))"

declare bitsetDecodePartialBytes.simps [simp del]

definition bitsetDecodeBytes :: "bytes \<Rightarrow> nat \<Rightarrow> (compress_error, bytes) res" where
  "bitsetDecodeBytes data target =
     res_bind (bitsetDecodePartialBytes data target) (\<lambda>(out, sz).
       if sz \<noteq> length data then Err ErrUnreferencedData else Ok out)"

definition DecompressBytes :: "bytes \<Rightarrow> nat \<Rightarrow> (compress_error, bytes) res" where
  "DecompressBytes data target =
     (if length data > target then Err ErrExceededTarget
      else if length data = target then Ok data
      else bitsetDecodeBytes data target)"

section \<open>Bit sets\<close>

definition flagged :: "bytes \<Rightarrow> nat \<Rightarrow> bool" where
  "flagged bs j \<longleftrightarrow> bit (bs ! (j div 8)) (7 - j mod 8)"

lemma flagged_iff: "bs ! (i div 8) AND 2 ^ (7 - i mod 8) = 0 \<longleftrightarrow> \<not> flagged bs i"
  by (simp add: flagged_def and_exp_eq_0_iff_not_bit)

lemma flagged_ext:
  assumes "length bs = length bs'" "\<And>j. j < 8 * length bs \<Longrightarrow> flagged bs j = flagged bs' j"
  shows "bs = bs'"
proof (rule nth_equalityI [OF assms(1)])
  fix i assume i: "i < length bs"
  show "bs ! i = bs' ! i"
  proof (rule bit_word_eqI)
    fix k assume "k < LENGTH(8)"
    then have k: "k < 8" by simp
    let ?j = "8 * i + (7 - k)"
    have "?j div 8 = i" using k by simp
    moreover have "?j mod 8 = 7 - k" using k by (simp only: mod_mult_self4 mod_less)
    then have "7 - ?j mod 8 = k" using k by simp
    moreover have "?j < 8 * length bs" using i k by linarith
    ultimately show "bit (bs ! i) k = bit (bs' ! i) k" using assms(2) [of ?j] unfolding flagged_def by metis
  qed
qed

lemma flagged_set:
  assumes "i < 8 * length bs" "j < 8 * length bs"
  shows "flagged (bs[i div 8 := bs ! (i div 8) OR push_bit (7 - i mod 8) 1]) j \<longleftrightarrow> flagged bs j \<or> j = i"
proof (cases "i div 8 = j div 8")
  case True
  have "7 - i mod 8 = 7 - j mod 8 \<longleftrightarrow> i = j"
  proof
    assume e: "7 - i mod 8 = 7 - j mod 8"
    have "i mod 8 < 8" "j mod 8 < 8" by simp_all
    with e have "i mod 8 = j mod 8" by linarith
    with True show "i = j" by (metis div_mult_mod_eq)
  qed simp
  moreover have "j div 8 < length bs" using assms(2) by (simp add: less_mult_imp_div_less mult.commute)
  ultimately show ?thesis using True by (auto simp: flagged_def bit_simps)
next
  case False
  then show ?thesis by (auto simp: flagged_def)
qed

lemma bitset_loop_spec:
  "i + length data \<le> 8 * length bs \<Longrightarrow>
   snd (bitset_loop i data bs nz) = nz @ filter (\<lambda>b. b \<noteq> 0) data
   \<and> (\<forall>j < 8 * length bs. flagged (fst (bitset_loop i data bs nz)) j \<longleftrightarrow>
        flagged bs j \<or> i \<le> j \<and> j < i + length data \<and> data ! (j - i) \<noteq> 0)"
proof (induction i data bs nz rule: bitset_loop.induct)
  case (2 i b data bs nz)
  have j: "(i \<le> j \<and> j < i + length (b # data) \<and> (b # data) ! (j - i) \<noteq> 0) \<longleftrightarrow>
     (j = i \<and> b \<noteq> 0 \<or> i + 1 \<le> j \<and> j < i + 1 + length data \<and> data ! (j - (i + 1)) \<noteq> 0)" for j
    by (cases "j = i") (auto simp: nth_Cons' Suc_le_eq)
  show ?case
  proof (cases "b = 0")
    case True
    with 2 show ?thesis unfolding j by simp
  next
    case False
    have "i < 8 * length bs" using "2.prems" by simp
    note fs = flagged_set [OF this]
    from "2.IH"(1) [OF False] "2.prems" False show ?thesis unfolding j by (auto simp: fs simp del: push_bit_of_1)
  qed
qed auto

text \<open>The bit set of a byte string.\<close>

definition bitset :: "bytes \<Rightarrow> bytes" where
  "bitset data = fst (bitset_loop 0 data (replicate ((length data + 7) div 8) 0) [])"

lemma length_bitset [simp]: "length (bitset data) = (length data + 7) div 8"
  by (simp add: bitset_def)

lemma eight_ceil: "n \<le> 8 * ((n + 7) div 8)" for n :: nat
  by linarith

lemma flagged_bitset: "j < 8 * ((length data + 7) div 8) \<Longrightarrow> flagged (bitset data) j \<longleftrightarrow> j < length data \<and> data ! j \<noteq> 0"
proof -
  assume j: "j < 8 * ((length data + 7) div 8)"
  then have "j div 8 < (length data + 7) div 8" by (simp add: less_mult_imp_div_less mult.commute)
  then have "\<not> flagged (replicate ((length data + 7) div 8) 0) j" by (simp add: flagged_def)
  with j bitset_loop_spec [of 0 data "replicate ((length data + 7) div 8) 0" "[]"] eight_ceil [of "length data"]
  show ?thesis by (simp add: bitset_def)
qed

lemma bitsetEncodeBytes_eq:
  "2 \<le> length data \<Longrightarrow> bitsetEncodeBytes data =
     (if filter (\<lambda>b. b \<noteq> 0) data = [] then [] else bitsetEncodeBytes (bitset data) @ filter (\<lambda>b. b \<noteq> 0) data)"
  using bitset_loop_spec [of 0 data "replicate ((length data + 7) div 8) 0" "[]"] eight_ceil [of "length data"]
  by (subst bitsetEncodeBytes.simps) (auto simp: bitset_def split: prod.splits)

lemma encode_zeros: "bitsetEncodeBytes (replicate n 0) = []"
proof (cases "2 \<le> n")
  case True
  then show ?thesis by (simp add: bitsetEncodeBytes_eq)
next
  case False
  then show ?thesis by (subst bitsetEncodeBytes.simps) auto
qed

section \<open>Decompressing what was compressed\<close>

lemma spread_ok:
  "\<forall>j. i \<le> j \<longrightarrow> j < i + n \<longrightarrow> flagged bs j = (j < length out \<and> out ! j \<noteq> 0) \<Longrightarrow> length out \<le> i + n \<Longrightarrow>
   drop ptr data = filter (\<lambda>b. b \<noteq> 0) (drop i out) @ rest \<Longrightarrow> decomp = take i out @ replicate (length out - i) 0 \<Longrightarrow>
   spread_loop n i bs data decomp ptr = Ok (out, ptr + length (filter (\<lambda>b. b \<noteq> 0) (drop i out)))"
proof (induction n arbitrary: i decomp ptr)
  case (Suc n)
  have fl: "flagged bs i \<longleftrightarrow> i < length out \<and> out ! i \<noteq> 0" using Suc.prems(1) by auto
  have pre: "\<forall>j. i + 1 \<le> j \<longrightarrow> j < i + 1 + n \<longrightarrow> flagged bs j = (j < length out \<and> out ! j \<noteq> 0)" "length out \<le> i + 1 + n"
    using Suc.prems(1,2) by auto
  show ?case
  proof (cases "i < length out")
    case True
    then have d: "drop i out = out ! i # drop (i + 1) out" by (simp add: Cons_nth_drop_Suc)
    have u: "decomp[i := out ! i] = take (i + 1) out @ replicate (length out - (i + 1)) 0"
    proof -
      obtain m where m: "length out - i = Suc m" using True by (metis Suc_diff_Suc)
      then show ?thesis using True Suc.prems(4) by (simp add: list_update_append take_Suc_conv_app_nth Suc_diff_Suc)
    qed
    show ?thesis
    proof (cases "out ! i = 0")
      case z: True
      have "decomp[i := out ! i] = decomp" using True Suc.prems(4) z by (intro list_update_same_conv [THEN iffD2]) (auto simp: nth_append)
      with u have "decomp = take (i + 1) out @ replicate (length out - (i + 1)) 0" by simp
      from Suc.IH [OF pre _ this, of ptr] Suc.prems(3) d z fl show ?thesis by (simp add: flagged_iff)
    next
      case nz: False
      then have dp: "drop ptr data = out ! i # filter (\<lambda>b. b \<noteq> 0) (drop (i + 1) out) @ rest" using Suc.prems(3) d by simp
      then have p: "ptr < length data" "data ! ptr = out ! i" "drop (ptr + 1) data = filter (\<lambda>b. b \<noteq> 0) (drop (i + 1) out) @ rest"
        by (metis drop_all list.distinct(1) not_le, metis drop_all list.distinct(1) not_le nth_via_drop,
            metis Suc_eq_plus1 drop_Suc list.sel(3) tl_drop)
      have "length decomp = length out" using Suc.prems(4) True by simp
      with Suc.IH [OF pre p(3) u] True nz d fl p(1,2) show ?thesis by (simp add: flagged_iff)
    qed
  next
    case False
    then have "decomp = take (i + 1) out @ replicate (length out - (i + 1)) 0" "\<not> flagged bs i"
      using Suc.prems(4) fl by auto
    moreover have "filter (\<lambda>b. b \<noteq> 0) (drop i out) = filter (\<lambda>b. b \<noteq> 0) (drop (i + 1) out)" using False by simp
    ultimately show ?thesis using Suc.IH [OF pre, of ptr] Suc.prems(3) by (simp add: flagged_iff)
  qed
qed simp

lemma decode_encode:
  "rest = [] \<or> filter (\<lambda>b. b \<noteq> 0) out \<noteq> [] \<Longrightarrow>
   bitsetDecodePartialBytes (bitsetEncodeBytes out @ rest) (length out) = Ok (out, length (bitsetEncodeBytes out))"
proof (induction "length out" arbitrary: out rest rule: less_induct)
  case less
  let ?nz = "filter (\<lambda>b. b \<noteq> 0) out"
  consider "out = []" | b where "out = [b]" | "2 \<le> length out"
    by (cases out; cases "tl out") auto
  then show ?case
  proof cases
    case 1
    then show ?thesis by (simp add: bitsetDecodePartialBytes.simps bitsetEncodeBytes.simps)
  next
    case (2 b)
    with less.prems show ?thesis
      by (cases "b = 0") (simp_all add: bitsetDecodePartialBytes.simps bitsetEncodeBytes.simps)
  next
    case 3
    show ?thesis
    proof (cases "?nz = []")
      case True
      then have "out = replicate (length out) 0" by (auto simp: filter_empty_conv intro: replicate_eqI)
      with True 3 less.prems show ?thesis
        by (subst bitsetDecodePartialBytes.simps) (auto simp: bitsetEncodeBytes_eq)
    next
      case False
      have e: "bitsetEncodeBytes out = bitsetEncodeBytes (bitset out) @ ?nz" using 3 False by (simp add: bitsetEncodeBytes_eq)
      have "filter (\<lambda>b. b \<noteq> 0) (bitset out) \<noteq> []"
      proof
        assume "filter (\<lambda>b. b \<noteq> 0) (bitset out) = []"
        then have z: "bitset out = replicate (length (bitset out)) 0" by (auto simp: filter_empty_conv intro: replicate_eqI)
        from False obtain j where j: "j < length out" "out ! j \<noteq> 0" by (auto simp: filter_empty_conv in_set_conv_nth)
        then have "flagged (bitset out) j" using flagged_bitset [of j out] eight_ceil [of "length out"] by simp
        moreover have "j div 8 < (length out + 7) div 8" using j(1) by linarith
        ultimately show False by (subst (asm) z) (simp add: flagged_def)
      qed
      with less.hyps [of "bitset out" "?nz @ rest"] 3
      have r: "bitsetDecodePartialBytes (bitsetEncodeBytes out @ rest) ((length out + 7) div 8) =
          Ok (bitset out, length (bitsetEncodeBytes (bitset out)))" by (simp add: e)
      have "spread_loop (8 * length (bitset out)) 0 (bitset out) (bitsetEncodeBytes out @ rest) (replicate (length out) 0)
          (length (bitsetEncodeBytes (bitset out))) = Ok (out, length (bitsetEncodeBytes (bitset out)) + length (filter (\<lambda>b. b \<noteq> 0) (drop 0 out)))"
        by (rule spread_ok [where rest = rest]) (use flagged_bitset [of _ out] eight_ceil [of "length out"] e in auto)
      with r 3 e False show ?thesis by (subst bitsetDecodePartialBytes.simps) auto
    qed
  qed
qed

section \<open>Only compressed strings are decompressed\<close>

lemma spread_inv:
  "spread_loop n i bs data decomp ptr = Ok (out, p) \<Longrightarrow> ptr \<le> length data \<Longrightarrow>
   (\<forall>j. i \<le> j \<longrightarrow> j < length decomp \<longrightarrow> decomp ! j = 0) \<Longrightarrow>
   length out = length decomp \<and> ptr \<le> p \<and> p \<le> length data \<and> take i out = take i decomp
   \<and> (\<forall>j. i \<le> j \<longrightarrow> j < i + n \<longrightarrow> flagged bs j = (j < length out \<and> out ! j \<noteq> 0))
   \<and> take (p - ptr) (drop ptr data) = filter (\<lambda>b. b \<noteq> 0) (drop i out)"
proof (induction n arbitrary: i decomp ptr)
  case 0
  then have "filter (\<lambda>b. b \<noteq> 0) (drop i out) = []" by (auto simp: filter_empty_conv in_set_conv_nth)
  with 0 show ?case by simp
next
  case (Suc n)
  show ?case
  proof (cases "flagged bs i")
    case True
    with Suc.prems(1) have c: "ptr < length data" "i < length decomp" "data ! ptr \<noteq> 0"
      "spread_loop n (i + 1) bs data (decomp[i := data ! ptr]) (ptr + 1) = Ok (out, p)"
      by (auto simp: flagged_iff split: if_splits)
    from Suc.IH [OF c(4)] c(1) Suc.prems(3)
    have r: "length out = length decomp" "ptr + 1 \<le> p" "p \<le> length data" "take (i + 1) out = take (i + 1) (decomp[i := data ! ptr])"
      "\<forall>j. i + 1 \<le> j \<longrightarrow> j < i + 1 + n \<longrightarrow> flagged bs j = (j < length out \<and> out ! j \<noteq> 0)"
      "take (p - (ptr + 1)) (drop (ptr + 1) data) = filter (\<lambda>b. b \<noteq> 0) (drop (i + 1) out)" by auto
    have o: "out ! i = data ! ptr" using r(4) c(2) by (metis less_add_one nth_list_update_eq nth_take)
    have t: "take i out = take i decomp"
      using arg_cong [OF r(4), of "take i"] by (simp add: min_def)
    have d: "drop i out = out ! i # drop (i + 1) out" using c(2) r(1) by (simp add: Cons_nth_drop_Suc)
    have "take (p - ptr) (drop ptr data) = data ! ptr # take (p - (ptr + 1)) (drop (ptr + 1) data)"
      using c(1) r(2) by (simp add: Cons_nth_drop_Suc [symmetric] take_Cons' )
    then have "take (p - ptr) (drop ptr data) = filter (\<lambda>b. b \<noteq> 0) (drop i out)" using r(6) d o c(3) by simp
    moreover have "flagged bs j = (j < length out \<and> out ! j \<noteq> 0)" if "i \<le> j" "j < i + Suc n" for j
      using that r(1,5) True o c(2,3) by (cases "j = i") auto
    ultimately show ?thesis using r(1-3) t by simp
  next
    case False
    with Suc.prems(1) have c: "spread_loop n (i + 1) bs data decomp ptr = Ok (out, p)" by (simp add: flagged_iff)
    from Suc.IH [OF c Suc.prems(2)] Suc.prems(3)
    have r: "length out = length decomp" "ptr \<le> p" "p \<le> length data" "take (i + 1) out = take (i + 1) decomp"
      "\<forall>j. i + 1 \<le> j \<longrightarrow> j < i + 1 + n \<longrightarrow> flagged bs j = (j < length out \<and> out ! j \<noteq> 0)"
      "take (p - ptr) (drop ptr data) = filter (\<lambda>b. b \<noteq> 0) (drop (i + 1) out)" by auto
    have t: "take i out = take i decomp"
      using arg_cong [OF r(4), of "take i"] by (simp add: min_def)
    have o: "i < length out \<Longrightarrow> out ! i = 0"
      using r(1,4) Suc.prems(3) by (metis less_add_one nth_take order_refl)
    have "filter (\<lambda>b. b \<noteq> 0) (drop i out) = filter (\<lambda>b. b \<noteq> 0) (drop (i + 1) out)"
      using o by (cases "i < length out") (simp_all add: Cons_nth_drop_Suc [symmetric])
    moreover have "flagged bs j = (j < length out \<and> out ! j \<noteq> 0)" if "i \<le> j" "j < i + Suc n" for j
      using that r(5) False o by (cases "j = i") auto
    ultimately show ?thesis using r(1-3,6) t by simp
  qed
qed

lemma decode_inv:
  "bitsetDecodePartialBytes data target = Ok (out, p) \<Longrightarrow>
   length out = target \<and> p \<le> length data \<and> take p data = bitsetEncodeBytes out"
proof (induction target arbitrary: out p rule: less_induct)
  case (less target)
  consider "target = 0" | "target \<noteq> 0" "data = []" | "target = 1" "data \<noteq> []" | "2 \<le> target" "data \<noteq> []" by linarith
  then show ?case
  proof cases
    case 1
    with less.prems show ?thesis by (simp add: bitsetDecodePartialBytes.simps bitsetEncodeBytes.simps)
  next
    case 2
    with less.prems show ?thesis by (subst (asm) bitsetDecodePartialBytes.simps) (auto simp: encode_zeros)
  next
    case 3
    then obtain b ds where "data = b # ds" by (cases data) auto
    with 3 less.prems show ?thesis
      by (subst (asm) bitsetDecodePartialBytes.simps) (auto simp: bitsetEncodeBytes.simps Let_def split: if_splits)
  next
    case 4
    with less.prems obtain bs ptr where r: "bitsetDecodePartialBytes data ((target + 7) div 8) = Ok (bs, ptr)"
      "spread_loop (8 * length bs) 0 bs data (replicate target 0) ptr = Ok (out, p)"
      by (subst (asm) bitsetDecodePartialBytes.simps) (auto split: if_splits)
    from less.IH [OF _ r(1)] 4 have i: "length bs = (target + 7) div 8" "ptr \<le> length data" "take ptr data = bitsetEncodeBytes bs" by auto
    from spread_inv [OF r(2) i(2)]
    have s: "length out = target" "ptr \<le> p" "p \<le> length data" "\<forall>j < 8 * length bs. flagged bs j = (j < length out \<and> out ! j \<noteq> 0)"
      "take (p - ptr) (drop ptr data) = filter (\<lambda>b. b \<noteq> 0) out" by auto
    have b: "bs = bitset out" by (rule flagged_ext) (use i(1) s(1,4) flagged_bitset [of _ out] in auto)
    have t: "take p data = take ptr data @ take (p - ptr) (drop ptr data)"
      using s(2) by (metis le_add_diff_inverse take_add)
    show ?thesis
    proof (cases "filter (\<lambda>b. b \<noteq> 0) out = []")
      case True
      then have "bs = replicate (length bs) 0"
        by (intro flagged_ext) (use s(4) in \<open>auto simp: flagged_def filter_empty_conv less_mult_imp_div_less mult.commute\<close>)
      then have "take ptr data = []" using i(3) encode_zeros [of "length bs"] by simp
      with True s t 4 show ?thesis by (simp add: bitsetEncodeBytes_eq)
    next
      case False
      with s t 4 i(3) b show ?thesis by (simp add: bitsetEncodeBytes_eq)
    qed
  qed
qed

section \<open>Properties\<close>

text \<open>C31: Decompression is the inverse of compression: every byte string comes back from its compressed form and its length.\<close>

theorem compress_roundtrip: "DecompressBytes (CompressBytes data) (length data) = Ok data"
  using decode_encode [of "[]" data] by (simp add: DecompressBytes_def CompressBytes_def bitsetDecodeBytes_def Let_def)

text \<open>
  C0: Decompression gives a string of the length asked for, and accepts only one shorter form of it: what it reads in full is
  exactly what compressing the result writes.
\<close>

theorem decompress_canonical:
  assumes "DecompressBytes data target = Ok out"
  shows "length out = target \<and> (length data < target \<longrightarrow> CompressBytes out = data)"
proof (cases "length data < target")
  case True
  with assms obtain p where "bitsetDecodePartialBytes data target = Ok (out, p)" "p = length data"
    by (auto simp: DecompressBytes_def bitsetDecodeBytes_def split: if_splits)
  with decode_inv [of data target out p] True show ?thesis by (simp add: CompressBytes_def Let_def)
next
  case False
  with assms show ?thesis by (auto simp: DecompressBytes_def split: if_splits)
qed

theorem decompress_canonical_witness:
  "DecompressBytes [0x80, 0x20, 7] 10 = Ok [0, 0, 7, 0, 0, 0, 0, 0, 0, 0]
   \<and> CompressBytes [0, 0, 7, 0, 0, 0, 0, 0, 0, 0] = [0x80, 0x20, 7]"
proof -
  have "DecompressBytes [0x80, 0x20, 7] 10 = Ok [0, 0, 7, 0, 0, 0, 0, 0, 0, 0]" by code_simp
  with decompress_canonical [OF this] show ?thesis by simp
qed

end
