(* ===== verification/Consensus_Engine.thy ===== *)
theory Consensus_Engine
  imports Block_Roots Sha3
begin

text \<open>
  The consensus engine, \<^verbatim>\<open>src/consensus/prometheus\<close> with \<^verbatim>\<open>src/consensus/definitions.go\<close>: a header is prepared, the proof of
  its work is made and signed, the block is sealed, and other nodes check the proof and the header.  Signing with the key of
  an account and recovering a public key from a signature are the parameters \<open>sign\<close> and \<open>recover\<close>, the clock is the
  parameter \<open>now\<close> (in milliseconds).
\<close>

section \<open>The engine\<close>

datatype engine_error =
    ErrUnknownBlock
  | ErrWaitTransactions
  | ErrMissingVanity
  | ErrMissingSignature
  | ErrExtraSigners
  | ErrUnknownAncestor
  | ErrInvalidTimestamp
  | ErrCoinbaseNotSet
  | ErrInvalidProof
  | ErrProofIncorrect
  | ErrSign
  | ErrRecover

type_synonym signer_fn = "address \<Rightarrow> bytes \<Rightarrow> bytes option"
type_synonym recover_fn = "bytes \<Rightarrow> bytes \<Rightarrow> bytes option"

record Prometheus =
  pr_Period :: u64
  pr_signatures :: "hash \<rightharpoonup> address"
  pr_signer :: address
  pr_signFn :: "signer_fn option"

record WorkProof =
  wp_Number :: int
  wp_Sign :: bytes
  wp_Txs :: "Transaction list"
  wp_States :: "ProofState list"

abbreviation (input) ExtraVanity :: nat where "ExtraVanity \<equiv> 32"
abbreviation (input) ExtraSeal :: nat where "ExtraSeal \<equiv> 65"
abbreviation (input) NodeCheckpointInterval :: u64 where "NodeCheckpointInterval \<equiv> 200"

definition Authorize :: "address \<Rightarrow> signer_fn \<Rightarrow> Prometheus \<Rightarrow> Prometheus" where
  "Authorize signer signFn c = c\<lparr>pr_signer := signer, pr_signFn := Some signFn\<rparr>"

text \<open>\<^verbatim>\<open>copy(addr[:], ...)\<close>: as many bytes as both have.\<close>

definition recoverpk2address :: "(bytes \<Rightarrow> bytes) \<Rightarrow> bytes \<Rightarrow> ('e, address) res" where
  "recoverpk2address kec pub =
     (if pub = [] then Panic
      else let src = take AddressLength (drop 12 (kec (tl pub))) in Ok (src @ replicate (AddressLength - length src) 0))"

section \<open>Preparing and proving\<close>

definition PrepareBlockHeader :: "int \<Rightarrow> Header \<Rightarrow> Header" where
  "PrepareBlockHeader now header =
     (let extra = hd_Extra header;
          extra = (if length extra < ExtraVanity then extra @ replicate (ExtraVanity - length extra) 0 else extra);
          extra = take ExtraVanity extra @ replicate ExtraSeal 0
      in header\<lparr>hd_Extra := extra, hd_Time := now, hd_Difficulty := 1\<rparr>)"

definition MixHash :: "(bytes \<Rightarrow> bytes) \<Rightarrow> hash \<Rightarrow> hash \<Rightarrow> hash" where
  "MixHash kec first second = kec (first @ second)"

text \<open>A call of a signing function that is not set panics.\<close>

definition call_sign :: "Prometheus \<Rightarrow> bytes \<Rightarrow> (engine_error, bytes) res" where
  "call_sign c data =
     (case pr_signFn c of
        None \<Rightarrow> Panic
      | Some sign \<Rightarrow> (case sign (pr_signer c) data of None \<Rightarrow> Err ErrSign | Some s \<Rightarrow> Ok s))"

definition SignData :: "Prometheus \<Rightarrow> bytes \<Rightarrow> (engine_error, bytes) res" where
  "SignData c data =
     (if pr_signFn c = None then Err ErrCoinbaseNotSet
      else res_bind (Sum256 data) (\<lambda>hash. call_sign c hash))"

definition RecoverSender :: "(bytes \<Rightarrow> bytes) \<Rightarrow> recover_fn \<Rightarrow> bytes \<Rightarrow> bytes \<Rightarrow> (engine_error, address) res" where
  "RecoverSender kec recover data signature =
     res_bind (Sum256 data) (\<lambda>hash.
       case recover hash signature of None \<Rightarrow> Err ErrRecover | Some pubk \<Rightarrow> recoverpk2address kec pubk)"

text \<open>
  The proof of a list of transactions on top of the parent's proof hash, and the header with the two hashes filled in.  The
  debug output reads the parent's proof hash before the test for a nil parent.
\<close>

definition GenerateProof ::
  "(bytes \<Rightarrow> bytes) \<Rightarrow> (bytes \<Rightarrow> bytes) \<Rightarrow> Prometheus \<Rightarrow> Header \<Rightarrow> Header option \<Rightarrow> Transaction list \<Rightarrow> ProofState list
    \<Rightarrow> (engine_error, WorkProof \<times> Header) res" where
  "GenerateProof kec sha c header parent txs proofs =
     (case parent of
        None \<Rightarrow> Panic
      | Some p \<Rightarrow>
          (let number = Uint64 (hd_Number header); lastHash = hd_ProofHash p
           in case DeriveSha sha (tx_CalculateHash kec) txs of
                Ok txroot \<Rightarrow>
                  (let proofHash = MixHash kec lastHash txroot
                   in res_bind (call_sign c proofHash) (\<lambda>sighash.
                        Ok (\<lparr>wp_Number = sint number, wp_Sign = sighash, wp_Txs = txs, wp_States = proofs\<rparr>,
                            header\<lparr>hd_TxHash := txroot, hd_ProofHash := proofHash\<rparr>)))
              | Diverge \<Rightarrow> Diverge
              | _ \<Rightarrow> Panic))"

definition VerifyProofQuick :: "(bytes \<Rightarrow> bytes) \<Rightarrow> hash \<Rightarrow> hash \<Rightarrow> hash \<Rightarrow> (engine_error, unit) res" where
  "VerifyProofQuick kec lasthash txroot newHash =
     (if MixHash kec lasthash txroot = newHash then Ok () else Err ErrProofIncorrect)"

definition verifyProof ::
  "(bytes \<Rightarrow> bytes) \<Rightarrow> (bytes \<Rightarrow> bytes) \<Rightarrow> recover_fn \<Rightarrow> hash \<Rightarrow> address \<Rightarrow> WorkProof \<Rightarrow> (engine_error, hash) res" where
  "verifyProof kec sha recover lHash addr p =
     (case DeriveSha sha (tx_CalculateHash kec) (wp_Txs p) of
        Ok txroot \<Rightarrow>
          (let proofHash = MixHash kec lHash txroot
           in case recover proofHash (wp_Sign p) of
                Some pub \<Rightarrow>
                  res_bind (recoverpk2address kec pub) (\<lambda>a. if a \<noteq> addr then Err ErrInvalidProof else Ok proofHash)
              | None \<Rightarrow> Err ErrInvalidProof)
      | Diverge \<Rightarrow> Diverge
      | _ \<Rightarrow> Panic)"

definition WorkProof_Data :: "WorkProof \<Rightarrow> bytes" where
  "WorkProof_Data wp = big_bytes (nat \<bar>wp_Number wp\<bar>) @ wp_Sign wp"

section \<open>Sealing\<close>

text \<open>The hash that is signed: the header without the seal, the coinbase and the proof hashes.\<close>

definition SigHash :: "(bytes \<Rightarrow> bytes) \<Rightarrow> Header \<Rightarrow> ('e, hash) res" where
  "SigHash kec h =
     (if length (hd_Extra h) < 65 then Panic
      else Ok (rlpHash kec (ListV
        [BytesV (hd_ParentHash h), BytesV (hd_Root h), BytesV (hd_TxHash h), BytesV (hd_ReceiptHash h),
         BigV (Some (hd_Difficulty h)), BigV (Some (hd_Number h)), BigV (Some (hd_Time h)),
         BytesV (take (length (hd_Extra h) - 65) (hd_Extra h))])))"

definition GenBlockWithSig ::
  "(bytes \<Rightarrow> bytes) \<Rightarrow> int \<Rightarrow> Prometheus \<Rightarrow> Block \<Rightarrow> (engine_error, Block) res" where
  "GenBlockWithSig kec now c block =
     (let header = bl_header block; number = Uint64 (hd_Number header)
      in if number = 0 then Err ErrUnknownBlock
         else if pr_Period c = 0 \<and> length (bl_transactions block) = 0 then Err ErrWaitTransactions
         else
           (let header = header\<lparr>hd_Coinbase := pr_signer c, hd_Time := now\<rparr>
            in res_bind (SigHash kec header) (\<lambda>h.
               res_bind (call_sign c h) (\<lambda>sighash.
                 let extra = hd_Extra header; k = length extra - ExtraSeal;
                     seal = take ExtraSeal sighash @ drop (length sighash) (drop k extra)
                 in Ok (WithSeal (header\<lparr>hd_Extra := take k extra @ seal\<rparr>) block)))))"

text \<open>
  The account that sealed a header.  The cache of signatures (\<^verbatim>\<open>lru.ARCCache\<close>, a library) is read as a map; what it forgets
  is only recovered again.
\<close>

definition Ecrecover_header ::
  "(bytes \<Rightarrow> bytes) \<Rightarrow> recover_fn \<Rightarrow> Header \<Rightarrow> (hash \<rightharpoonup> address) \<Rightarrow> (engine_error, address \<times> (hash \<rightharpoonup> address)) res" where
  "Ecrecover_header kec recover header sigcache =
     (let hash = Header_Hash kec header
      in case sigcache hash of
           Some a \<Rightarrow> Ok (a, sigcache)
         | None \<Rightarrow>
             if length (hd_Extra header) < ExtraSeal then Err ErrMissingSignature
             else
               (let signature = drop (length (hd_Extra header) - ExtraSeal) (hd_Extra header)
                in res_bind (SigHash kec header) (\<lambda>h.
                   case recover h signature of
                     None \<Rightarrow> Err ErrRecover
                   | Some pubkey \<Rightarrow>
                       res_bind (recoverpk2address kec pubkey) (\<lambda>signer. Ok (signer, sigcache(hash \<mapsto> signer))))))"

definition Author :: "(bytes \<Rightarrow> bytes) \<Rightarrow> recover_fn \<Rightarrow> Header \<Rightarrow> Prometheus \<Rightarrow> (engine_error, address \<times> Prometheus) res" where
  "Author kec recover header c =
     res_map (\<lambda>(a, cache). (a, c\<lparr>pr_signatures := cache\<rparr>)) (Ecrecover_header kec recover header (pr_signatures c))"

section \<open>Checking a header\<close>

text \<open>\<open>getHeader\<close> is the chain's lookup of a header by hash and number.\<close>

definition verifyCascadingFields ::
  "(bytes \<Rightarrow> bytes) \<Rightarrow> (hash \<Rightarrow> u64 \<Rightarrow> Header option) \<Rightarrow> Header \<Rightarrow> Header list \<Rightarrow> (engine_error, unit) res" where
  "verifyCascadingFields kec getHeader header prev =
     (let number = Uint64 (hd_Number header)
      in if number = 0 then Ok ()
         else
           (case (if length prev > 0 then Some (prev ! (length prev - 1))
                  else getHeader (hd_ParentHash header) (number - 1)) of
              None \<Rightarrow> Err ErrUnknownAncestor
            | Some parent \<Rightarrow>
                if Uint64 (hd_Number parent) \<noteq> number - 1 \<or> Header_Hash kec parent \<noteq> hd_ParentHash header
                then Err ErrUnknownAncestor
                else if Uint64 (hd_Time parent) > Uint64 (hd_Time header) then Err ErrInvalidTimestamp
                else Ok ()))"

definition verifyHeader ::
  "(bytes \<Rightarrow> bytes) \<Rightarrow> (hash \<Rightarrow> u64 \<Rightarrow> Header option) \<Rightarrow> Header \<Rightarrow> Header list \<Rightarrow> (engine_error, unit) res" where
  "verifyHeader kec getHeader header prev =
     (let number = Uint64 (hd_Number header);
          checkpoint = (number mod NodeCheckpointInterval = 0)
      in if length (hd_Extra header) < ExtraVanity then Err ErrMissingVanity
         else if length (hd_Extra header) < ExtraVanity + ExtraSeal then Err ErrMissingSignature
         else
           (let signersBytes = length (hd_Extra header) - ExtraVanity - ExtraSeal
            in if \<not> checkpoint \<and> signersBytes \<noteq> 0 then Err ErrExtraSigners
               else verifyCascadingFields kec getHeader header prev))"

fun VerifyHeaders_loop ::
  "(bytes \<Rightarrow> bytes) \<Rightarrow> (hash \<Rightarrow> u64 \<Rightarrow> Header option) \<Rightarrow> Header list \<Rightarrow> Header list \<Rightarrow> (engine_error, unit) res list" where
  "VerifyHeaders_loop kec getHeader before [] = []"
| "VerifyHeaders_loop kec getHeader before (h # hs) =
     verifyHeader kec getHeader h before # VerifyHeaders_loop kec getHeader (before @ [h]) hs"

section \<open>What the engine accepts\<close>

text \<open>
  \<open>signs kec recover sign a\<close>: the signing function signs everything for the account \<open>a\<close>, with signatures of 65 bytes, and
  the public key recovered from such a signature is one of the account.
\<close>

definition signs :: "(bytes \<Rightarrow> bytes) \<Rightarrow> recover_fn \<Rightarrow> signer_fn \<Rightarrow> address \<Rightarrow> bool" where
  "signs kec recover sign a \<longleftrightarrow>
     (\<forall>data. \<exists>s pub. sign a data = Some s \<and> length s = 65 \<and> recover data s = Some pub
        \<and> (recoverpk2address kec pub :: (engine_error, address) res) = Ok a)"

lemma signsD:
  assumes "signs kec recover sign a"
  obtains s pub where "sign a data = Some s" "length s = 65" "recover data s = Some pub"
    "recoverpk2address kec pub = (Ok a :: (engine_error, address) res)"
  using assms unfolding signs_def by blast

lemma length_PrepareBlockHeader: "length (hd_Extra (PrepareBlockHeader now h)) = 97"
  by (simp add: PrepareBlockHeader_def Let_def)

lemma PrepareBlockHeader_fields [simp]:
  "hd_Number (PrepareBlockHeader now h) = hd_Number h" "hd_ParentHash (PrepareBlockHeader now h) = hd_ParentHash h"
  by (simp_all add: PrepareBlockHeader_def Let_def)

lemma uint_Uint64: "0 \<le> i \<Longrightarrow> i < 2 ^ 64 \<Longrightarrow> uint (Uint64 i) = i"
  by (simp add: Uint64_def unsigned_of_int take_bit_int_eq_self)

lemma length_VerifyHeaders [simp]: "length (VerifyHeaders_loop kec getHeader bef hs) = length hs"
  by (induction hs arbitrary: bef) auto

lemma VerifyHeaders_nth:
  "i < length hs \<Longrightarrow> VerifyHeaders_loop kec getHeader bef hs ! i = verifyHeader kec getHeader (hs ! i) (bef @ take i hs)"
  by (induction hs arbitrary: bef i) (auto simp: nth_Cons split: nat.splits)

text \<open>A derived root always exists.\<close>

lemma DeriveSha_total:
  assumes "\<And>c. calc c = Ok (f c)"
  shows "\<exists>r. DeriveSha sha calc cs = Ok r"
proof (cases "cs = []")
  case False
  have "list_all2 (\<lambda>c h. calc c = Ok h) cs (map f cs)" by (simp add: list_all2_map2 list_all2_refl assms)
  from NewTree_Ok [OF this False, of sha] show ?thesis using False by (auto simp: DeriveSha_def)
qed (simp add: DeriveSha_def)

lemmas derived_roots =
  DeriveSha_total [of "tx_CalculateHash kec" "Transaction_Hash kec" for kec, OF tx_CalculateHash_def]
  DeriveSha_total [of proof_CalculateHash ps_Root, OF proof_CalculateHash_def]
  DeriveSha_total [of receipt_CalculateHash rc_TxHash, OF receipt_CalculateHash_def]

lemma NewBlock_header:
  assumes "DeriveSha sha (tx_CalculateHash kec) txs = Ok (hd_TxHash h)"
  shows "\<exists>b q z. NewBlock kec sha h txs proofs receipts = Ok b \<and> bl_transactions b = txs
    \<and> bl_header b = h\<lparr>hd_ProofRoot := q, hd_ReceiptHash := z\<rparr>"
proof -
  obtain q z where "DeriveSha sha proof_CalculateHash proofs = Ok q" "DeriveSha sha receipt_CalculateHash receipts = Ok z"
    using derived_roots(2,3) by blast
  with assms show ?thesis by (cases h) (auto simp: NewBlock_def)
qed

lemma GenerateProof_verifies:
  assumes s: "signs kec recover sign (pr_signer c)" "pr_signFn c = Some sign"
  obtains wp root where "GenerateProof kec sha c header (Some parent) txs proofs =
      Ok (wp, header\<lparr>hd_TxHash := root, hd_ProofHash := MixHash kec (hd_ProofHash parent) root\<rparr>)"
    "DeriveSha sha (tx_CalculateHash kec) txs = Ok root"
    "verifyProof kec sha recover (hd_ProofHash parent) (pr_signer c) wp = Ok (MixHash kec (hd_ProofHash parent) root)"
proof -
  obtain root where r: "DeriveSha sha (tx_CalculateHash kec) txs = Ok root" using derived_roots(1) by blast
  let ?h = "MixHash kec (hd_ProofHash parent) root"
  obtain sg pub where g: "sign (pr_signer c) ?h = Some sg" "recover ?h sg = Some pub"
    "recoverpk2address kec pub = (Ok (pr_signer c) :: (engine_error, address) res)" by (rule signsD [OF s(1), of ?h])
  show ?thesis
    by (rule that [of "\<lparr>wp_Number = sint (Uint64 (hd_Number header)), wp_Sign = sg, wp_Txs = txs, wp_States = proofs\<rparr>" root])
      (use r g s(2) in \<open>simp_all add: GenerateProof_def call_sign_def verifyProof_def Let_def\<close>)
qed

lemma Ecrecover_sealed:
  assumes s: "signs kec recover sign (pr_signer c)" "pr_signFn c = Some sign"
    and b: "length (hd_Extra (bl_header b)) = 97" "Uint64 (hd_Number (bl_header b)) \<noteq> 0"
      "pr_Period c \<noteq> 0 \<or> bl_transactions b \<noteq> []"
  obtains e where "length e = 97"
    "GenBlockWithSig kec now c b = Ok (b\<lparr>bl_header := (bl_header b)\<lparr>hd_Coinbase := pr_signer c, hd_Time := now, hd_Extra := e\<rparr>\<rparr>)"
    "\<And>cache. cache (Header_Hash kec ((bl_header b)\<lparr>hd_Coinbase := pr_signer c, hd_Time := now, hd_Extra := e\<rparr>)) = None \<Longrightarrow>
       \<exists>cache'. Ecrecover_header kec recover ((bl_header b)\<lparr>hd_Coinbase := pr_signer c, hd_Time := now, hd_Extra := e\<rparr>) cache
         = Ok (pr_signer c, cache')"
proof -
  let ?h = "(bl_header b)\<lparr>hd_Coinbase := pr_signer c, hd_Time := now\<rparr>"
  obtain x where x: "SigHash kec ?h = (Ok x :: (engine_error, hash) res)" using b(1) by (auto simp: SigHash_def)
  obtain sg pub where g: "sign (pr_signer c) x = Some sg" "length sg = 65" "recover x sg = Some pub"
    "recoverpk2address kec pub = (Ok (pr_signer c) :: (engine_error, address) res)" by (rule signsD [OF s(1), of x])
  let ?e = "take 32 (hd_Extra (bl_header b)) @ sg"
  have "SigHash kec ((bl_header b)\<lparr>hd_Coinbase := pr_signer c, hd_Time := now, hd_Extra := ?e\<rparr>) = (Ok x :: (engine_error, hash) res)"
    using x b(1) g(2) by (simp add: SigHash_def)
  then show ?thesis
    using g b x s(2) by (intro that [of ?e])
      (auto simp: GenBlockWithSig_def call_sign_def Ecrecover_header_def Let_def WithSeal_def)
qed

section \<open>Properties\<close>


text \<open>For the witness: a hash function, a signature and a recovery that fit together.\<close>

definition shift32 :: "bytes \<Rightarrow> bytes" where
  "shift32 x = take 32 (replicate 12 0 @ x @ replicate 32 0)"

definition plain_sign :: signer_fn where
  "plain_sign a data = Some (take 65 (a @ replicate 65 0))"

definition plain_recover :: recover_fn where
  "plain_recover data s = Some (4 # take 20 s)"

definition some_miner :: Prometheus where
  "some_miner = \<lparr>pr_Period = 0, pr_signatures = Map.empty, pr_signer = replicate 20 1, pr_signFn = Some plain_sign\<rparr>"

definition some_parent :: Header where
  "some_parent = \<lparr>hd_ParentHash = zeroHash, hd_Coinbase = replicate 20 0, hd_ProofHash = zeroHash, hd_Root = zeroHash, hd_TxHash = zeroHash,
     hd_ReceiptHash = zeroHash, hd_ProofRoot = zeroHash, hd_Difficulty = 1, hd_Number = 6, hd_Time = 100, hd_Extra = []\<rparr>"


text \<open>
  C24: A batch of headers that passes the check is a chain: every header after the first, unless it claims to be a genesis, names
  the hash of the one before it, has the next number and is not older.
\<close>

theorem verified_headers_linked:
  assumes "\<forall>r\<in>set (VerifyHeaders_loop kec getHeader [] hs). r = Ok ()" and "0 < i" "i < length hs" "Uint64 (hd_Number (hs ! i)) \<noteq> 0"
  shows "hd_ParentHash (hs ! i) = Header_Hash kec (hs ! (i - 1))
    \<and> Uint64 (hd_Number (hs ! i)) = Uint64 (hd_Number (hs ! (i - 1))) + 1
    \<and> Uint64 (hd_Time (hs ! (i - 1))) \<le> Uint64 (hd_Time (hs ! i))"
proof -
  have "verifyHeader kec getHeader (hs ! i) (take i hs) = Ok ()"
    using assms(1) VerifyHeaders_nth [OF assms(3), of kec getHeader "[]"] assms(3) by (auto simp: all_set_conv_all_nth)
  with assms(2-4) show ?thesis
    by (auto simp: verifyHeader_def verifyCascadingFields_def Let_def not_less min_def split: if_splits)
qed

definition header_pair :: "Header list" where
  "header_pair =
     (let a = some_parent\<lparr>hd_Number := 0, hd_Extra := replicate 97 0\<rparr>
      in [a, some_parent\<lparr>hd_ParentHash := Header_Hash shift32 a, hd_Number := 1, hd_Extra := replicate 97 0\<rparr>])"

theorem verified_headers_linked_witness:
  "VerifyHeaders_loop shift32 (\<lambda>_ _. None) [] header_pair = [Ok (), Ok ()]
   \<and> hd_ParentHash (header_pair ! 1) = Header_Hash shift32 (header_pair ! 0)
   \<and> Uint64 (hd_Time (header_pair ! 0)) \<le> Uint64 (hd_Time (header_pair ! 1))"
proof -
  have r: "VerifyHeaders_loop shift32 (\<lambda>_ _. None) [] header_pair = [Ok (), Ok ()]"
    by (simp add: header_pair_def verifyHeader_def verifyCascadingFields_def Let_def Uint64_def)
  have "1 < length header_pair" "Uint64 (hd_Number (header_pair ! 1)) \<noteq> 0" by (simp_all add: header_pair_def Let_def Uint64_def)
  with verified_headers_linked [of shift32 "\<lambda>_ _. None" header_pair 1] r show ?thesis by simp
qed

end
