(* ===== verification/Proof_Confirm.thy ===== *)
theory Proof_Confirm
  imports Common_Types
begin

text \<open>
  The works that wait for the confirmation of their proof, \<^verbatim>\<open>src/worker/unconfirmed.go\<close>.  The methods take no lock and run
  in several goroutines, so each is a program with a counter: one step is one access to the shared map, to one of the sets
  of an entry, or to the work.  A work is a pointer \<open>'w\<close>; its field \<^verbatim>\<open>confirmed\<close> is kept in the state, since the worker reads
  it after the work has been sent back.  The hash of a signature is the parameter \<open>sh\<close>, the clock (in seconds) is read by the
  steps that read it in the code.
\<close>

section \<open>Waiting works\<close>

record 'w proofInfo =
  pi_threshold :: int
  pi_work :: 'w
  pi_confirmed :: "address set"
  pi_confirmedUnpass :: "address set"
  pi_time :: int

text \<open>
  The map holds pointers to entries, which a caller keeps using after the entry has left the map: \<open>up_infos\<close> are the
  allocated entries and a pointer is an index into it.  \<open>up_sent\<close>: the works for which a goroutine that sends on the channel
  \<^verbatim>\<open>confirmedCh\<close> has been started, latest last.
\<close>

record 'w unconfirmedProofs =
  up_proofs :: "hash \<rightharpoonup> nat"
  up_infos :: "'w proofInfo list"
  up_confirmed :: "'w \<Rightarrow> bool"
  up_sent :: "'w list"

definition newUnconfirmedProofs :: "('w \<Rightarrow> bool) \<Rightarrow> 'w unconfirmedProofs" where
  "newUnconfirmedProofs flags = \<lparr>up_proofs = Map.empty, up_infos = [], up_confirmed = flags, up_sent = []\<rparr>"

text \<open>
  The program counters: where a call goes on, with its local variables.  \<open>InsLoad\<close>, \<open>CfLoad\<close> and \<open>TmVisit\<close> are the entries
  of the three methods; the range of \<^verbatim>\<open>CheckTimeout\<close> visits the keys in an unspecified order, its list.
\<close>

datatype 'w uc_call =
    InsLoad bytes 'w int | InsStore hash 'w int
  | CfLoad address bytes bool | CfAdd hash nat address bool | CfSize hash nat | CfSizeUnpass hash nat | CfDecide hash nat
  | CfSend hash nat | CfDelete hash
  | TmVisit "hash list" | TmCheck hash nat "hash list" | TmSend hash nat "hash list" | TmDelete hash "hash list"

text \<open>A step returns the counter of the next one, or none when the method returns.\<close>

fun uc_Insert :: "(bytes \<Rightarrow> hash) \<Rightarrow> int \<Rightarrow> 'w uc_call \<Rightarrow> 'w unconfirmedProofs \<Rightarrow> 'w uc_call option \<times> 'w unconfirmedProofs" where
  "uc_Insert sh now (InsLoad sign work threshold) u =
     (case up_proofs u (sh sign) of None \<Rightarrow> (Some (InsStore (sh sign) work threshold), u) | Some _ \<Rightarrow> (None, u))"
| "uc_Insert sh now (InsStore sigHash work threshold) u =
     (let info = \<lparr>pi_threshold = threshold, pi_work = work, pi_confirmed = {}, pi_confirmedUnpass = {}, pi_time = now\<rparr>
      in (None, u\<lparr>up_infos := up_infos u @ [info], up_proofs := (up_proofs u)(sigHash \<mapsto> length (up_infos u))\<rparr>))"
| "uc_Insert sh now _ u = (None, u)"

fun uc_Confirm :: "(bytes \<Rightarrow> hash) \<Rightarrow> 'w uc_call \<Rightarrow> 'w unconfirmedProofs \<Rightarrow> 'w uc_call option \<times> 'w unconfirmedProofs" where
  "uc_Confirm sh (CfLoad addr sign ok) u =
     (case up_proofs u (sh sign) of None \<Rightarrow> (None, u) | Some p \<Rightarrow> (Some (CfAdd (sh sign) p addr ok), u))"
| "uc_Confirm sh (CfAdd sigHash p addr ok) u =
     (let info = up_infos u ! p;
          info' = (if ok then info\<lparr>pi_confirmed := insert addr (pi_confirmed info)\<rparr>
                   else info\<lparr>pi_confirmedUnpass := insert addr (pi_confirmedUnpass info)\<rparr>)
      in (Some (CfSize sigHash p), u\<lparr>up_infos := (up_infos u)[p := info']\<rparr>))"
| "uc_Confirm sh (CfSize sigHash p) u =
     (let info = up_infos u ! p
      in (Some (if int (card (pi_confirmed info)) \<ge> pi_threshold info then CfDecide sigHash p else CfSizeUnpass sigHash p), u))"
| "uc_Confirm sh (CfSizeUnpass sigHash p) u =
     (let info = up_infos u ! p
      in (if int (card (pi_confirmedUnpass info)) \<ge> pi_threshold info then Some (CfDecide sigHash p) else None, u))"
| "uc_Confirm sh (CfDecide sigHash p) u =
     (let info = up_infos u ! p
      in (Some (CfSend sigHash p),
          u\<lparr>up_confirmed := (up_confirmed u)(pi_work info := \<not> int (card (pi_confirmedUnpass info)) \<ge> pi_threshold info)\<rparr>))"
| "uc_Confirm sh (CfSend sigHash p) u = (Some (CfDelete sigHash), u\<lparr>up_sent := up_sent u @ [pi_work (up_infos u ! p)]\<rparr>)"
| "uc_Confirm sh (CfDelete sigHash) u = (None, u\<lparr>up_proofs := (up_proofs u)(sigHash := None)\<rparr>)"
| "uc_Confirm sh _ u = (None, u)"

text \<open>Seconds that a proof waits.\<close>

abbreviation (input) waitConfirmTimeout :: int where
  "waitConfirmTimeout \<equiv> 30"

fun CheckTimeout :: "int \<Rightarrow> 'w uc_call \<Rightarrow> 'w unconfirmedProofs \<Rightarrow> 'w uc_call option \<times> 'w unconfirmedProofs" where
  "CheckTimeout now (TmVisit []) u = (None, u)"
| "CheckTimeout now (TmVisit (k # ks)) u =
     (Some (case up_proofs u k of None \<Rightarrow> TmVisit ks | Some p \<Rightarrow> TmCheck k p ks), u)"
| "CheckTimeout now (TmCheck k p ks) u =
     (Some (if now - pi_time (up_infos u ! p) > waitConfirmTimeout then TmSend k p ks else TmVisit ks), u)"
| "CheckTimeout now (TmSend k p ks) u = (Some (TmDelete k ks), u\<lparr>up_sent := up_sent u @ [pi_work (up_infos u ! p)]\<rparr>)"
| "CheckTimeout now (TmDelete k ks) u = (Some (TmVisit ks), u\<lparr>up_proofs := (up_proofs u)(k := None)\<rparr>)"
| "CheckTimeout now _ u = (None, u)"

fun uc_step :: "(bytes \<Rightarrow> hash) \<Rightarrow> int \<Rightarrow> 'w uc_call \<Rightarrow> 'w unconfirmedProofs \<Rightarrow> 'w uc_call option \<times> 'w unconfirmedProofs" where
  "uc_step sh now (InsLoad sign work threshold) u = uc_Insert sh now (InsLoad sign work threshold) u"
| "uc_step sh now (InsStore h work threshold) u = uc_Insert sh now (InsStore h work threshold) u"
| "uc_step sh now (TmVisit ks) u = CheckTimeout now (TmVisit ks) u"
| "uc_step sh now (TmCheck k p ks) u = CheckTimeout now (TmCheck k p ks) u"
| "uc_step sh now (TmSend k p ks) u = CheckTimeout now (TmSend k p ks) u"
| "uc_step sh now (TmDelete k ks) u = CheckTimeout now (TmDelete k ks) u"
| "uc_step sh now c u = uc_Confirm sh c u"

section \<open>Interleavings\<close>

text \<open>
  \<open>confirm_run sh calls u ins ans\<close>: the calls of the goroutines, by a number, can have come to \<open>calls\<close> and the shared state to
  \<open>u\<close>; \<open>ins\<close> are the works that \<^verbatim>\<open>Insert\<close> was called with, under the hash of the signature and with the threshold, and \<open>ans\<close>
  the nodes that \<^verbatim>\<open>Confirm\<close> was called for with a confirmation of the hash.  Any number of calls of every method may be
  under way, and any of them may take the next step.
\<close>

inductive confirm_run :: "(bytes \<Rightarrow> hash) \<Rightarrow> (nat \<rightharpoonup> 'w uc_call) \<Rightarrow> 'w unconfirmedProofs \<Rightarrow> (hash \<times> 'w \<times> int) set \<Rightarrow> (hash \<times> address) set \<Rightarrow> bool"
  for sh :: "bytes \<Rightarrow> hash" where
  cr_new: "confirm_run sh Map.empty (newUnconfirmedProofs (\<lambda>_. False)) {} {}"
| cr_Insert: "confirm_run sh calls u ins ans \<Longrightarrow> calls t = None \<Longrightarrow>
    confirm_run sh (calls(t \<mapsto> InsLoad sign w th)) u (insert (sh sign, w, th) ins) ans"
| cr_Confirm: "confirm_run sh calls u ins ans \<Longrightarrow> calls t = None \<Longrightarrow>
    confirm_run sh (calls(t \<mapsto> CfLoad addr sign ok)) u ins (if ok then insert (sh sign, addr) ans else ans)"
| cr_Timeout: "confirm_run sh calls u ins ans \<Longrightarrow> calls t = None \<Longrightarrow> confirm_run sh (calls(t \<mapsto> TmVisit ks)) u ins ans"
| cr_step: "confirm_run sh calls u ins ans \<Longrightarrow> calls t = Some c \<Longrightarrow> uc_step sh now c u = (c', u') \<Longrightarrow>
    confirm_run sh (calls(t := c')) u' ins ans"

section \<open>The invariant\<close>

text \<open>
  \<open>info_ok\<close>: an entry belongs to a hash under which its work was put in with its threshold, and counts only nodes that have
  confirmed that hash.  \<open>call_ok\<close>: a call uses a pointer only with the hash its entry belongs to, and decides only once one
  of the two sets has reached the threshold.
\<close>

definition info_ok :: "(hash \<times> 'w \<times> int) set \<Rightarrow> (hash \<times> address) set \<Rightarrow> hash \<Rightarrow> 'w proofInfo \<Rightarrow> bool" where
  "info_ok ins ans h i \<longleftrightarrow> (h, pi_work i, pi_threshold i) \<in> ins \<and> pi_confirmed i \<subseteq> {a. (h, a) \<in> ans}
     \<and> finite (pi_confirmed i) \<and> finite (pi_confirmedUnpass i)"

definition reached :: "'w proofInfo \<Rightarrow> bool" where
  "reached i \<longleftrightarrow> pi_threshold i \<le> int (card (pi_confirmed i)) \<or> pi_threshold i \<le> int (card (pi_confirmedUnpass i))"

fun call_ok :: "(bytes \<Rightarrow> hash) \<Rightarrow> (hash \<times> 'w \<times> int) set \<Rightarrow> (hash \<times> address) set \<Rightarrow> (nat \<Rightarrow> hash) \<Rightarrow> 'w proofInfo list \<Rightarrow> 'w uc_call \<Rightarrow> bool" where
  "call_ok sh ins ans own is (InsLoad sign w th) \<longleftrightarrow> (sh sign, w, th) \<in> ins"
| "call_ok sh ins ans own is (InsStore h w th) \<longleftrightarrow> (h, w, th) \<in> ins"
| "call_ok sh ins ans own is (CfLoad addr sign ok) \<longleftrightarrow> (ok \<longrightarrow> (sh sign, addr) \<in> ans)"
| "call_ok sh ins ans own is (CfAdd h p addr ok) \<longleftrightarrow> p < length is \<and> own p = h \<and> (ok \<longrightarrow> (h, addr) \<in> ans)"
| "call_ok sh ins ans own is (CfSize h p) \<longleftrightarrow> p < length is"
| "call_ok sh ins ans own is (CfSizeUnpass h p) \<longleftrightarrow> p < length is"
| "call_ok sh ins ans own is (CfDecide h p) \<longleftrightarrow> p < length is \<and> reached (is ! p)"
| "call_ok sh ins ans own is (CfSend h p) \<longleftrightarrow> p < length is"
| "call_ok sh ins ans own is (TmCheck h p ks) \<longleftrightarrow> p < length is"
| "call_ok sh ins ans own is (TmSend h p ks) \<longleftrightarrow> p < length is"
| "call_ok sh ins ans own is _ \<longleftrightarrow> True"

text \<open>\<open>vouched ins ans w\<close>: the work was put in with a threshold that as many distinct nodes have reached.\<close>

definition vouched :: "(hash \<times> 'w \<times> int) set \<Rightarrow> (hash \<times> address) set \<Rightarrow> 'w \<Rightarrow> bool" where
  "vouched ins ans w \<longleftrightarrow> (\<exists>h th. (h, w, th) \<in> ins \<and> th \<le> int (card {a. (h, a) \<in> ans}))"

definition shared_ok :: "(hash \<times> 'w \<times> int) set \<Rightarrow> (hash \<times> address) set \<Rightarrow> (nat \<Rightarrow> hash) \<Rightarrow> 'w unconfirmedProofs \<Rightarrow> bool" where
  "shared_ok ins ans own u \<longleftrightarrow> finite ans
     \<and> (\<forall>p<length (up_infos u). info_ok ins ans (own p) (up_infos u ! p))
     \<and> (\<forall>h p. up_proofs u h = Some p \<longrightarrow> p < length (up_infos u) \<and> own p = h)
     \<and> (\<forall>w. up_confirmed u w \<longrightarrow> vouched ins ans w) \<and> (\<forall>w\<in>set (up_sent u). \<exists>h th. (h, w, th) \<in> ins)"

definition confirm_inv :: "(bytes \<Rightarrow> hash) \<Rightarrow> (nat \<rightharpoonup> 'w uc_call) \<Rightarrow> 'w unconfirmedProofs \<Rightarrow> (hash \<times> 'w \<times> int) set \<Rightarrow> (hash \<times> address) set \<Rightarrow> bool" where
  "confirm_inv sh calls u ins ans \<longleftrightarrow>
     (\<exists>own. shared_ok ins ans own u \<and> (\<forall>t c. calls t = Some c \<longrightarrow> call_ok sh ins ans own (up_infos u) c))"

text \<open>Nothing that is known gets lost: entries are only added, their sets only grow, and so do the ghosts.\<close>

definition infos_grow :: "'w proofInfo list \<Rightarrow> 'w proofInfo list \<Rightarrow> bool" where
  "infos_grow is is' \<longleftrightarrow> length is \<le> length is' \<and> (\<forall>p<length is. reached (is ! p) \<longrightarrow> reached (is' ! p))"

lemma infos_grow_refl [simp]: "infos_grow is is"
  by (simp add: infos_grow_def)

lemma infos_grow_append: "infos_grow is (is @ js)"
  by (simp add: infos_grow_def nth_append)

lemma call_ok_mono:
  assumes "call_ok sh ins ans own is c" "infos_grow is is'" "ins \<subseteq> ins'" "ans \<subseteq> ans'" "\<And>p. p < length is \<Longrightarrow> own' p = own p"
  shows "call_ok sh ins' ans' own' is' c"
  using assms by (cases c) (auto simp: infos_grow_def)

lemma finite_answers: "finite ans \<Longrightarrow> finite {a. (h, a) \<in> ans}"
  by (rule finite_subset [of _ "snd ` ans"]) force+

lemma card_answers_mono: "finite ans' \<Longrightarrow> ans \<subseteq> ans' \<Longrightarrow> card {a. (h, a) \<in> ans} \<le> card {a. (h, a) \<in> ans'}"
  by (rule card_mono) (auto simp: finite_answers)

lemma vouched_mono: "vouched ins ans w \<Longrightarrow> ins \<subseteq> ins' \<Longrightarrow> ans \<subseteq> ans' \<Longrightarrow> finite ans' \<Longrightarrow> vouched ins' ans' w"
  unfolding vouched_def using card_answers_mono [of ans' ans] by (meson of_nat_mono order_trans subsetD)

lemma shared_ok_mono: "shared_ok ins ans own u \<Longrightarrow> ins \<subseteq> ins' \<Longrightarrow> ans \<subseteq> ans' \<Longrightarrow> finite ans' \<Longrightarrow> shared_ok ins' ans' own u"
  unfolding shared_ok_def info_ok_def using vouched_mono [of ins ans _ ins' ans'] by (safe; blast)

lemma decide_vouched:
  assumes "info_ok ins ans h i" "finite ans" "pi_threshold i \<le> int (card (pi_confirmed i))"
  shows "vouched ins ans (pi_work i)"
proof -
  have "card (pi_confirmed i) \<le> card {a. (h, a) \<in> ans}"
    using assms(1) by (intro card_mono finite_answers [OF assms(2)]) (simp add: info_ok_def)
  then show ?thesis using assms(1,3) unfolding vouched_def info_ok_def by (meson of_nat_mono order_trans)
qed

text \<open>The steps of the three methods keep the invariant; only an insertion allocates an entry.\<close>

definition step_ok :: "(bytes \<Rightarrow> hash) \<Rightarrow> (hash \<times> 'w \<times> int) set \<Rightarrow> (hash \<times> address) set \<Rightarrow> (nat \<Rightarrow> hash) \<Rightarrow> 'w unconfirmedProofs \<Rightarrow> 'w uc_call option \<times> 'w unconfirmedProofs \<Rightarrow> bool" where
  "step_ok sh ins ans own u r \<longleftrightarrow> (\<exists>own'. shared_ok ins ans own' (snd r) \<and> infos_grow (up_infos u) (up_infos (snd r))
     \<and> (\<forall>p<length (up_infos u). own' p = own p) \<and> (\<forall>c. fst r = Some c \<longrightarrow> call_ok sh ins ans own' (up_infos (snd r)) c))"

lemma step_ok_keep: "shared_ok ins ans own u \<Longrightarrow> (\<And>c'. c = Some c' \<Longrightarrow> call_ok sh ins ans own (up_infos u) c') \<Longrightarrow> step_ok sh ins ans own u (c, u)"
  unfolding step_ok_def by auto

lemma Insert_step_ok:
  assumes ok: "shared_ok ins ans own u" and c: "call_ok sh ins ans own (up_infos u) c" and "c = InsLoad sign w th \<or> c = InsStore h w th"
  shows "step_ok sh ins ans own u (uc_Insert sh now c u)"
  using assms(3)
proof
  assume "c = InsLoad sign w th"
  with ok c show ?thesis by (auto intro!: step_ok_keep split: option.splits)
next
  assume e: "c = InsStore h w th"
  define own' where "own' = own(length (up_infos u) := h)"
  have "shared_ok ins ans own' (snd (uc_Insert sh now c u))"
    using ok c unfolding e shared_ok_def own'_def by (auto simp: nth_append info_ok_def less_Suc_eq Let_def)
  then show ?thesis unfolding step_ok_def e
    by (intro exI [of _ own']) (auto simp: own'_def Let_def infos_grow_append)
qed

lemma Add_step_ok:
  assumes ok: "shared_ok ins ans own u" and c: "call_ok sh ins ans own (up_infos u) (CfAdd h p addr pass)"
  shows "step_ok sh ins ans own u (uc_Confirm sh (CfAdd h p addr pass) u)"
proof -
  let ?i = "up_infos u ! p"
  define j where "j = (if pass then ?i\<lparr>pi_confirmed := insert addr (pi_confirmed ?i)\<rparr> else ?i\<lparr>pi_confirmedUnpass := insert addr (pi_confirmedUnpass ?i)\<rparr>)"
  have i: "info_ok ins ans h ?i" using ok c unfolding shared_ok_def by auto
  then have j: "info_ok ins ans h j" using c by (auto simp: info_ok_def j_def)
  have "card (pi_confirmed ?i) \<le> card (pi_confirmed j)" "card (pi_confirmedUnpass ?i) \<le> card (pi_confirmedUnpass j)"
    using i by (auto simp: j_def info_ok_def card_insert_if)
  then have "reached ?i \<Longrightarrow> reached j" unfolding reached_def by (auto simp: j_def)
  then have "reached ((up_infos u)[p := j] ! q)" if "q < length (up_infos u)" "reached (up_infos u ! q)" for q
    using that by (cases "q = p") auto
  then have "infos_grow (up_infos u) ((up_infos u)[p := j])" by (simp add: infos_grow_def)
  moreover have "shared_ok ins ans own (u\<lparr>up_infos := (up_infos u)[p := j]\<rparr>)"
    using ok c j unfolding shared_ok_def by (auto simp: nth_list_update)
  ultimately show ?thesis unfolding step_ok_def using c by (intro exI [of _ own]) (simp add: Let_def j_def)
qed

lemma Confirm_step_ok:
  assumes ok: "shared_ok ins ans own u" and c: "call_ok sh ins ans own (up_infos u) c"
  shows "step_ok sh ins ans own u (uc_Confirm sh c u)"
proof (cases c)
  case (CfLoad addr sign pass)
  with ok c show ?thesis by (auto intro!: step_ok_keep simp: shared_ok_def split: option.splits)
next
  case (CfAdd h p addr pass)
  show ?thesis using Add_step_ok [OF ok c [unfolded CfAdd]] unfolding CfAdd .
next
  case (CfDecide h p)
  let ?i = "up_infos u ! p"
  have "info_ok ins ans (own p) ?i" "finite ans" using ok c CfDecide unfolding shared_ok_def by auto
  then have "vouched ins ans (pi_work ?i)" if "\<not> pi_threshold ?i \<le> int (card (pi_confirmedUnpass ?i))"
    using decide_vouched c CfDecide that by (auto simp: reached_def)
  then have "shared_ok ins ans own (snd (uc_Confirm sh c u))" using ok unfolding CfDecide shared_ok_def by (auto simp: Let_def)
  then show ?thesis using c unfolding step_ok_def CfDecide by (intro exI [of _ own]) (simp add: Let_def)
next
  case (CfSend h p)
  then have "shared_ok ins ans own (snd (uc_Confirm sh c u))" using ok c unfolding shared_ok_def info_ok_def by auto
  then show ?thesis unfolding step_ok_def CfSend by (intro exI [of _ own]) simp
next
  case (CfDelete h)
  then have "shared_ok ins ans own (snd (uc_Confirm sh c u))" using ok unfolding shared_ok_def by auto
  then show ?thesis unfolding step_ok_def CfDelete by (intro exI [of _ own]) simp
qed (use ok c in \<open>auto intro!: step_ok_keep simp: Let_def reached_def\<close>)

lemma Timeout_step_ok:
  assumes ok: "shared_ok ins ans own u" and c: "call_ok sh ins ans own (up_infos u) c"
  shows "step_ok sh ins ans own u (CheckTimeout now c u)"
proof (cases c)
  case (TmVisit ks)
  with ok show ?thesis by (cases ks) (auto intro!: step_ok_keep simp: shared_ok_def split: option.splits)
next
  case (TmSend k p ks)
  then have "shared_ok ins ans own (snd (CheckTimeout now c u))" using ok c unfolding shared_ok_def info_ok_def by auto
  then show ?thesis unfolding step_ok_def TmSend by (intro exI [of _ own]) simp
next
  case (TmDelete k ks)
  then have "shared_ok ins ans own (snd (CheckTimeout now c u))" using ok unfolding shared_ok_def by auto
  then show ?thesis unfolding step_ok_def TmDelete by (intro exI [of _ own]) simp
qed (use ok c in \<open>auto intro!: step_ok_keep\<close>)

lemma uc_step_ok:
  assumes "shared_ok ins ans own u" "call_ok sh ins ans own (up_infos u) c"
  shows "step_ok sh ins ans own u (uc_step sh now c u)"
  using Insert_step_ok [OF assms] Confirm_step_ok [OF assms] Timeout_step_ok [OF assms] by (cases c) simp_all

lemma confirm_inv_call:
  assumes inv: "confirm_inv sh calls u ins ans" and m: "ins \<subseteq> ins'" "ans \<subseteq> ans'" "finite ans'"
    and c: "\<And>own. call_ok sh ins' ans' own (up_infos u) c"
  shows "confirm_inv sh (calls(t \<mapsto> c)) u ins' ans'"
proof -
  from inv obtain own where o: "shared_ok ins ans own u" "\<And>t c. calls t = Some c \<Longrightarrow> call_ok sh ins ans own (up_infos u) c"
    unfolding confirm_inv_def by blast
  have "call_ok sh ins' ans' own (up_infos u) c'" if "(calls(t \<mapsto> c)) t' = Some c'" for t' c'
    using that c call_ok_mono [OF o(2) infos_grow_refl m(1,2)] by (auto split: if_splits)
  with shared_ok_mono [OF o(1) m] show ?thesis unfolding confirm_inv_def by blast
qed

lemma confirm_inv_finite: "confirm_inv sh calls u ins ans \<Longrightarrow> finite ans"
  by (auto simp: confirm_inv_def shared_ok_def)

lemma confirm_inv_step:
  assumes inv: "confirm_inv sh calls u ins ans" and c: "calls t = Some c" and s: "uc_step sh now c u = (c', u')"
  shows "confirm_inv sh (calls(t := c')) u' ins ans"
proof -
  from inv obtain own where o: "shared_ok ins ans own u" "\<And>t c. calls t = Some c \<Longrightarrow> call_ok sh ins ans own (up_infos u) c"
    unfolding confirm_inv_def by blast
  from uc_step_ok [OF o(1) o(2) [OF c], of now] obtain own' where
    o': "shared_ok ins ans own' u'" "infos_grow (up_infos u) (up_infos u')" "\<And>p. p < length (up_infos u) \<Longrightarrow> own' p = own p"
      "\<And>d. c' = Some d \<Longrightarrow> call_ok sh ins ans own' (up_infos u') d" unfolding step_ok_def s by auto
  have "call_ok sh ins ans own' (up_infos u') d" if "(calls(t := c')) t' = Some d" for t' d
    using that o'(4) call_ok_mono [OF o(2) o'(2) subset_refl subset_refl o'(3)] by (auto split: if_splits)
  with o'(1) show ?thesis unfolding confirm_inv_def by blast
qed

lemma confirm_run_inv: "confirm_run sh calls u ins ans \<Longrightarrow> confirm_inv sh calls u ins ans"
proof (induction rule: confirm_run.induct)
  case cr_new
  show ?case by (simp add: confirm_inv_def shared_ok_def newUnconfirmedProofs_def)
next
  case (cr_Insert calls u ins ans t sign w th)
  then show ?case using confirm_inv_finite by (intro confirm_inv_call [OF cr_Insert.IH]) auto
next
  case (cr_Confirm calls u ins ans t addr sign ok)
  then show ?case using confirm_inv_finite by (intro confirm_inv_call [OF cr_Confirm.IH]) auto
next
  case (cr_Timeout calls u ins ans t ks)
  then show ?case using confirm_inv_finite by (intro confirm_inv_call [OF cr_Timeout.IH]) auto
next
  case (cr_step calls u ins ans t c now c' u')
  then show ?case by (intro confirm_inv_step)
qed

section \<open>Properties\<close>


text \<open>A call that runs while no other takes a step: as many steps as are given, all at one time.\<close>

fun uc_steps :: "nat \<Rightarrow> (bytes \<Rightarrow> hash) \<Rightarrow> int \<Rightarrow> 'w uc_call option \<times> 'w unconfirmedProofs \<Rightarrow> 'w uc_call option \<times> 'w unconfirmedProofs" where
  "uc_steps 0 sh now r = r"
| "uc_steps (Suc n) sh now (None, u) = (None, u)"
| "uc_steps (Suc n) sh now (Some c, u) = uc_steps n sh now (uc_step sh now c u)"

text \<open>
  An answer that is dealt with while no other call takes a step counts its node once and, when it is the one that reaches the
  threshold, marks the work, sends it back and takes it out of the map.
\<close>

lemma Confirm_alone:
  assumes "up_proofs u (sh sign) = Some p" "p < length (up_infos u)"
    and i: "i = (let i = up_infos u ! p in if ok then i\<lparr>pi_confirmed := insert addr (pi_confirmed i)\<rparr>
         else i\<lparr>pi_confirmedUnpass := insert addr (pi_confirmedUnpass i)\<rparr>)"
  shows "uc_steps 7 sh now (Some (CfLoad addr sign ok), u) = (None,
    if reached i then u\<lparr>up_infos := (up_infos u)[p := i], up_sent := up_sent u @ [pi_work i], up_proofs := (up_proofs u)(sh sign := None),
         up_confirmed := (up_confirmed u)(pi_work i := \<not> pi_threshold i \<le> int (card (pi_confirmedUnpass i)))\<rparr>
    else u\<lparr>up_infos := (up_infos u)[p := i]\<rparr>)"
  using assms(1,2) by (simp add: eval_nat_numeral Let_def i [unfolded Let_def, symmetric] reached_def)

lemma confirm_run_steps:
  "confirm_run sh calls u ins ans \<Longrightarrow> uc_steps n sh now (calls t, u) = (c', u') \<Longrightarrow> confirm_run sh (calls(t := c')) u' ins ans"
proof (induction n arbitrary: calls u)
  case (Suc n)
  show ?case
  proof (cases "calls t")
    case None
    then have "c' = None" "u' = u" "calls(t := None) = calls" using Suc.prems(2) by (auto simp: fun_upd_idem)
    with Suc.prems(1) show ?thesis by simp
  next
    case (Some c)
    obtain d v where s: "uc_step sh now c u = (d, v)" by fastforce
    from cr_step [OF Suc.prems(1) Some s] have "confirm_run sh (calls(t := d)) v ins ans" .
    from Suc.IH [OF this] show ?thesis using Suc.prems(2) Some s by (simp del: fun_upd_apply add: fun_upd_same)
  qed
qed (auto simp: fun_upd_idem)


lemma confirm_run_call:
  assumes "confirm_run sh calls u ins ans" "calls t = None"
  shows "uc_steps n sh now (Some (InsLoad sign w th), u) = (c, v) \<Longrightarrow> confirm_run sh (calls(t := c)) v (insert (sh sign, w, th) ins) ans"
    "uc_steps n sh now (Some (CfLoad addr sign True), u) = (c, v) \<Longrightarrow> confirm_run sh (calls(t := c)) v ins (insert (sh sign, addr) ans)"
    "uc_steps n sh now (Some (TmVisit ks), u) = (c, v) \<Longrightarrow> confirm_run sh (calls(t := c)) v ins ans"
  using confirm_run_steps [OF cr_Insert [OF assms, of sign w th], where n = n and now = now and t = t]
    confirm_run_steps [OF cr_Confirm [OF assms, of addr sign True], where n = n and now = now and t = t]
    confirm_run_steps [OF cr_Timeout [OF assms, of ks], where n = n and now = now and t = t] by simp_all

text \<open>A state with one work, the number 1, put in at time 0 under the hash \<open>[7]\<close>.\<close>

abbreviation (input) one_work :: "int \<Rightarrow> (hash \<rightharpoonup> nat) \<Rightarrow> address set \<Rightarrow> (nat \<Rightarrow> bool) \<Rightarrow> nat list \<Rightarrow> nat unconfirmedProofs" where
  "one_work th ps cs flags sent \<equiv> \<lparr>up_proofs = ps, up_infos = [\<lparr>pi_threshold = th, pi_work = 1, pi_confirmed = cs, pi_confirmedUnpass = {}, pi_time = 0\<rparr>],
     up_confirmed = flags, up_sent = sent\<rparr>"

lemma run_one_work: "confirm_run id Map.empty (one_work th [[7] \<mapsto> 0] {} (\<lambda>_. False) []) {([7], 1, th)} {}"
proof -
  have "uc_steps 2 id 0 (Some (InsLoad [7] 1 th), newUnconfirmedProofs (\<lambda>_. False)) = (None, one_work th [[7] \<mapsto> 0] {} (\<lambda>_. False) [])"
    by (simp add: newUnconfirmedProofs_def eval_nat_numeral)
  from confirm_run_call(1) [OF cr_new refl this] show ?thesis by (simp add: fun_upd_idem)
qed

text \<open>
  The race: \<^verbatim>\<open>CheckTimeout\<close> has found the work too old, the last confirmation comes in and its call sends the work back as
  confirmed, and \<^verbatim>\<open>CheckTimeout\<close> goes on and sends it a second time.
\<close>

lemma work_sent_twice:
  "\<exists>u. confirm_run id Map.empty u {([7], 1, 1)} {([7], [1])} \<and> up_sent u = [1, 1 :: nat] \<and> up_confirmed u 1"
proof -
  let ?old = "[0 \<mapsto> TmSend [7] 0 []] :: nat \<rightharpoonup> nat uc_call" and ?f = "(\<lambda>_. False)(1 := True)"
  have "confirm_run id ?old (one_work 1 [[7] \<mapsto> 0] {} (\<lambda>_. False) []) {([7], 1, 1)} {}"
    by (rule confirm_run_call(3) [OF run_one_work, where n = 2 and now = 100 and ks = "[[7]]"]) (simp_all add: eval_nat_numeral)
  note r = this
  have s: "uc_steps 6 id 100 (Some (CfLoad [1] [7] True), one_work 1 [[7] \<mapsto> 0] {} (\<lambda>_. False) []) = (None, one_work 1 Map.empty {[1]} ?f [1])"
    by (simp add: eval_nat_numeral)
  have "confirm_run id (?old(1 := None)) (one_work 1 Map.empty {[1]} ?f [1]) {([7], 1, 1)} {(id [7], [1])}"
    by (rule confirm_run_call(2) [OF r _ s]) simp
  from confirm_run_steps [OF this, of 3 100 0] show ?thesis by (auto simp: eval_nat_numeral fun_upd_idem)
qed


end
