(* ===== verification/Spec2Isabelle.thy ===== *)
theory Spec2Isabelle
  imports Rlp_Decode Common_Types Mem_Database Trie_Encoding Trie_Node Trie_Spec Patricia_Trie Trie_Hasher Trie_Commit Keccak_F Sha3 Tx_Pool State_Spec Lru Block_Types Chain_Database Header_Chain Canonical_Chain Merkle_Tree Block_Roots Block_Chain Block_Import Trie_Proof Bit_Compress Consensus_Engine Proof_Confirm
begin

text \<open>
  A verification development for the node of the sphinx blockchain, the Go program under \<^verbatim>\<open>src/\<close>.

  \<^bold>\<open>The program.\<close>  A node keeps a chain of blocks in a key-value store.  A block is a header with a list of transactions; the
  header names its parent by hash and carries the roots of the transactions, the receipts and the state.  The state is a
  map from addresses to accounts with storage, kept in Merkle Patricia tries whose nodes are RLP-encoded, hashed with
  Keccak-256 and written to the store.  Transactions wait in a pool until a mining round takes them; the consensus engine
  proves and seals the block, other nodes confirm the proof, and the chain imports the block: the validator checks the
  body and the roots, the processor runs the transactions on the state, the state is committed and the head of the chain is
  moved.  The modelled parts use each other in this order:

    \<^item> bytes and RLP (\<^verbatim>\<open>src/common\<close>, \<^verbatim>\<open>src/common/rlp\<close>) and the hash functions (\<^verbatim>\<open>src/common/crypto\<close>);
    \<^item> tries on a key-value store (\<^verbatim>\<open>src/common/trie\<close>, \<^verbatim>\<open>src/blockchain/storage\<close>), and the world state on tries
      (\<^verbatim>\<open>src/blockchain/state\<close>);
    \<^item> headers, blocks and their roots (\<^verbatim>\<open>src/blockchain/types\<close>, \<^verbatim>\<open>src/common/merkletree\<close>), the stored chain
      (\<^verbatim>\<open>src/blockchain/database_util.go\<close>), the header chain and the block chain (\<^verbatim>\<open>src/blockchain\<close>);
    \<^item> the transaction pool (\<^verbatim>\<open>src/txpool\<close>), the consensus engine (\<^verbatim>\<open>src/consensus\<close>) and the confirmation of work proofs
      (\<^verbatim>\<open>src/worker/unconfirmed.go\<close>).

  \<^bold>\<open>Conventions.\<close>  A Go call is a function into \<^verbatim>\<open>('e, 'a) res\<close>: it returns (\<^verbatim>\<open>Ok\<close>), returns an error value (\<^verbatim>\<open>Err\<close>), panics
  (\<^verbatim>\<open>Panic\<close>) or has not returned (\<^verbatim>\<open>Diverge\<close>).  \<^verbatim>\<open>Diverge\<close> is also the outcome of waiting for a mutex that is held by the
  waiting goroutine itself, and \<^verbatim>\<open>Panic\<close> that of \<^verbatim>\<open>log.Crit\<close>.  A method takes its receiver and returns it changed.  Unsigned
  integers are words of their width, big integers are \<^verbatim>\<open>int\<close>, byte slices are lists, structs are records with the fields of
  the source, interfaces are datatypes or records of functions.  The following code and values are parameters: the hash functions of the
  tries and headers (\<^verbatim>\<open>kec\<close>) and of the Merkle tree (\<^verbatim>\<open>sha\<close>); the order in which Go ranges over a map; the coin that decides
  between branches of equal weight; the clock; the verdicts that the engine sends to the chain; signing and recovery of
  public keys; the virtual machine's logs, which the state carries without reading.  Where a theorem needs something of a parameter,
  it is an explicit hypothesis: hashes are 32 bytes long, and do not collide on the finitely many strings at hand.  The last section
  below shows that the program's own Keccak-256 meets the first.

  \<^bold>\<open>Theories.\<close>

    \<^item> \<^verbatim>\<open>Prelude\<close>: outcomes, words, big-endian byte strings.  \<^verbatim>\<open>Common_Types\<close>: \<^verbatim>\<open>types.go\<close> and \<^verbatim>\<open>bytes.go\<close>, with the conversions between
      hashes, addresses, numbers and hexadecimal strings.  \<^verbatim>\<open>Bit_Compress\<close>: \<^verbatim>\<open>bitutil/compress.go\<close>, the compression of sparse byte strings,
      with its inverse and its canonicity.
    \<^item> \<^verbatim>\<open>Rlp\<close>: the two-pass encoder of \<^verbatim>\<open>encode.go\<close> computes the reference encoding.  \<^verbatim>\<open>Rlp_Raw\<close>: the slice
      reader \<^verbatim>\<open>raw.go\<close> accepts exactly the canonical encodings, and panics on exactly one input.  \<^verbatim>\<open>Rlp_Stream\<close> and \<^verbatim>\<open>Rlp_Decode\<close>: the
      stream and the typed decoders of \<^verbatim>\<open>decode.go\<close>; what they accept are the encodings of the values they return, and they return on every
      input, apart from slices of one-byte arrays.
    \<^item> \<^verbatim>\<open>Keccak_F\<close>: four unrolled rounds per iteration equal the permutation's definition.  \<^verbatim>\<open>Sha3\<close>: the
      sponge with its buffer is the sponge construction, for every hash function of the package and however the input is cut.
    \<^item> \<^verbatim>\<open>Mem_Database\<close>: the in-memory store and its batch, as interpretations of the locale \<^verbatim>\<open>kv_store\<close>.
    \<^item> \<^verbatim>\<open>Trie_Encoding\<close>, \<^verbatim>\<open>Trie_Node\<close>: keys and nodes with their decoder.  \<^verbatim>\<open>Trie_Spec\<close>: trees without references and caches, their
      canonical form, and that canonical trees are finite maps (locale \<^verbatim>\<open>canonical_map\<close>).  \<^verbatim>\<open>Patricia_Trie\<close>: lookup, insertion and deletion
      of \<^verbatim>\<open>trie.go\<close> on partly loaded tries refine the operations on trees, whatever is known of the cached hashes (locale
      \<^verbatim>\<open>cache_inv\<close>, interpreted without and with hashes).  \<^verbatim>\<open>Trie_Hasher\<close>: hashing and committing computes the reference hash of the tree and
      stores every node.  \<^verbatim>\<open>Trie_Commit\<close>: a committed trie reads back, and its root hash determines and is determined by the content.
      \<^verbatim>\<open>Trie_Proof\<close>: Merkle proofs of \<^verbatim>\<open>proof.go\<close> are complete and sound.
    \<^item> \<^verbatim>\<open>Secure_Trie\<close>: tries with hashed keys, behind the interface of \<^verbatim>\<open>state/database.go\<close> (locale \<^verbatim>\<open>backend\<close>).  \<^verbatim>\<open>State_DB\<close>: accounts,
      journal, snapshots and commit of \<^verbatim>\<open>src/blockchain/state\<close>.  \<^verbatim>\<open>State_Spec\<close>: the state with caches and undo journal refines a world that
      copies itself at every snapshot (locale \<^verbatim>\<open>state_backend\<close>, interpreted on secure tries).
    \<^item> \<^verbatim>\<open>Lru\<close>: the cache of \<^verbatim>\<open>simplelru/lru.go\<close>.  \<^verbatim>\<open>Block_Types\<close>: headers, transactions, blocks, receipts, their RLP form and hashes.
      \<^verbatim>\<open>Merkle_Tree\<close>, \<^verbatim>\<open>Block_Roots\<close>: the tree of \<^verbatim>\<open>merkletree.go\<close> and \<^verbatim>\<open>DeriveSha\<close>; paths verify, and the root binds the transactions
      up to the padding of the last leaf.
    \<^item> \<^verbatim>\<open>Chain_Database\<close>: the layout of keys and the readers, writers and deleters of \<^verbatim>\<open>database_util.go\<close>.  Each item is a field of the abstract
      \<^verbatim>\<open>chain_view\<close>, and an operation on one field leaves the others alone.
    \<^item> \<^verbatim>\<open>Header_Chain\<close>: \<^verbatim>\<open>headerchain.go\<close> with its caches.  \<^verbatim>\<open>Canonical_Chain\<close>: the invariant of the stored headers (a tree under the genesis,
      the canonical numbers spelling out the path to the current header, caches in agreement with the store), that \<^verbatim>\<open>WriteHeader\<close> keeps
      it and follows the greatest total difficulty, and that the common ancestor found is the last one.
    \<^item> \<^verbatim>\<open>Block_Chain\<close>: \<^verbatim>\<open>blockchain.go\<close> with \<^verbatim>\<open>block_validator.go\<close> and \<^verbatim>\<open>state_processor.go\<close>, as far as importing, rewinding and reading go.
      \<^verbatim>\<open>Block_Import\<close>: a valid block on top of the head extends the canonical chain and is found again; a heavier block elsewhere is dropped.
    \<^item> \<^verbatim>\<open>Tx_Pool\<close>: the pool with its goroutines as a step relation over channels; what it accepts is not lost, and its goroutines
      make progress.
    \<^item> \<^verbatim>\<open>Consensus_Engine\<close>: the engine of \<^verbatim>\<open>src/consensus/prometheus\<close>; what a miner makes is accepted by the others, and accepted batches of
      headers are chains.  \<^verbatim>\<open>Proof_Confirm\<close>: a work counts as confirmed only by a quorum.

  \<^bold>\<open>Fuel.\<close>  Loops without a structural measure take a number of steps, and the theorems are stated for enough of them.  A trie operation
  uses at most two steps per nibble, one to load a node and one to enter it (\<^verbatim>\<open>enough\<close>: four per byte of the key and four more, the
  terminator included).  The decoder of nodes takes the length of its input and one more, since an embedded node is
  shorter than the node around it.  The typed RLP decoders take the length of the input, the depth of the type and two
  more (\<^verbatim>\<open>rlp_Decode\<close>); the termination theorem gives the bound.  The loops of the header chain that move along the numbers take more steps than the
  highest number they start from, and those that climb to a common ancestor more than the higher of the two numbers.  All other
  recursions are structural or have a termination proof.

  \<^bold>\<open>What is not modelled.\<close>  Concurrency other than that of the pool and of the waiting proofs: locks are held for a whole operation,
  and the loops of the worker, the synchronisation controller and the chain's background goroutines are left out; of the worker only the
  parts they call are modelled.  The network, RPC, accounts and key store, console, commands, configuration, logging and
  metrics are input and output.  Elliptic curves are a C library behind cgo.  LevelDB and the virtual machine are libraries or
  absent.  The trie iterator, the download of tries, the chain indexer and bloom filters, fast synchronisation of receipts, the
  genesis configuration and generated JSON code are not needed by the parts above.  Of the state, \<^verbatim>\<open>Copy\<close>, \<^verbatim>\<open>StorageTrie\<close>
  and \<^verbatim>\<open>ForEachStorage\<close> share mutable trie nodes or use the iterator.  Bulk byte operations use unsafe pointers.  Memory sharing
  between slices is not modelled; no modelled operation keeps a slice of its caller except the trie, which does not change it.
\<close>

section \<open>The hash function of the node\<close>

text \<open>
  The hash that tries, headers and proofs are given in the program is Keccak-256 of \<^verbatim>\<open>src/common/crypto\<close>.  Its results have the
  length that the theorems ask of \<open>kec\<close>, and the facts about tries hold for it without that hypothesis.
\<close>

lemma node_hash: "Keccak256 [x] = (Ok (sponge_hash 136 0x01 32 x) :: ('e, bytes) res)"
  using Writes_Sum [of 136 32 "0x01" "[x]", where 'e = 'e] by (simp add: Keccak256_def NewKeccak256_def)

lemma length_node_hash: "length (sponge_hash 136 0x01 32 x) = 32"
  by (rule length_sponge_hash) simp_all

lemmas node_trie =
  Trie_Hash_ok [where kec = "sponge_hash 136 0x01 32", OF length_node_hash]
  mem.CommitTo_ok [where kec = "sponge_hash 136 0x01 32", OF length_node_hash]
  Trie_New_stored [where kec = "sponge_hash 136 0x01 32", OF length_node_hash]
  Prove_ok [where kec = "sponge_hash 136 0x01 32", OF length_node_hash]

end
